(* ===== verification/Leah_Prelude.thy ===== *)
theory Leah_Prelude
  imports Main "HOL-Library.Word" "HOL-Library.Monad_Syntax"
begin

text \<open>
  Shared vocabulary of the development: bytes, C buffers as byte lists, the wrap-around of
  \<^verbatim>\<open>unsigned\<close> (32 bits) and \<^verbatim>\<open>unsigned long\<close> (64 bits), the error numbers of
  \<^verbatim>\<open>user/libc/include/errno.h\<close>, and the generic lemmas on lists and the option monad that the
  component theories use.

  Conventions. A C function that may read outside an object, divide by zero or fail to return is
  modelled in the option monad with explicit state: \<open>None\<close> is "the process faults or hangs",
  \<open>Some (r, s)\<close> is "it returns \<open>r\<close> and leaves the state \<open>s\<close>". A C error return (\<open>-1\<close>, a null
  pointer, \<open>-ENOENT\<close>) is a value inside \<open>r\<close>, never \<open>None\<close>.
\<close>

unbundle bit_operations_syntax

type_synonym byte = "8 word"
type_synonym bytes = "8 word list"

named_theorems buf_simps "reading back what was written into a byte buffer"
named_theorems frame_simps "what an operation leaves alone"

section \<open>Fixed-width unsigned arithmetic\<close>

abbreviation u32 :: "nat \<Rightarrow> nat" where
  "u32 n \<equiv> n mod 4294967296"

abbreviation u64 :: "nat \<Rightarrow> nat" where
  "u64 n \<equiv> n mod 18446744073709551616"

text \<open>\<open>a - b\<close> on \<^verbatim>\<open>unsigned\<close> values wraps instead of stopping at zero.\<close>

definition sub32 :: "nat \<Rightarrow> nat \<Rightarrow> nat" where
  "sub32 a b = (a + (4294967296 - b mod 4294967296)) mod 4294967296"

definition sub64 :: "nat \<Rightarrow> nat \<Rightarrow> nat" where
  "sub64 a b = (a + (18446744073709551616 - b mod 18446744073709551616)) mod 18446744073709551616"

lemma sub32_le [simp]: "b \<le> a \<Longrightarrow> a < 4294967296 \<Longrightarrow> sub32 a b = a - b"
  by (simp add: sub32_def mod_if)

lemma sub64_le [simp]: "b \<le> a \<Longrightarrow> a < 18446744073709551616 \<Longrightarrow> sub64 a b = a - b"
  by (simp add: sub64_def mod_if)

section \<open>Error numbers\<close>

definition EPERM :: int where "EPERM = 1"
definition ENOENT :: int where "ENOENT = 2"
definition EIO :: int where "EIO = 5"
definition E2BIG :: int where "E2BIG = 7"
definition EACCES :: int where "EACCES = 13"
definition EBUSY :: int where "EBUSY = 16"
definition EEXIST :: int where "EEXIST = 17"
definition ENOTDIR :: int where "ENOTDIR = 20"
definition EISDIR :: int where "EISDIR = 21"
definition EINVAL :: int where "EINVAL = 22"
definition ENOSPC :: int where "ENOSPC = 28"
definition ENAMETOOLONG :: int where "ENAMETOOLONG = 36"
definition ENOTEMPTY :: int where "ENOTEMPTY = 39"

lemmas errno_defs = EPERM_def ENOENT_def EIO_def E2BIG_def EACCES_def EBUSY_def EEXIST_def
  ENOTDIR_def EISDIR_def EINVAL_def ENOSPC_def ENAMETOOLONG_def ENOTEMPTY_def

section \<open>Byte buffers\<close>

text \<open>
  A buffer is the list of the bytes it was filled with. \<open>byte_at\<close> reads zero past its end; the
  models use it only where the code has checked the position, where the bytes behind the list were
  cleared before, or inside a guard that answers \<open>None\<close> for a position outside the object.
\<close>

definition byte_at :: "bytes \<Rightarrow> nat \<Rightarrow> byte" where
  "byte_at p i = (if i < length p then p ! i else 0)"

definition slice :: "bytes \<Rightarrow> nat \<Rightarrow> nat \<Rightarrow> bytes" where
  "slice p off n = map (byte_at p) [off ..< off + n]"

text \<open>\<^verbatim>\<open>memcpy(dst + off, src, length src)\<close>\<close>

definition overlay :: "bytes \<Rightarrow> nat \<Rightarrow> bytes \<Rightarrow> bytes" where
  "overlay dst off src =
     map (\<lambda>i. if off \<le> i \<and> i < off + length src then src ! (i - off) else dst ! i) [0 ..< length dst]"

lemma length_slice [simp]: "length (slice p off n) = n"
  by (simp add: slice_def)

lemma nth_slice [simp]: "i < n \<Longrightarrow> slice p off n ! i = byte_at p (off + i)"
  by (simp add: slice_def)

lemma byte_at_slice [buf_simps]:
  "byte_at (slice p off n) i = (if i < n then byte_at p (off + i) else 0)"
  by (simp add: byte_at_def slice_def)

lemma length_overlay [simp]: "length (overlay dst off src) = length dst"
  by (simp add: overlay_def)

lemma byte_at_overlay [buf_simps]:
  "byte_at (overlay dst off src) i =
     (if off \<le> i \<and> i < off + length src \<and> i < length dst then src ! (i - off) else byte_at dst i)"
  by (auto simp: byte_at_def overlay_def)

lemma byte_at_update [buf_simps]:
  "byte_at (p[j := v]) i = (if i = j \<and> j < length p then v else byte_at p i)"
  by (auto simp: byte_at_def)

lemma byte_at_map_upt [buf_simps]:
  "byte_at (map f [a ..< b]) i = (if i < b - a then f (a + i) else 0)"
  by (auto simp: byte_at_def)

lemma byte_at_replicate [buf_simps]: "byte_at (replicate n 0) i = 0"
  by (simp add: byte_at_def)

lemma buffer_eqI:
  assumes "length p = length q" "\<And>i. i < length q \<Longrightarrow> byte_at p i = byte_at q i"
  shows "p = q"
  using assms by (auto simp: byte_at_def intro!: nth_equalityI)

lemma slice_whole [simp]: "slice p 0 (length p) = p"
  by (rule buffer_eqI) (simp_all add: buf_simps)

lemma slice_overlay_same:
  "off + length src \<le> length dst \<Longrightarrow> slice (overlay dst off src) off (length src) = src"
  by (rule buffer_eqI) (auto simp: byte_at_def overlay_def)

section \<open>The option monad\<close>

lemma bind_Some_iff:
  "(Option.bind m f = Some y) \<longleftrightarrow> (\<exists>x. m = Some x \<and> f x = Some y)"
  by (cases m) auto

lemma bind_prod_SomeI:
  "m = Some (r, s) \<Longrightarrow> f r s = x \<Longrightarrow> Option.bind m (\<lambda>(r, s). f r s) = x"
  by simp

end
