(* ===== verification/Vfs_Bytes.thy ===== *)
theory Vfs_Bytes
  imports Leah_Prelude
begin

text \<open>
  The accessors \<^verbatim>\<open>user/vfsd.c\<close> uses on raw blocks: little-endian \<^verbatim>\<open>rd16\<close>, \<^verbatim>\<open>rd32\<close>, \<^verbatim>\<open>wr16w\<close>,
  \<^verbatim>\<open>wr32w\<close> for ext4 and big-endian \<^verbatim>\<open>rd32be\<close>, \<^verbatim>\<open>wr32be\<close> for the journal, with their read-back and
  non-interference laws. The C code combines the bytes of a field with \<^verbatim>\<open>|\<close> after shifting; the
  shifted bytes do not overlap, so the value is the sum written here. An \<^verbatim>\<open>unsigned\<close> argument is a
  natural number below \<open>2 ^ 32\<close>; the conversion to \<^verbatim>\<open>unsigned char\<close> is \<^term>\<open>of_nat :: nat \<Rightarrow> byte\<close>.
\<close>

definition rd16 :: "bytes \<Rightarrow> nat \<Rightarrow> nat" where
  "rd16 p at = unat (byte_at p at) + 256 * unat (byte_at p (at + 1))"

definition rd32 :: "bytes \<Rightarrow> nat \<Rightarrow> nat" where
  "rd32 p at = unat (byte_at p at) + 256 * unat (byte_at p (at + 1))
             + 65536 * unat (byte_at p (at + 2)) + 16777216 * unat (byte_at p (at + 3))"

definition wr16w :: "bytes \<Rightarrow> nat \<Rightarrow> nat \<Rightarrow> bytes" where
  "wr16w p at v = p[at := of_nat v, at + 1 := of_nat (v div 256)]"

definition wr32w :: "bytes \<Rightarrow> nat \<Rightarrow> nat \<Rightarrow> bytes" where
  "wr32w p at v = p[at := of_nat v, at + 1 := of_nat (v div 256),
                    at + 2 := of_nat (v div 65536), at + 3 := of_nat (v div 16777216)]"

definition rd32be :: "bytes \<Rightarrow> nat \<Rightarrow> nat" where
  "rd32be p at = 16777216 * unat (byte_at p at) + 65536 * unat (byte_at p (at + 1))
               + 256 * unat (byte_at p (at + 2)) + unat (byte_at p (at + 3))"

definition wr32be :: "bytes \<Rightarrow> nat \<Rightarrow> nat \<Rightarrow> bytes" where
  "wr32be p at v = p[at := of_nat (v div 16777216), at + 1 := of_nat (v div 65536),
                     at + 2 := of_nat (v div 256), at + 3 := of_nat v]"

section \<open>Bounds and lengths\<close>

lemma unat_byte_less [simp]: "unat (b :: byte) < 256"
  using unsigned_less [where 'a = nat and w = b] by simp

lemma unat_byte_le [simp]: "unat (b :: byte) \<le> 255"
  using unat_byte_less [of b] by linarith

lemma unat_of_nat_byte [simp]: "unat (of_nat n :: byte) = n mod 256"
  by (simp add: unat_of_nat)

lemma length_wr [simp]:
  "length (wr16w p at v) = length p" "length (wr32w p at v) = length p"
  "length (wr32be p at v) = length p"
  by (simp_all add: wr16w_def wr32w_def wr32be_def)

lemma rd16_less [simp]: "rd16 p at < 65536"
proof -
  have "unat (byte_at p at) \<le> 255" "unat (byte_at p (at + 1)) \<le> 255" by simp_all
  then show ?thesis unfolding rd16_def by linarith
qed

lemma rd32_less [simp]: "rd32 p at < 4294967296"
proof -
  have "unat (byte_at p at) \<le> 255" "unat (byte_at p (at + 1)) \<le> 255"
    "unat (byte_at p (at + 2)) \<le> 255" "unat (byte_at p (at + 3)) \<le> 255" by simp_all
  then show ?thesis unfolding rd32_def by linarith
qed

lemma rd32be_less [simp]: "rd32be p at < 4294967296"
proof -
  have "unat (byte_at p at) \<le> 255" "unat (byte_at p (at + 1)) \<le> 255"
    "unat (byte_at p (at + 2)) \<le> 255" "unat (byte_at p (at + 3)) \<le> 255" by simp_all
  then show ?thesis unfolding rd32be_def by linarith
qed

section \<open>Reading back\<close>

lemma split16: "v mod 256 + 256 * (v div 256 mod 256) = v mod 65536" for v :: nat
  using mod_mult2_eq [of v 256 256] by simp

lemma split32:
  "v mod 256 + 256 * (v div 256 mod 256) + 65536 * (v div 65536 mod 256)
   + 16777216 * (v div 16777216 mod 256) = v mod 4294967296" for v :: nat
proof -
  have "v mod 16777216 = 65536 * (v div 65536 mod 256) + v mod 65536"
    using mod_mult2_eq [of v 65536 256] by simp
  moreover have "v mod 4294967296 = 16777216 * (v div 16777216 mod 256) + v mod 16777216"
    using mod_mult2_eq [of v 16777216 256] by simp
  ultimately show ?thesis using split16 [of v] by simp
qed

lemma byte_at_wr16w [buf_simps]:
  "byte_at (wr16w p at v) i =
     (if i = at + 1 \<and> i < length p then of_nat (v div 256)
      else if i = at \<and> i < length p then of_nat v else byte_at p i)"
  by (auto simp: wr16w_def byte_at_update)

lemma byte_at_wr32w [buf_simps]:
  "byte_at (wr32w p at v) i =
     (if i = at + 3 \<and> i < length p then of_nat (v div 16777216)
      else if i = at + 2 \<and> i < length p then of_nat (v div 65536)
      else if i = at + 1 \<and> i < length p then of_nat (v div 256)
      else if i = at \<and> i < length p then of_nat v else byte_at p i)"
  by (auto simp: wr32w_def byte_at_update)

lemma byte_at_wr32be [buf_simps]:
  "byte_at (wr32be p at v) i =
     (if i = at + 3 \<and> i < length p then of_nat v
      else if i = at + 2 \<and> i < length p then of_nat (v div 256)
      else if i = at + 1 \<and> i < length p then of_nat (v div 65536)
      else if i = at \<and> i < length p then of_nat (v div 16777216) else byte_at p i)"
  by (auto simp: wr32be_def byte_at_update)

lemma rd16_wr16w [simp]: "at + 2 \<le> length p \<Longrightarrow> rd16 (wr16w p at v) at = v mod 65536"
  using split16 [of v] by (simp add: rd16_def byte_at_wr16w)

lemma rd32_wr32w [simp]: "at + 4 \<le> length p \<Longrightarrow> rd32 (wr32w p at v) at = v mod 4294967296"
  using split32 [of v] by (simp add: rd32_def byte_at_wr32w)

lemma rd32be_wr32be [simp]: "at + 4 \<le> length p \<Longrightarrow> rd32be (wr32be p at v) at = v mod 4294967296"
  using split32 [of v] by (simp add: rd32be_def byte_at_wr32be)

section \<open>Writes elsewhere do not interfere\<close>

lemma byte_at_wr_other:
  "i < at \<or> at + 2 \<le> i \<Longrightarrow> byte_at (wr16w p at v) i = byte_at p i"
  "i < at \<or> at + 4 \<le> i \<Longrightarrow> byte_at (wr32w p at v) i = byte_at p i"
  "i < at \<or> at + 4 \<le> i \<Longrightarrow> byte_at (wr32be p at v) i = byte_at p i"
  by (elim disjE; simp add: byte_at_wr16w byte_at_wr32w byte_at_wr32be)+

lemma rd16_wr16w_other [buf_simps]:
  "at' + 2 \<le> at \<or> at + 2 \<le> at' \<Longrightarrow> rd16 (wr16w p at v) at' = rd16 p at'"
  by (elim disjE; simp add: rd16_def byte_at_wr_other)

lemma rd16_wr32w_other [buf_simps]:
  "at' + 2 \<le> at \<or> at + 4 \<le> at' \<Longrightarrow> rd16 (wr32w p at v) at' = rd16 p at'"
  by (elim disjE; simp add: rd16_def byte_at_wr_other)

lemma rd32_wr16w_other [buf_simps]:
  "at' + 4 \<le> at \<or> at + 2 \<le> at' \<Longrightarrow> rd32 (wr16w p at v) at' = rd32 p at'"
  by (elim disjE; simp add: rd32_def byte_at_wr_other)

lemma rd32_wr32w_other [buf_simps]:
  "at' + 4 \<le> at \<or> at + 4 \<le> at' \<Longrightarrow> rd32 (wr32w p at v) at' = rd32 p at'"
  by (elim disjE; simp add: rd32_def byte_at_wr_other)

lemma rd32be_wr32be_other [buf_simps]:
  "at' + 4 \<le> at \<or> at + 4 \<le> at' \<Longrightarrow> rd32be (wr32be p at v) at' = rd32be p at'"
  by (elim disjE; simp add: rd32be_def byte_at_wr_other)

lemma rd_overlay_other [buf_simps]:
  "at + 2 \<le> off \<or> off + length q \<le> at \<Longrightarrow> rd16 (overlay p off q) at = rd16 p at"
  "at + 4 \<le> off \<or> off + length q \<le> at \<Longrightarrow> rd32 (overlay p off q) at = rd32 p at"
  by (elim disjE; simp add: rd16_def rd32_def byte_at_overlay)+

lemma rd_slice [buf_simps]:
  "at + 2 \<le> n \<Longrightarrow> rd16 (slice p off n) at = rd16 p (off + at)"
  "at + 4 \<le> n \<Longrightarrow> rd32 (slice p off n) at = rd32 p (off + at)"
  by (simp_all add: rd16_def rd32_def byte_at_slice add.assoc)

lemma rd_zeros [simp]:
  "rd16 (replicate n 0) at = 0" "rd32 (replicate n 0) at = 0" "rd32be (replicate n 0) at = 0"
  by (simp_all add: rd16_def rd32_def rd32be_def byte_at_replicate)

text \<open>Storing the value a field already holds changes nothing.\<close>

lemma rd32be_inj:
  assumes "rd32be p at = rd32be q at" and "i < 4"
  shows "byte_at p (at + i) = byte_at q (at + i)"
proof -
  have pair: "a = c \<and> b = d" if "256 * a + b = 256 * c + d" "b < 256" "d < 256" for a b c d :: nat
  proof -
    have "(256 * a + b) div 256 = (256 * c + d) div 256" using that(1) by simp
    then have "a = c" using that(2,3) by simp
    then show ?thesis using that(1) by simp
  qed
  have eq: "a0 = b0 \<and> a1 = b1 \<and> a2 = b2 \<and> a3 = b3"
    if "16777216 * a0 + 65536 * a1 + 256 * a2 + a3 = 16777216 * b0 + 65536 * b1 + 256 * b2 + b3"
      and "a1 < 256" "a2 < 256" "a3 < 256" "b1 < 256" "b2 < 256" "b3 < 256"
    for a0 a1 a2 a3 b0 b1 b2 b3 :: nat
  proof -
    have "256 * (256 * (256 * a0 + a1) + a2) + a3 = 256 * (256 * (256 * b0 + b1) + b2) + b3"
      using that(1) by simp
    then have "256 * (256 * a0 + a1) + a2 = 256 * (256 * b0 + b1) + b2" and "a3 = b3"
      using pair that by blast+
    moreover from this have "256 * a0 + a1 = 256 * b0 + b1" and "a2 = b2"
      using pair that by blast+
    moreover from this have "a0 = b0" and "a1 = b1"
      using pair that by blast+
    ultimately show ?thesis by simp
  qed
  have "unat (byte_at p at) = unat (byte_at q at) \<and> unat (byte_at p (at + 1)) = unat (byte_at q (at + 1))
      \<and> unat (byte_at p (at + 2)) = unat (byte_at q (at + 2))
      \<and> unat (byte_at p (at + 3)) = unat (byte_at q (at + 3))"
    using assms(1) unfolding rd32be_def by (intro eq) simp_all
  then have bytes: "byte_at p at = byte_at q at" "byte_at p (at + 1) = byte_at q (at + 1)"
    "byte_at p (at + 2) = byte_at q (at + 2)" "byte_at p (at + 3) = byte_at q (at + 3)"
    by (simp_all only: word_unat_eq_iff)
  consider "i = 0" | "i = 1" | "i = 2" | "i = 3" using assms(2) by linarith
  then show ?thesis using bytes by cases simp_all
qed

end
