(* ===== verification/Vfs_Disk.thy ===== *)
theory Vfs_Disk
  imports Vfs_Bytes
begin

text \<open>
  The state of the file server \<^verbatim>\<open>user/vfsd.c\<close> and its lowest layer: the message to the disk driver,
  the direct-mapped block cache and the read path that looks into the open transaction first.

  Environment. The disk drivers are other processes; a request to one either succeeds or is
  reported as failed, and a failed write may or may not have reached the platter. The outcome of
  the \<open>n\<close>-th request is \<open>vio s n\<close>. A disk is a function from byte offsets to bytes. The ghost field
  \<open>wlog\<close> records every sector that was written, in order, so that the states a power failure can
  leave behind are the prefixes of it. The kernel's answers (uptime, wall clock, credentials,
  memory size, whether the second driver is there, whether \<^verbatim>\<open>malloc\<close> succeeds) are fields too.
\<close>

section \<open>State\<close>

datatype io_outcome = IoOk | IoFailed | IoFailedWritten

record inode =
  i_mode :: nat
  i_uid :: nat
  i_gid :: nat
  i_size :: nat
  i_atime :: nat
  i_ctime :: nat
  i_mtime :: nat
  i_block :: bytes

record fs =
  fs_used :: bool
  fs_at :: bytes
  fs_dev :: nat
  block_size :: nat
  inodes_per_group :: nat
  inode_size :: nat
  desc_size :: nat
  first_data_block :: nat
  blocks_per_group :: nat
  group_count :: nat
  gd_block :: nat
  fs_sb :: bytes
  fs_mounted :: bool
  has_journal :: bool
  jrnl_first :: nat
  jrnl_maxlen :: nat
  jrnl_seq :: nat
  jrnl_start :: nat

type_synonym disks = "nat \<Rightarrow> nat \<Rightarrow> byte"
type_synonym sector_write = "nat \<times> nat \<times> bytes"

record vfs =
  vdisk :: disks
  wlog :: "sector_write list"
  vio :: "nat \<Rightarrow> io_outcome"
  vios :: nat
  ahci_up :: bool
  blk2 :: bool
  now_ms :: nat
  wall :: nat
  creds :: "nat \<Rightarrow> nat \<times> nat"
  mem_usable :: "nat option"
  malloc_ok :: bool
  g_fs :: "fs list"
  g_cur :: nat
  journal_inode :: "nat \<Rightarrow> inode"
  g_cache :: "nat \<Rightarrow> byte"
  g_cache_bytes :: nat
  g_cache_block :: "nat \<Rightarrow> nat"
  g_cache_dev :: "nat \<Rightarrow> nat"
  g_cache_full :: "nat \<Rightarrow> bool"
  g_cache_slots :: nat
  g_txn_open :: bool
  g_txn_bypass :: bool
  g_txn_started :: nat
  g_txn :: "(nat \<times> bytes) list"

text \<open>
  \<^verbatim>\<open>g_txn_target\<close>, \<^verbatim>\<open>g_txn_buf\<close> and \<^verbatim>\<open>g_txn_count\<close> are the list \<open>g_txn\<close>: only the first
  \<^verbatim>\<open>g_txn_count\<close> entries of the two arrays are ever read. \<^verbatim>\<open>g_cur\<close> is the index \<open>g_cur\<close> into the mount
  table, and the macros of \<^verbatim>\<open>vfsd.c\<close> that read a field of \<^verbatim>\<open>g_cur\<close> are \<open>gfs s\<close> below.
\<close>

definition FS_MAX :: nat where "FS_MAX = 4"
definition TXN_MAX :: nat where "TXN_MAX = 32"
definition BLK_AHCI_BASE :: nat where "BLK_AHCI_BASE = 4"
definition BLK_SECTOR :: nat where "BLK_SECTOR = 512"

abbreviation gfs :: "vfs \<Rightarrow> fs" where
  "gfs s \<equiv> g_fs s ! g_cur s"

definition upd_fs :: "(fs \<Rightarrow> fs) \<Rightarrow> vfs \<Rightarrow> vfs" where
  "upd_fs f s = s\<lparr>g_fs := (g_fs s)[g_cur s := f (gfs s)]\<rparr>"

abbreviation bsize :: "vfs \<Rightarrow> nat" where
  "bsize s \<equiv> block_size (gfs s)"

section \<open>The disk drivers\<close>

definition disk_port :: "nat \<Rightarrow> vfs \<Rightarrow> bool \<times> vfs" where
  "disk_port d s =
     (if d \<ge> BLK_AHCI_BASE then
        (if blk2 s then (True, s)
         else if ahci_up s then (True, s\<lparr>blk2 := True\<rparr>)
         else (False, s))
      else (True, s))"

definition next_io :: "vfs \<Rightarrow> io_outcome \<times> vfs" where
  "next_io s = (vio s (vios s), s\<lparr>vios := Suc (vios s)\<rparr>)"

definition apply_write :: "sector_write \<Rightarrow> disks \<Rightarrow> disks" where
  "apply_write w ds =
     (case w of (d, lba, data) \<Rightarrow>
        ds(d := (\<lambda>o'. if lba * 512 \<le> o' \<and> o' < lba * 512 + length data
                      then data ! (o' - lba * 512) else ds d o')))"

definition apply_writes :: "sector_write list \<Rightarrow> disks \<Rightarrow> disks" where
  "apply_writes ws ds = fold apply_write ws ds"

definition sectors_of :: "nat \<Rightarrow> nat \<Rightarrow> nat \<Rightarrow> bytes \<Rightarrow> sector_write list" where
  "sectors_of d lba count data =
     map (\<lambda>i. (d, lba + i, slice data (i * 512) 512)) [0 ..< count]"

text \<open>
  \<^verbatim>\<open>disk_read\<close> answers with the bytes it left in this server's transfer slot, \<^verbatim>\<open>disk_write\<close> is given
  the bytes that were copied into it.
\<close>

definition disk_read :: "nat \<Rightarrow> nat \<Rightarrow> nat \<Rightarrow> vfs \<Rightarrow> bytes option \<times> vfs" where
  "disk_read lba count d s =
     (let (port, s) = disk_port d s in
      if \<not> port then (None, s)
      else let (oc, s) = next_io s in
           if oc \<noteq> IoOk then (None, s)
           else (Some (map (vdisk s d) [lba * BLK_SECTOR ..< (lba + count) * BLK_SECTOR]), s))"

definition disk_write :: "nat \<Rightarrow> nat \<Rightarrow> nat \<Rightarrow> bytes \<Rightarrow> vfs \<Rightarrow> bool \<times> vfs" where
  "disk_write lba count d data s =
     (let (port, s) = disk_port d s in
      if \<not> port then (False, s)
      else let (oc, s) = next_io s;
               ws = sectors_of d lba count data;
               s' = s\<lparr>vdisk := apply_writes ws (vdisk s), wlog := wlog s @ ws\<rparr>
           in (case oc of IoOk \<Rightarrow> (True, s') | IoFailed \<Rightarrow> (False, s) | IoFailedWritten \<Rightarrow> (False, s')))"

section \<open>The block cache\<close>

definition cache_init :: "vfs \<Rightarrow> vfs" where
  "cache_init s =
     (if g_cache_slots s \<noteq> 0 \<or> bsize s = 0 then s
      else let bytes0 = (case mem_usable s of Some m \<Rightarrow> m div 16 | None \<Rightarrow> 1048576);
               bytes1 = (if bytes0 < 1048576 then 1048576 else bytes0);
               bytes2 = (if bytes1 > 25165824 then 25165824 else bytes1);
               slots = bytes2 div bsize s
           in if slots = 0 then s
              else if \<not> malloc_ok s then s\<lparr>g_cache_slots := 0\<rparr>
              else s\<lparr>g_cache_bytes := slots * bsize s, g_cache_full := (\<lambda>_. False), g_cache_slots := slots\<rparr>)"

definition cache_slot :: "nat \<Rightarrow> nat \<Rightarrow> vfs \<Rightarrow> nat" where
  "cache_slot block d s = (block XOR (d * 512)) mod g_cache_slots s"

text \<open>
  The cache memory is one run of \<open>g_cache_bytes\<close> bytes; slot \<open>i\<close> is addressed with the block size of
  the filesystem at hand. A slot that reaches past the run is a write outside the allocation.
\<close>

definition cache_put :: "nat \<Rightarrow> nat \<Rightarrow> bytes \<Rightarrow> vfs \<Rightarrow> vfs option" where
  "cache_put block d data s =
     (if g_cache_slots s = 0 then Some s
      else let i = cache_slot block d s; b = bsize s in
        if i * b + b > g_cache_bytes s then None
        else Some (s\<lparr>g_cache := (\<lambda>o'. if i * b \<le> o' \<and> o' < i * b + b then byte_at data (o' - i * b) else g_cache s o'),
                     g_cache_block := (g_cache_block s)(i := block),
                     g_cache_dev := (g_cache_dev s)(i := d),
                     g_cache_full := (g_cache_full s)(i := True)\<rparr>))"

definition cache_get :: "nat \<Rightarrow> nat \<Rightarrow> vfs \<Rightarrow> bytes option option" where
  "cache_get block d s =
     (if g_cache_slots s = 0 then Some None
      else let i = cache_slot block d s; b = bsize s in
        if \<not> g_cache_full s i \<or> g_cache_block s i \<noteq> block \<or> g_cache_dev s i \<noteq> d then Some None
        else if i * b + b > g_cache_bytes s then None
        else Some (Some (map (g_cache s) [i * b ..< i * b + b])))"

section \<open>Reading a block\<close>

definition txn_peek :: "nat \<Rightarrow> vfs \<Rightarrow> bytes option" where
  "txn_peek block s =
     (if \<not> g_txn_open s \<or> g_txn_bypass s then None
      else map_option snd (find (\<lambda>e. fst e = block) (g_txn s)))"

definition read_block :: "nat \<Rightarrow> vfs \<Rightarrow> (bytes option \<times> vfs) option" where
  "read_block block s =
     (case txn_peek block s of
        Some data \<Rightarrow> Some (Some data, s)
      | None \<Rightarrow> do {
          hit \<leftarrow> cache_get block (fs_dev (gfs s)) s;
          (case hit of
             Some data \<Rightarrow> Some (Some data, s)
           | None \<Rightarrow>
               (let sectors = bsize s div BLK_SECTOR;
                    (got, s) = disk_read (block * sectors) sectors (fs_dev (gfs s)) s
                in case got of
                     None \<Rightarrow> Some (None, s)
                   | Some data \<Rightarrow> do {
                       s \<leftarrow> cache_put block (fs_dev (gfs s)) data s;
                       Some (Some data, s) }))
        })"

text \<open>
  The second half of \<^verbatim>\<open>write_block\<close>: what it does when no transaction is collecting, or when the
  journal's own writes bypass it. Write-through, the cache first.
\<close>

definition write_through :: "nat \<Rightarrow> bytes \<Rightarrow> vfs \<Rightarrow> (bool \<times> vfs) option" where
  "write_through block data s =
     (let sectors = bsize s div BLK_SECTOR in
      do {
        s \<leftarrow> cache_put block (fs_dev (gfs s)) data s;
        Some (disk_write (block * sectors) sectors (fs_dev (gfs s)) data s)
      })"

section \<open>What the block layer promises\<close>

definition blk :: "disks \<Rightarrow> nat \<Rightarrow> nat \<Rightarrow> nat \<Rightarrow> bytes" where
  "blk ds d B b = map (ds d) [b * B ..< b * B + B]"

definition cache_coherent :: "nat \<Rightarrow> vfs \<Rightarrow> bool" where
  "cache_coherent B s \<longleftrightarrow>
     g_cache_slots s * B \<le> g_cache_bytes s \<and>
     (\<forall>i < g_cache_slots s. g_cache_full s i \<longrightarrow>
        i = cache_slot (g_cache_block s i) (g_cache_dev s i) s \<and>
        map (g_cache s) [i * B ..< i * B + B] = blk (vdisk s) (g_cache_dev s i) B (g_cache_block s i))"

text \<open>The drivers answer: no request fails and the disk of the current mount has a driver.\<close>

definition drivers_ok :: "vfs \<Rightarrow> bool" where
  "drivers_ok s \<longleftrightarrow> (\<forall>n. vio s n = IoOk) \<and> (fs_dev (gfs s) < BLK_AHCI_BASE \<or> ahci_up s \<or> blk2 s)"

text \<open>\<open>s'\<close> differs from \<open>s\<close> at most in the cache, the request counter and the open driver port.\<close>

definition cache_step :: "vfs \<Rightarrow> vfs \<Rightarrow> bool" where
  "cache_step s s' \<longleftrightarrow>
     vdisk s' = vdisk s \<and> wlog s' = wlog s \<and> vio s' = vio s \<and>
     ahci_up s' = ahci_up s \<and> now_ms s' = now_ms s \<and> wall s' = wall s \<and>
     creds s' = creds s \<and> mem_usable s' = mem_usable s \<and>
     malloc_ok s' = malloc_ok s \<and> g_fs s' = g_fs s \<and> g_cur s' = g_cur s \<and>
     journal_inode s' = journal_inode s \<and> g_cache_bytes s' = g_cache_bytes s \<and>
     g_cache_slots s' = g_cache_slots s \<and> g_txn_open s' = g_txn_open s \<and>
     g_txn_bypass s' = g_txn_bypass s \<and> g_txn_started s' = g_txn_started s \<and>
     g_txn s' = g_txn s \<and> (blk2 s \<longrightarrow> blk2 s')"

definition block_layer_ok :: "nat \<Rightarrow> vfs \<Rightarrow> bool" where
  "block_layer_ok B s \<longleftrightarrow>
     bsize s = B \<and> 0 < B \<and> 512 dvd B \<and> drivers_ok s \<and> cache_coherent B s"

lemma cache_step_refl [simp]: "cache_step s s"
  by (simp add: cache_step_def)

lemma cache_step_trans: "cache_step s t \<Longrightarrow> cache_step t u \<Longrightarrow> cache_step s u"
  by (simp add: cache_step_def)

lemma cache_step_fields [frame_simps]:
  assumes "cache_step s s'"
  shows "vdisk s' = vdisk s" "wlog s' = wlog s" "vio s' = vio s" "ahci_up s' = ahci_up s"
    "now_ms s' = now_ms s" "wall s' = wall s" "creds s' = creds s" "mem_usable s' = mem_usable s"
    "malloc_ok s' = malloc_ok s" "g_fs s' = g_fs s" "g_cur s' = g_cur s"
    "journal_inode s' = journal_inode s" "g_cache_bytes s' = g_cache_bytes s"
    "g_cache_slots s' = g_cache_slots s" "g_txn_open s' = g_txn_open s"
    "g_txn_bypass s' = g_txn_bypass s" "g_txn_started s' = g_txn_started s" "g_txn s' = g_txn s"
  using assms by (simp_all add: cache_step_def)

subsection \<open>Blocks of a disk\<close>

lemma length_blk [simp]: "length (blk ds d B b) = B"
  by (simp add: blk_def)

lemma byte_at_blk: "byte_at (blk ds d B b) i = (if i < B then ds d (b * B + i) else 0)"
  by (simp add: blk_def byte_at_map_upt)

lemma in_block_iff:
  assumes "0 < (B :: nat)"
  shows "b * B \<le> o' \<and> o' < b * B + B \<longleftrightarrow> o' div B = b"
  using assms by (auto simp: div_nat_eqI dividend_less_times_div algebra_simps intro: div_nat_eqI)

lemma apply_writes_Nil [simp]: "apply_writes [] ds = ds"
  by (simp add: apply_writes_def)

lemma apply_writes_append: "apply_writes (xs @ ys) ds = apply_writes ys (apply_writes xs ds)"
  by (simp add: apply_writes_def)

lemma apply_writes_sectors:
  "apply_writes (sectors_of d lba n data) ds =
     ds(d := (\<lambda>o'. if lba * 512 \<le> o' \<and> o' < (lba + n) * 512
                   then byte_at data (o' - lba * 512) else ds d o'))"
proof (induction n)
  case 0
  then show ?case by (auto simp: sectors_of_def fun_eq_iff)
next
  case (Suc n)
  have "sectors_of d lba (Suc n) data = sectors_of d lba n data @ [(d, lba + n, slice data (n * 512) 512)]"
    by (simp add: sectors_of_def)
  then have "apply_writes (sectors_of d lba (Suc n) data) ds
      = apply_write (d, lba + n, slice data (n * 512) 512) (apply_writes (sectors_of d lba n data) ds)"
    by (simp add: apply_writes_def)
  also have "\<dots> = ds(d := (\<lambda>o'. if lba * 512 \<le> o' \<and> o' < (lba + Suc n) * 512
                   then byte_at data (o' - lba * 512) else ds d o'))"
    unfolding Suc.IH apply_write_def
    by (rule ext) (auto simp: fun_upd_def fun_eq_iff algebra_simps intro!: arg_cong [where f = "byte_at data"])
  finally show ?case .
qed

definition set_blk :: "nat \<Rightarrow> nat \<Rightarrow> nat \<Rightarrow> bytes \<Rightarrow> disks \<Rightarrow> disks" where
  "set_blk d B b data ds =
     ds(d := (\<lambda>o'. if b * B \<le> o' \<and> o' < b * B + B then byte_at data (o' - b * B) else ds d o'))"

lemma write_block_sectors:
  assumes "512 dvd B"
  shows "apply_writes (sectors_of d (b * (B div 512)) (B div 512) data) ds = set_blk d B b data ds"
proof -
  have "b * (B div 512) * 512 = b * B" "(b * (B div 512) + B div 512) * 512 = b * B + B"
    using assms by (simp_all add: algebra_simps)
  then show ?thesis unfolding apply_writes_sectors set_blk_def by (simp only:)
qed

lemma blk_set_blk_same [simp]: "length data = B \<Longrightarrow> blk (set_blk d B b data ds) d B b = data"
  by (rule buffer_eqI) (auto simp: byte_at_blk set_blk_def)

lemma blk_set_blk_other:
  assumes "0 < B" "(d', b') \<noteq> (d, b)"
  shows "blk (set_blk d B b data ds) d' B b' = blk ds d' B b'"
proof (rule buffer_eqI)
  fix i assume i: "i < length (blk ds d' B b')"
  show "byte_at (blk (set_blk d B b data ds) d' B b') i = byte_at (blk ds d' B b') i"
  proof (cases "d' = d")
    case True
    then have "b' \<noteq> b" using assms(2) by simp
    moreover have "(b' * B + i) div B = b'" using i by (simp add: assms(1))
    ultimately have "\<not> (b * B \<le> b' * B + i \<and> b' * B + i < b * B + B)"
      by (simp only: in_block_iff [OF assms(1)] simp_thms)
    then show ?thesis by (auto simp: byte_at_blk set_blk_def True)
  next
    case False
    then show ?thesis by (simp add: byte_at_blk set_blk_def)
  qed
qed simp

lemma blk_set_blk:
  "0 < B \<Longrightarrow> length data = B \<Longrightarrow>
   blk (set_blk d B b data ds) d' B b' = (if d' = d \<and> b' = b then data else blk ds d' B b')"
  using blk_set_blk_other [of B d' b' d b data ds] by auto

subsection \<open>The cache\<close>

lemma cache_slot_cong: "g_cache_slots s' = g_cache_slots s \<Longrightarrow> cache_slot b d s' = cache_slot b d s"
  by (simp add: cache_slot_def)

lemma cache_slot_less: "g_cache_slots s \<noteq> 0 \<Longrightarrow> cache_slot b d s < g_cache_slots s"
  by (simp add: cache_slot_def)

lemma slot_fits:
  assumes "cache_coherent B s" "i < g_cache_slots s"
  shows "i * B + B \<le> g_cache_bytes s"
proof -
  have "i * B + B \<le> g_cache_slots s * B"
    using assms(2) mult_le_mono1 [of "Suc i" "g_cache_slots s" B] by simp
  then show ?thesis using assms(1) by (simp add: cache_coherent_def)
qed

lemma cache_get_coherent:
  assumes "cache_coherent B s" "bsize s = B"
  shows "cache_get b d s = Some None \<or> cache_get b d s = Some (Some (blk (vdisk s) d B b))"
proof (cases "g_cache_slots s = 0")
  case True
  then show ?thesis by (simp add: cache_get_def)
next
  case False
  then have "cache_slot b d s < g_cache_slots s" by (rule cache_slot_less)
  moreover from this have "cache_slot b d s * B + B \<le> g_cache_bytes s"
    by (rule slot_fits [OF assms(1)])
  ultimately show ?thesis using assms False
    by (auto simp: cache_get_def Let_def cache_coherent_def)
qed

text \<open>
  Putting a block into the cache keeps it coherent as soon as the disk agrees with what was put
  there: \<open>ds\<close> is the disk afterwards, and it may differ from the present one in that block only.
\<close>

lemma cache_put_coherent:
  assumes coh: "cache_coherent B s" and B: "bsize s = B" "0 < B"
    and data: "length data = B" "blk ds d B b = data"
    and same: "\<And>d' b'. (d', b') \<noteq> (d, b) \<Longrightarrow> blk ds d' B b' = blk (vdisk s) d' B b'"
  obtains s' where "cache_put b d data s = Some s'" "cache_step s s'"
    "cache_coherent B (s'\<lparr>vdisk := ds\<rparr>)"
proof (cases "g_cache_slots s = 0")
  case True
  then show ?thesis using that [of s] coh by (simp add: cache_put_def cache_coherent_def)
next
  case False
  define i where "i = cache_slot b d s"
  define s' where "s' = s\<lparr>g_cache := (\<lambda>o'. if i * B \<le> o' \<and> o' < i * B + B then byte_at data (o' - i * B) else g_cache s o'),
      g_cache_block := (g_cache_block s)(i := b), g_cache_dev := (g_cache_dev s)(i := d),
      g_cache_full := (g_cache_full s)(i := True)\<rparr>"
  have i: "i < g_cache_slots s" unfolding i_def by (rule cache_slot_less [OF False])
  have fits: "i * B + B \<le> g_cache_bytes s" by (rule slot_fits [OF coh i])
  have put: "cache_put b d data s = Some s'"
    using False fits B by (simp add: cache_put_def Let_def s'_def flip: i_def)
  have step: "cache_step s s'" by (simp add: cache_step_def s'_def)
  have slot: "cache_slot b' d' (s'\<lparr>vdisk := ds\<rparr>) = cache_slot b' d' s" for b' d'
    by (simp add: cache_slot_def s'_def)
  have mine: "map (g_cache s') [i * B ..< i * B + B] = data"
    using data(1) by (auto simp: s'_def byte_at_def intro!: nth_equalityI)
  have others: "map (g_cache s') [j * B ..< j * B + B] = map (g_cache s) [j * B ..< j * B + B]" if "j \<noteq> i" for j
  proof (rule map_cong [OF refl])
    fix o' assume "o' \<in> set [j * B ..< j * B + B]"
    then have "o' div B = j" using in_block_iff [OF B(2), of j o'] by simp
    with that have "\<not> (i * B \<le> o' \<and> o' < i * B + B)" by (simp only: in_block_iff [OF B(2)] simp_thms)
    then show "g_cache s' o' = g_cache s o'" by (auto simp: s'_def)
  qed
  have "j = cache_slot (g_cache_block s' j) (g_cache_dev s' j) s \<and>
      map (g_cache s') [j * B ..< j * B + B] = blk ds (g_cache_dev s' j) B (g_cache_block s' j)"
    if j: "j < g_cache_slots s" and full: "g_cache_full s' j" for j
  proof (cases "j = i")
    case True
    then show ?thesis using mine data(2) by (simp add: s'_def i_def)
  next
    case False
    then have at_j: "g_cache_block s' j = g_cache_block s j" "g_cache_dev s' j = g_cache_dev s j"
      "g_cache_full s j" using full by (simp_all add: s'_def)
    then have old: "j = cache_slot (g_cache_block s j) (g_cache_dev s j) s"
      "map (g_cache s) [j * B ..< j * B + B] = blk (vdisk s) (g_cache_dev s j) B (g_cache_block s j)"
      using coh j by (auto simp: cache_coherent_def)
    then have "(g_cache_dev s j, g_cache_block s j) \<noteq> (d, b)" using False by (auto simp: i_def)
    then show ?thesis using old others [OF False] at_j same by simp
  qed
  then have "cache_coherent B (s'\<lparr>vdisk := ds\<rparr>)"
    using coh unfolding cache_coherent_def slot by (simp add: s'_def)
  with put step that show ?thesis by blast
qed

lemma drivers_ok_cong:
  "drivers_ok s \<Longrightarrow> cache_step s s' \<Longrightarrow> drivers_ok s'"
  by (auto simp: drivers_ok_def cache_step_def)

lemma disk_port_ok:
  assumes "drivers_ok s"
  shows "disk_port (fs_dev (gfs s)) s = (True, s\<lparr>blk2 := (BLK_AHCI_BASE \<le> fs_dev (gfs s) \<or> blk2 s)\<rparr>)"
  using assms by (auto simp: disk_port_def drivers_ok_def)

definition after_io :: "vfs \<Rightarrow> vfs" where
  "after_io s = s\<lparr>blk2 := (BLK_AHCI_BASE \<le> fs_dev (gfs s) \<or> blk2 s), vios := Suc (vios s)\<rparr>"

lemma cache_step_after_io [simp]: "cache_step s (after_io s)"
  by (simp add: cache_step_def after_io_def)

lemma after_io_cache [simp]:
  "g_cache (after_io s) = g_cache s" "g_cache_block (after_io s) = g_cache_block s"
  "g_cache_dev (after_io s) = g_cache_dev s" "g_cache_full (after_io s) = g_cache_full s"
  by (simp_all add: after_io_def)

lemma disk_read_ok:
  assumes "drivers_ok s"
  shows "disk_read lba n (fs_dev (gfs s)) s =
      (Some (map (vdisk s (fs_dev (gfs s))) [lba * 512 ..< (lba + n) * 512]), after_io s)"
  using assms disk_port_ok [OF assms]
  by (simp add: disk_read_def next_io_def drivers_ok_def BLK_SECTOR_def after_io_def)

lemma disk_write_ok:
  assumes "drivers_ok s"
  shows "disk_write lba n (fs_dev (gfs s)) data s =
      (True, (after_io s)\<lparr>vdisk := apply_writes (sectors_of (fs_dev (gfs s)) lba n data) (vdisk s),
                          wlog := wlog s @ sectors_of (fs_dev (gfs s)) lba n data\<rparr>)"
  using assms disk_port_ok [OF assms]
  by (simp add: disk_write_def next_io_def drivers_ok_def after_io_def Let_def)

lemma cache_coherent_cong:
  assumes "cache_coherent B s" "vdisk s' = vdisk s" "g_cache s' = g_cache s"
    "g_cache_block s' = g_cache_block s" "g_cache_dev s' = g_cache_dev s"
    "g_cache_full s' = g_cache_full s" "g_cache_slots s' = g_cache_slots s"
    "g_cache_bytes s' = g_cache_bytes s"
  shows "cache_coherent B s'"
  using assms by (simp add: cache_coherent_def cache_slot_def)

text \<open>Without a held copy, a read answers with the block on the disk.\<close>

lemma read_block_disk:
  assumes "block_layer_ok B s" "txn_peek b s = None"
  obtains s' where "read_block b s = Some (Some (blk (vdisk s) (fs_dev (gfs s)) B b), s')"
    "cache_step s s'" "block_layer_ok B s'"
proof -
  have B: "bsize s = B" "0 < B" "512 dvd B" and drv: "drivers_ok s" and coh: "cache_coherent B s"
    using assms(1) by (auto simp: block_layer_ok_def)
  let ?d = "fs_dev (gfs s)"
  consider "cache_get b ?d s = Some (Some (blk (vdisk s) ?d B b))" | "cache_get b ?d s = Some None"
    using cache_get_coherent [OF coh B(1)] by blast
  then show ?thesis
  proof cases
    case 1
    then show ?thesis using that [of s] assms by (simp add: read_block_def)
  next
    case 2
    define t where "t = after_io s"
    have st: "cache_step s t" and keep: "g_cache t = g_cache s" "g_cache_block t = g_cache_block s"
        "g_cache_dev t = g_cache_dev s" "g_cache_full t = g_cache_full s"
      by (simp_all add: t_def)
    have offs: "b * (B div 512) * 512 = b * B" "(b * (B div 512) + B div 512) * 512 = b * B + B"
      using B(3) by (simp_all add: algebra_simps)
    have t': "disk_read (b * (B div 512)) (B div 512) ?d s = (Some (blk (vdisk s) ?d B b), t)"
      unfolding disk_read_ok [OF drv] blk_def offs t_def by (rule refl)
    have coh_t: "cache_coherent B t"
      by (rule cache_coherent_cong [OF coh]) (use st keep in \<open>simp_all add: cache_step_def\<close>)
    have same: "gfs t = gfs s" "vdisk t = vdisk s" using st by (simp_all add: cache_step_def)
    obtain u where u: "cache_put b ?d (blk (vdisk s) ?d B b) t = Some u" "cache_step t u"
      "cache_coherent B (u\<lparr>vdisk := vdisk t\<rparr>)"
      by (rule cache_put_coherent [OF coh_t, of "blk (vdisk s) ?d B b" "vdisk t" ?d b])
        (use B same in auto)
    have "u\<lparr>vdisk := vdisk t\<rparr> = u" using u(2) by (simp add: cache_step_def)
    with u(3) have cu: "cache_coherent B u" by simp
    have su: "cache_step s u" using st u(2) by (rule cache_step_trans)
    have "read_block b s = Some (Some (blk (vdisk s) ?d B b), u)"
      using assms(2) 2 t' u(1) B same by (simp add: read_block_def Let_def BLK_SECTOR_def)
    moreover have "block_layer_ok B u"
      using B cu su drivers_ok_cong [OF drv su] by (simp add: block_layer_ok_def cache_step_def)
    ultimately show ?thesis using that su by blast
  qed
qed

text \<open>
  A write straight through replaces that block on the disk of the current mount, records its
  sectors, and leaves the server's own variables alone.
\<close>

definition store_step :: "vfs \<Rightarrow> vfs \<Rightarrow> bool" where
  "store_step s s' \<longleftrightarrow> cache_step (s\<lparr>vdisk := vdisk s', wlog := wlog s'\<rparr>) s'"

lemma store_step_refl [simp]: "store_step s s"
  by (simp add: store_step_def)

lemma store_step_trans: "store_step s t \<Longrightarrow> store_step t u \<Longrightarrow> store_step s u"
  by (simp add: store_step_def cache_step_def)

lemma cache_store_step: "cache_step s t \<Longrightarrow> store_step s t"
  by (simp add: store_step_def cache_step_def)

lemma store_step_fields [frame_simps]:
  assumes "store_step s s'"
  shows "vio s' = vio s" "ahci_up s' = ahci_up s"
    "now_ms s' = now_ms s" "wall s' = wall s" "creds s' = creds s" "mem_usable s' = mem_usable s"
    "malloc_ok s' = malloc_ok s" "g_fs s' = g_fs s" "g_cur s' = g_cur s"
    "journal_inode s' = journal_inode s" "g_cache_bytes s' = g_cache_bytes s"
    "g_cache_slots s' = g_cache_slots s" "g_txn_open s' = g_txn_open s"
    "g_txn_bypass s' = g_txn_bypass s" "g_txn_started s' = g_txn_started s" "g_txn s' = g_txn s"
  using assms by (simp_all add: store_step_def cache_step_def)

lemma write_through_ok:
  assumes "block_layer_ok B s" "length data = B"
  obtains s' where "write_through b data s = Some (True, s')"
    "vdisk s' = set_blk (fs_dev (gfs s)) B b data (vdisk s)"
    "wlog s' = wlog s @ sectors_of (fs_dev (gfs s)) (b * (B div 512)) (B div 512) data"
    "store_step s s'" "block_layer_ok B s'"
proof -
  have B: "bsize s = B" "0 < B" "512 dvd B" and drv: "drivers_ok s" and coh: "cache_coherent B s"
    using assms(1) by (auto simp: block_layer_ok_def)
  let ?d = "fs_dev (gfs s)"
  let ?ds = "set_blk ?d B b data (vdisk s)"
  let ?ws = "sectors_of ?d (b * (B div 512)) (B div 512) data"
  obtain t where t: "cache_put b ?d data s = Some t" "cache_step s t"
    "cache_coherent B (t\<lparr>vdisk := ?ds\<rparr>)"
    by (rule cache_put_coherent [OF coh B(1,2) assms(2), of ?ds ?d b])
      (use B assms(2) in \<open>auto simp: blk_set_blk\<close>)
  have drv_t: "drivers_ok t" by (rule drivers_ok_cong [OF drv t(2)])
  have same: "gfs t = gfs s" "vdisk t = vdisk s" "wlog t = wlog s"
    using t(2) by (simp_all add: cache_step_def)
  define u where "u = (after_io t)\<lparr>vdisk := ?ds, wlog := wlog s @ ?ws\<rparr>"
  have "write_through b data s = Some (True, u)"
    using t(1) disk_write_ok [OF drv_t, of "b * (B div 512)" "B div 512" data] B
    by (simp add: write_through_def Let_def same BLK_SECTOR_def write_block_sectors u_def)
  moreover have "store_step s u"
    using t(2) cache_step_after_io [of t] by (simp add: store_step_def cache_step_def u_def)
  moreover have "cache_coherent B u"
    by (rule cache_coherent_cong [OF t(3)])
      (use cache_step_after_io [of t] in \<open>simp_all add: u_def cache_step_def\<close>)
  moreover have "drivers_ok u"
    using drivers_ok_cong [OF drv_t cache_step_after_io [of t]] by (simp add: drivers_ok_def u_def)
  ultimately show ?thesis
    using that [of u] B by (simp add: u_def block_layer_ok_def store_step_def cache_step_def)
qed

end
