(* ===== verification/Vfs_Extent.thy ===== *)
theory Vfs_Extent
  imports Vfs_Disk
begin

text \<open>
  \<^verbatim>\<open>map_block\<close> of \<^verbatim>\<open>user/vfsd.c\<close>: where the \<open>n\<close>-th block of a file lives. The C function copies each
  node of the extent tree into a local array of 8192 bytes of which only the bytes of the node are
  initialised. The entry count comes from the disk, so the scan may leave the node; such a read
  is \<open>None\<close> here. The depth guard of the C loop is the first argument of \<open>map_node\<close>.
\<close>

fun leaf_find :: "bytes \<Rightarrow> nat \<Rightarrow> nat list \<Rightarrow> nat option" where
  "leaf_find node fb [] = Some 0"
| "leaf_find node fb (e # es) =
     (let ent = 12 + e * 12 in
      if ent + 12 > length node then None
      else let first = rd32 node ent;
               len = rd16 node (ent + 4);
               len = (if len > 32768 then len - 32768 else len)
           in if first \<le> fb \<and> fb < u32 (first + len)
              then Some (rd16 node (ent + 6) * 4294967296 + rd32 node (ent + 8) + (fb - first))
              else leaf_find node fb es)"

fun index_find :: "bytes \<Rightarrow> nat \<Rightarrow> nat option \<Rightarrow> nat list \<Rightarrow> nat option option" where
  "index_find node fb child [] = Some child"
| "index_find node fb child (e # es) =
     (let ent = 12 + e * 12 in
      if ent + 12 > length node then None
      else if rd32 node ent \<le> fb
      then index_find node fb (Some (rd32 node (ent + 4) + rd16 node (ent + 8) * 4294967296)) es
      else Some child)"

fun map_node :: "nat \<Rightarrow> bytes \<Rightarrow> nat \<Rightarrow> vfs \<Rightarrow> (nat \<times> vfs) option" where
  "map_node 0 node fb s = Some (0, s)"
| "map_node (Suc guard) node fb s =
     (if rd16 node 0 \<noteq> 0xF30A then Some (0, s)
      else let entries = rd16 node 2; depth = rd16 node 6 in
        if depth = 0 then do { r \<leftarrow> leaf_find node fb [0 ..< entries]; Some (r, s) }
        else do {
          found \<leftarrow> index_find node fb None [0 ..< entries];
          (case found of
             None \<Rightarrow> Some (0, s)
           | Some child \<Rightarrow> do {
               (got, s) \<leftarrow> read_block child s;
               (case got of None \<Rightarrow> Some (0, s) | Some node' \<Rightarrow> map_node guard node' fb s) })
        })"

definition map_block :: "inode \<Rightarrow> nat \<Rightarrow> vfs \<Rightarrow> (nat \<times> vfs) option" where
  "map_block ino fb s = map_node 8 (i_block ino) fb s"

section \<open>Inline extent roots\<close>

text \<open>
  An inode whose extents all fit in the root (depth 0, at most four entries) is mapped without
  touching the disk.
\<close>

definition inline_root :: "inode \<Rightarrow> bool" where
  "inline_root ino \<longleftrightarrow> length (i_block ino) = 60 \<and> rd16 (i_block ino) 0 = 0xF30A
     \<and> rd16 (i_block ino) 2 \<le> 4 \<and> rd16 (i_block ino) 6 = 0"

definition inline_map :: "inode \<Rightarrow> nat \<Rightarrow> nat" where
  "inline_map ino fb = the (leaf_find (i_block ino) fb [0 ..< rd16 (i_block ino) 2])"

lemma leaf_find_defined:
  "\<forall>e \<in> set es. 12 + e * 12 + 12 \<le> length node \<Longrightarrow> \<exists>r. leaf_find node fb es = Some r"
  by (induction es) (auto simp: Let_def)

lemma index_find_defined:
  "\<forall>e \<in> set es. 12 + e * 12 + 12 \<le> length node \<Longrightarrow> \<exists>r. index_find node fb c es = Some r"
  by (induction es arbitrary: c) (auto simp: Let_def)

lemma map_block_inline:
  assumes "inline_root ino"
  shows "map_block ino fb s = Some (inline_map ino fb, s)"
proof -
  have "\<exists>r. leaf_find (i_block ino) fb [0 ..< rd16 (i_block ino) 2] = Some r"
    by (rule leaf_find_defined) (use assms in \<open>auto simp: inline_root_def\<close>)
  then show ?thesis using assms map_node.simps(2) [of 7 "i_block ino" fb s]
    by (auto simp: map_block_def inline_map_def inline_root_def Let_def)
qed

end
