(* ===== verification/Vfs_Journal.thy ===== *)
theory Vfs_Journal
  imports Vfs_Extent
begin

text \<open>
  The write path of \<^verbatim>\<open>user/vfsd.c\<close>: the open transaction (\<^verbatim>\<open>write_block\<close>, \<^verbatim>\<open>txn_begin\<close>, \<^verbatim>\<open>txn_end\<close>,
  \<^verbatim>\<open>txn_flush\<close>) and recovery (\<^verbatim>\<open>jrnl_walk\<close>, \<^verbatim>\<open>journal_replay\<close>).

  \<^verbatim>\<open>write_block\<close> and \<^verbatim>\<open>txn_flush\<close> call each other in C, but every call from \<^verbatim>\<open>txn_flush\<close> happens with
  \<^verbatim>\<open>g_txn_bypass\<close> set and so goes straight through; those calls are \<open>bypass_write\<close> here, and lemma
  \<open>write_block_bypass\<close> shows that this is what \<^verbatim>\<open>write_block\<close> does under that flag. The two loops of
  recovery follow pointers that come from the disk and are \<^theory_text>\<open>partial_function\<close>s: a loop that
  never ends is \<open>None\<close>.
\<close>

definition JBD2_MAGIC :: nat where "JBD2_MAGIC = 0xC03B3998"
definition JBD2_DESCRIPTOR :: nat where "JBD2_DESCRIPTOR = 1"
definition JBD2_COMMIT :: nat where "JBD2_COMMIT = 2"
definition JBD2_REVOKE :: nat where "JBD2_REVOKE = 5"
definition JBD2_FLAG_ESCAPE :: nat where "JBD2_FLAG_ESCAPE = 1"
definition JBD2_FLAG_SAME_UUID :: nat where "JBD2_FLAG_SAME_UUID = 2"
definition JBD2_FLAG_LAST_TAG :: nat where "JBD2_FLAG_LAST_TAG = 8"

lemmas jbd2_defs = JBD2_MAGIC_def JBD2_DESCRIPTOR_def JBD2_COMMIT_def JBD2_REVOKE_def
  JBD2_FLAG_ESCAPE_def JBD2_FLAG_SAME_UUID_def JBD2_FLAG_LAST_TAG_def

definition TXN_MAX_AGE_MS :: nat where "TXN_MAX_AGE_MS = 1000"
definition TXN_HEADROOM :: nat where "TXN_HEADROOM = 10"

section \<open>Blocks of the journal file\<close>

definition bypass_read :: "nat \<Rightarrow> vfs \<Rightarrow> (bytes option \<times> vfs) option" where
  "bypass_read block s = do {
     (got, s) \<leftarrow> read_block block (s\<lparr>g_txn_bypass := True\<rparr>);
     Some (got, s\<lparr>g_txn_bypass := False\<rparr>) }"

definition bypass_write :: "nat \<Rightarrow> bytes \<Rightarrow> vfs \<Rightarrow> (bool \<times> vfs) option" where
  "bypass_write block data s = do {
     (ok, s) \<leftarrow> write_through block data (s\<lparr>g_txn_bypass := True\<rparr>);
     Some (ok, s\<lparr>g_txn_bypass := False\<rparr>) }"

definition jrnl_read :: "nat \<Rightarrow> vfs \<Rightarrow> (bytes option \<times> vfs) option" where
  "jrnl_read index s = do {
     (phys, s) \<leftarrow> map_block (journal_inode s (g_cur s)) index s;
     if phys = 0 then Some (None, s) else bypass_read phys s }"

definition jrnl_write :: "nat \<Rightarrow> bytes \<Rightarrow> vfs \<Rightarrow> (bool \<times> vfs) option" where
  "jrnl_write index data s = do {
     (phys, s) \<leftarrow> map_block (journal_inode s (g_cur s)) index s;
     if phys = 0 then Some (False, s) else bypass_write phys data s }"

definition jrnl_next :: "nat \<Rightarrow> vfs \<Rightarrow> nat" where
  "jrnl_next at s =
     (let at = u32 (at + 1) in if at \<ge> jrnl_maxlen (gfs s) then jrnl_first (gfs s) else at)"

text \<open>
  Reads the journal superblock, stores a sequence number and a start block in it and writes it
  back. \<open>None\<close> inside the result: it could not be read or is not a journal superblock.
\<close>

definition jrnl_super :: "nat \<Rightarrow> nat \<Rightarrow> vfs \<Rightarrow> (bool option \<times> vfs) option" where
  "jrnl_super seq start s = do {
     (got, s) \<leftarrow> jrnl_read 0 s;
     (case got of
        None \<Rightarrow> Some (None, s)
      | Some b \<Rightarrow>
          if rd32be b 0 \<noteq> JBD2_MAGIC then Some (None, s)
          else do {
            (ok, s) \<leftarrow> jrnl_write 0 (wr32be (wr32be b 24 seq) 28 start) s;
            Some (Some ok, s) }) }"

section \<open>Committing a transaction\<close>

fun write_home :: "(nat \<times> bytes) list \<Rightarrow> vfs \<Rightarrow> (bool \<times> vfs) option" where
  "write_home [] s = Some (True, s)"
| "write_home ((target, data) # es) s = do {
     (ok, s) \<leftarrow> bypass_write target data s;
     if ok then write_home es s else Some (False, s) }"

definition tag_flags :: "bytes \<Rightarrow> bool \<Rightarrow> nat" where
  "tag_flags data is_last =
     JBD2_FLAG_SAME_UUID + (if rd32be data 0 = JBD2_MAGIC then JBD2_FLAG_ESCAPE else 0)
     + (if is_last then JBD2_FLAG_LAST_TAG else 0)"

fun put_tags :: "bytes \<Rightarrow> nat \<Rightarrow> (nat \<times> bytes) list \<Rightarrow> bytes" where
  "put_tags d off [] = d"
| "put_tags d off ((target, data) # es) =
     put_tags (wr32be (wr32be d off (u32 target)) (off + 4) (tag_flags data (es = []))) (off + 8) es"

definition jrnl_header :: "nat \<Rightarrow> nat \<Rightarrow> nat \<Rightarrow> bytes" where
  "jrnl_header B kind seq =
     wr32be (wr32be (wr32be (replicate B 0) 0 JBD2_MAGIC) 4 kind) 8 seq"

definition escape_block :: "bytes \<Rightarrow> bytes" where
  "escape_block data = (if rd32be data 0 = JBD2_MAGIC then wr32be data 0 0 else data)"

fun write_jdata :: "nat \<Rightarrow> (nat \<times> bytes) list \<Rightarrow> vfs \<Rightarrow> (bool \<times> vfs) option" where
  "write_jdata index [] s = Some (True, s)"
| "write_jdata index ((target, data) # es) s = do {
     (ok, s) \<leftarrow> jrnl_write (u32 index) (escape_block data) s;
     if ok then write_jdata (index + 1) es s else Some (False, s) }"

definition txn_flush :: "vfs \<Rightarrow> (bool \<times> vfs) option" where
  "txn_flush s =
     (if g_txn s = [] then Some (True, s)
      else if \<not> has_journal (gfs s) then do {
        (ok, s) \<leftarrow> write_home (g_txn s) s;
        if ok then Some (True, s\<lparr>g_txn := []\<rparr>) else Some (False, s) }
      else if length (g_txn s) + 2 > sub32 (jrnl_maxlen (gfs s)) (jrnl_first (gfs s))
      then Some (False, s)
      else
        let seq = jrnl_seq (gfs s); first = jrnl_first (gfs s); n = length (g_txn s); es = g_txn s in
        do {
          (ok, s) \<leftarrow> jrnl_write first (put_tags (jrnl_header (bsize s) JBD2_DESCRIPTOR seq) 12 es) s;
          if \<not> ok then Some (False, s) else do {
          (ok, s) \<leftarrow> write_jdata (first + 1) es s;
          if \<not> ok then Some (False, s) else do {
          (ok, s) \<leftarrow> jrnl_write (u32 (first + 1 + n)) (jrnl_header (bsize s) JBD2_COMMIT seq) s;
          if \<not> ok then Some (False, s) else do {
          (sup, s) \<leftarrow> jrnl_super seq first s;
          if sup \<noteq> Some True then Some (False, s) else do {
          (ok, s) \<leftarrow> write_home es s;
          if \<not> ok then Some (False, s) else
          let s = upd_fs (\<lambda>f. f\<lparr>jrnl_seq := u32 (seq + 1)\<rparr>) s in do {
          (_, s) \<leftarrow> jrnl_super (u32 (seq + 1)) 0 s;
          Some (True, s\<lparr>g_txn := []\<rparr>) }}}}}})"

fun txn_replace :: "nat \<Rightarrow> bytes \<Rightarrow> (nat \<times> bytes) list \<Rightarrow> (nat \<times> bytes) list" where
  "txn_replace block data [] = []"
| "txn_replace block data (e # es) =
     (if fst e = block then (block, data) # es else e # txn_replace block data es)"

definition write_block :: "nat \<Rightarrow> bytes \<Rightarrow> vfs \<Rightarrow> (bool \<times> vfs) option" where
  "write_block block data s =
     (if g_txn_open s \<and> \<not> g_txn_bypass s then
        (if block \<in> fst ` set (g_txn s) then Some (True, s\<lparr>g_txn := txn_replace block data (g_txn s)\<rparr>)
         else if length (g_txn s) = TXN_MAX then do {
           (ok, s) \<leftarrow> txn_flush s;
           if ok then Some (True, s\<lparr>g_txn := g_txn s @ [(block, data)]\<rparr>) else Some (False, s) }
         else Some (True, s\<lparr>g_txn := g_txn s @ [(block, data)]\<rparr>))
      else write_through block data s)"

lemma write_block_bypass: "g_txn_bypass s \<Longrightarrow> write_block block data s = write_through block data s"
  by (simp add: write_block_def)

definition txn_begin :: "vfs \<Rightarrow> vfs" where
  "txn_begin s =
     (if g_txn_open s then s else s\<lparr>g_txn := [], g_txn_started := now_ms s, g_txn_open := True\<rparr>)"

definition txn_end :: "bool \<Rightarrow> vfs \<Rightarrow> (bool \<times> vfs) option" where
  "txn_end force s =
     (if \<not> g_txn_open s then Some (True, s)
      else let full = (length (g_txn s) + TXN_HEADROOM > TXN_MAX);
               old = (sub64 (now_ms s) (g_txn_started s) \<ge> TXN_MAX_AGE_MS)
           in if \<not> force \<and> \<not> full \<and> \<not> old then Some (True, s)
              else do {
                (r, s) \<leftarrow> txn_flush s;
                Some (r, s\<lparr>g_txn_open := False\<rparr>) })"

section \<open>Recovery\<close>

definition tag_width :: "nat \<Rightarrow> bool \<Rightarrow> nat" where
  "tag_width flags sixty_four =
     (if sixty_four then 12 else 8) + (if flags AND JBD2_FLAG_SAME_UUID = 0 then 16 else 0)"

definition apply_tag :: "nat \<Rightarrow> nat \<Rightarrow> nat \<Rightarrow> vfs \<Rightarrow> (bool \<times> vfs) option" where
  "apply_tag target flags pos s = do {
     (got, s) \<leftarrow> jrnl_read pos s;
     (case got of
        None \<Rightarrow> Some (False, s)
      | Some data \<Rightarrow>
          let data = (if flags AND JBD2_FLAG_ESCAPE \<noteq> 0 then wr32be data 0 JBD2_MAGIC else data)
          in if target \<noteq> 0 then write_block target data s else Some (True, s)) }"

partial_function (option) jrnl_tags ::
    "bytes \<Rightarrow> bool \<Rightarrow> bool \<Rightarrow> nat \<Rightarrow> nat \<Rightarrow> vfs \<Rightarrow> (nat \<times> vfs) option" where
  "jrnl_tags desc app sixty_four off pos s =
     (if off + 8 > bsize s then Some (0, s)
      else let target = rd32be desc off; flags = rd32be desc (off + 4);
               off = off + tag_width flags sixty_four
           in if off > bsize s then Some (0, s)
              else do {
                (ok, s) \<leftarrow> (if app then apply_tag target flags pos s else Some (True, s));
                if \<not> ok then Some (0, s)
                else let pos = jrnl_next pos s in
                  if flags AND JBD2_FLAG_LAST_TAG \<noteq> 0 then Some (pos, s)
                  else jrnl_tags desc app sixty_four off pos s })"

definition jrnl_walk :: "bytes \<Rightarrow> nat \<Rightarrow> bool \<Rightarrow> bool \<Rightarrow> vfs \<Rightarrow> (nat \<times> vfs) option" where
  "jrnl_walk desc at app sixty_four s = jrnl_tags desc app sixty_four 12 (jrnl_next at s) s"

text \<open>Pass one: how many transactions committed, and the sequence number after the last of them.\<close>

partial_function (option) replay_scan ::
    "nat \<Rightarrow> nat \<Rightarrow> nat \<Rightarrow> vfs \<Rightarrow> ((nat \<times> nat) \<times> vfs) option" where
  "replay_scan at seq committed s = do {
     (got, s) \<leftarrow> jrnl_read at s;
     (case got of
        None \<Rightarrow> Some ((seq, committed), s)
      | Some b \<Rightarrow>
          if rd32be b 0 \<noteq> JBD2_MAGIC \<or> rd32be b 8 \<noteq> seq then Some ((seq, committed), s)
          else if rd32be b 4 = JBD2_COMMIT
          then replay_scan (jrnl_next at s) (u32 (seq + 1)) (committed + 1) s
          else if rd32be b 4 = JBD2_DESCRIPTOR then do {
            (past, s) \<leftarrow> jrnl_walk b at False False s;
            if past = 0 then Some ((seq, committed), s) else replay_scan past seq committed s }
          else if rd32be b 4 = JBD2_REVOKE then replay_scan (jrnl_next at s) seq committed s
          else Some ((seq, committed), s)) }"

text \<open>Pass two: write out exactly that many.\<close>

partial_function (option) replay_apply ::
    "nat \<Rightarrow> nat \<Rightarrow> nat \<Rightarrow> nat \<Rightarrow> vfs \<Rightarrow> ((nat \<times> nat) \<times> vfs) option" where
  "replay_apply committed at seq applied s =
     (if applied \<ge> committed then Some ((seq, applied), s)
      else do {
        (got, s) \<leftarrow> jrnl_read at s;
        (case got of
           None \<Rightarrow> Some ((seq, applied), s)
         | Some b \<Rightarrow>
             if rd32be b 0 \<noteq> JBD2_MAGIC then Some ((seq, applied), s)
             else if rd32be b 4 = JBD2_COMMIT
             then replay_apply committed (jrnl_next at s) (u32 (seq + 1)) (applied + 1) s
             else if rd32be b 4 = JBD2_DESCRIPTOR then do {
               (past, s) \<leftarrow> jrnl_walk b at True False s;
               if past = 0 then Some ((seq, applied), s) else replay_apply committed past seq applied s }
             else replay_apply committed (jrnl_next at s) seq applied s) })"

declare jrnl_tags.simps [code] replay_scan.simps [code] replay_apply.simps [code]

definition journal_replay :: "vfs \<Rightarrow> (bool \<times> vfs) option" where
  "journal_replay s =
     (if \<not> has_journal (gfs s) \<or> jrnl_start (gfs s) = 0 then Some (True, s)
      else do {
        ((seq, committed), s) \<leftarrow> replay_scan (jrnl_start (gfs s)) (jrnl_seq (gfs s)) 0 s;
        ((seq, applied), s) \<leftarrow>
          (if committed = 0 then Some ((seq, 0), s)
           else replay_apply committed (jrnl_start (gfs s)) (jrnl_seq (gfs s)) 0 s);
        (sup, s) \<leftarrow> jrnl_super seq 0 s;
        if sup = Some False then Some (False, s)
        else Some (True, upd_fs (\<lambda>f. f\<lparr>jrnl_start := 0\<rparr>) s) })"

end
