(* ===== verification/Vfs_Journal_Laws.thy ===== *)
theory Vfs_Journal_Laws
  imports Vfs_Journal
begin

text \<open>
  How the journal file's blocks behave under the operations of \<^verbatim>\<open>Vfs_Journal\<close>, on a mount whose
  journal inode keeps its extents in the inode itself. The facts about one block are collected
  here; \<^verbatim>\<open>Vfs_Crash\<close> puts them together.
\<close>

section \<open>A usable journal\<close>

abbreviation jino :: "vfs \<Rightarrow> inode" where
  "jino s \<equiv> journal_inode s (g_cur s)"

abbreviation jpos :: "vfs \<Rightarrow> nat \<Rightarrow> nat" where
  "jpos s i \<equiv> inline_map (jino s) i"

abbreviation gdev :: "vfs \<Rightarrow> nat" where
  "gdev s \<equiv> fs_dev (gfs s)"

abbreviation jblk :: "vfs \<Rightarrow> disks \<Rightarrow> nat \<Rightarrow> bytes" where
  "jblk s ds i \<equiv> blk ds (gdev s) (bsize s) (jpos s i)"

text \<open>
  The journal has a mapped, distinct block for every index, its ring starts after the journal
  superblock, and blocks have room for a descriptor with \<^verbatim>\<open>TXN_MAX\<close> tags.
\<close>

definition journal_geometry :: "vfs \<Rightarrow> bool" where
  "journal_geometry s \<longleftrightarrow>
     has_journal (gfs s) \<and> inline_root (jino s)
     \<and> (\<forall>i < jrnl_maxlen (gfs s). jpos s i \<noteq> 0)
     \<and> inj_on (inline_map (jino s)) {..< jrnl_maxlen (gfs s)}
     \<and> 0 < jrnl_first (gfs s) \<and> jrnl_first (gfs s) < jrnl_maxlen (gfs s)
     \<and> jrnl_maxlen (gfs s) < 4294967296 \<and> 1024 \<le> bsize s"

definition journal_ok :: "nat \<Rightarrow> vfs \<Rightarrow> bool" where
  "journal_ok B s \<longleftrightarrow> block_layer_ok B s \<and> journal_geometry s \<and> \<not> g_txn_bypass s"

lemma block_layer_ok_bypass [simp]:
  "block_layer_ok B (s\<lparr>g_txn_bypass := x\<rparr>) = block_layer_ok B s"
  by (simp add: block_layer_ok_def drivers_ok_def cache_coherent_def cache_slot_def)

lemma block_layer_ok_txn [simp]:
  "block_layer_ok B (s\<lparr>g_txn := x\<rparr>) = block_layer_ok B s"
  by (simp add: block_layer_ok_def drivers_ok_def cache_coherent_def cache_slot_def)

lemma journal_okD:
  assumes "journal_ok B s"
  shows "block_layer_ok B s" "bsize s = B" "1024 \<le> B" "0 < B" "512 dvd B"
    "\<not> g_txn_bypass s" "has_journal (gfs s)" "inline_root (jino s)"
    "\<And>i. i < jrnl_maxlen (gfs s) \<Longrightarrow> jpos s i \<noteq> 0"
    "inj_on (inline_map (jino s)) {..< jrnl_maxlen (gfs s)}"
    "0 < jrnl_first (gfs s)" "jrnl_first (gfs s) < jrnl_maxlen (gfs s)"
    "jrnl_maxlen (gfs s) < 4294967296"
  using assms by (auto simp: journal_ok_def journal_geometry_def block_layer_ok_def)

lemma journal_ok_store:
  "journal_ok B s \<Longrightarrow> store_step s s' \<Longrightarrow> block_layer_ok B s' \<Longrightarrow> journal_ok B s'"
  by (simp add: journal_ok_def journal_geometry_def frame_simps)

lemma jpos_eq_iff:
  assumes "journal_ok B s" "i < jrnl_maxlen (gfs s)" "j < jrnl_maxlen (gfs s)"
  shows "jpos s i = jpos s j \<longleftrightarrow> i = j"
  using journal_okD(10) [OF assms(1)] assms(2,3) by (auto dest: inj_onD)

section \<open>One block at a time\<close>

lemma jrnl_read_ok:
  assumes "journal_ok B s" "i < jrnl_maxlen (gfs s)"
  obtains s' where "jrnl_read i s = Some (Some (jblk s (vdisk s) i), s')" "cache_step s s'" "journal_ok B s'"
proof -
  note ok = journal_okD [OF assms(1)]
  let ?s = "s\<lparr>g_txn_bypass := True\<rparr>"
  obtain t where t: "read_block (jpos s i) ?s = Some (Some (blk (vdisk ?s) (gdev ?s) B (jpos s i)), t)"
    "cache_step ?s t" "block_layer_ok B t"
    by (rule read_block_disk [of B ?s "jpos s i"]) (use ok(1) in \<open>simp_all add: txn_peek_def\<close>)
  have st: "cache_step s (t\<lparr>g_txn_bypass := False\<rparr>)"
    using t(2) ok(6) by (simp add: cache_step_def)
  show ?thesis
  proof (rule that)
    show "jrnl_read i s = Some (Some (jblk s (vdisk s) i), t\<lparr>g_txn_bypass := False\<rparr>)"
      using t(1) ok(2) ok(9) [OF assms(2)]
      by (simp add: jrnl_read_def map_block_inline [OF ok(8)] bypass_read_def)
    show "journal_ok B (t\<lparr>g_txn_bypass := False\<rparr>)"
      by (rule journal_ok_store [OF assms(1) cache_store_step [OF st]]) (simp add: t(3))
  qed (rule st)
qed

lemma bypass_write_ok:
  assumes "journal_ok B s" "length data = B"
  obtains s' where "bypass_write b data s = Some (True, s')"
    "vdisk s' = set_blk (gdev s) B b data (vdisk s)"
    "wlog s' = wlog s @ sectors_of (gdev s) (b * (B div 512)) (B div 512) data"
    "store_step s s'" "journal_ok B s'"
proof -
  note ok = journal_okD [OF assms(1)]
  let ?s = "s\<lparr>g_txn_bypass := True\<rparr>"
  obtain t where t: "write_through b data ?s = Some (True, t)"
    "vdisk t = set_blk (gdev ?s) B b data (vdisk ?s)"
    "wlog t = wlog ?s @ sectors_of (gdev ?s) (b * (B div 512)) (B div 512) data"
    "store_step ?s t" "block_layer_ok B t"
    by (rule write_through_ok [of B ?s data b]) (use ok(1) assms(2) in simp_all)
  have st: "store_step s (t\<lparr>g_txn_bypass := False\<rparr>)"
    using t(4) ok(6) by (simp add: store_step_def cache_step_def)
  have "journal_ok B (t\<lparr>g_txn_bypass := False\<rparr>)"
    by (rule journal_ok_store [OF assms(1) st]) (simp add: t(5))
  then show ?thesis using that [of "t\<lparr>g_txn_bypass := False\<rparr>"] t st by (simp add: bypass_write_def)
qed

lemma jrnl_write_bypass:
  assumes "journal_ok B s" "i < jrnl_maxlen (gfs s)"
  shows "jrnl_write i data s = bypass_write (jpos s i) data s"
  using journal_okD(9) [OF assms] map_block_inline [OF journal_okD(8) [OF assms(1)]]
  by (simp add: jrnl_write_def)

text \<open>A list of block writes, and the sectors it sends to the disk.\<close>

definition block_sectors :: "nat \<Rightarrow> nat \<Rightarrow> nat \<times> bytes \<Rightarrow> sector_write list" where
  "block_sectors d B w = sectors_of d (fst w * (B div 512)) (B div 512) (snd w)"

definition set_blks :: "nat \<Rightarrow> nat \<Rightarrow> (nat \<times> bytes) list \<Rightarrow> disks \<Rightarrow> disks" where
  "set_blks d B ws ds = fold (\<lambda>w. set_blk d B (fst w) (snd w)) ws ds"

text \<open>\<open>wrote B s ws s'\<close>: getting from \<open>s\<close> to \<open>s'\<close> wrote exactly the blocks \<open>ws\<close>, in that order.\<close>

definition wrote :: "nat \<Rightarrow> vfs \<Rightarrow> (nat \<times> bytes) list \<Rightarrow> vfs \<Rightarrow> bool" where
  "wrote B s ws s' \<longleftrightarrow>
     vdisk s' = set_blks (gdev s) B ws (vdisk s)
     \<and> wlog s' = wlog s @ concat (map (block_sectors (gdev s) B) ws)
     \<and> store_step s s' \<and> journal_ok B s'"

lemma set_blks_Nil [simp]: "set_blks d B [] ds = ds"
  by (simp add: set_blks_def)

lemma set_blks_Cons [simp]: "set_blks d B (w # ws) ds = set_blks d B ws (set_blk d B (fst w) (snd w) ds)"
  by (simp add: set_blks_def)

lemma set_blks_append [simp]: "set_blks d B (xs @ ys) ds = set_blks d B ys (set_blks d B xs ds)"
  by (simp add: set_blks_def)

lemma wrote_trans: "wrote B s xs t \<Longrightarrow> wrote B t ys u \<Longrightarrow> wrote B s (xs @ ys) u"
  by (auto simp: wrote_def frame_simps intro: store_step_trans)

lemma wrote_cache: "cache_step s t \<Longrightarrow> journal_ok B t \<Longrightarrow> wrote B s [] t"
  by (simp add: wrote_def frame_simps cache_store_step)

lemma wrote_fields [frame_simps]:
  assumes "wrote B s ws t"
  shows "g_fs t = g_fs s" "g_cur t = g_cur s" "journal_inode t = journal_inode s" "g_txn t = g_txn s"
    "g_txn_open t = g_txn_open s" "g_txn_started t = g_txn_started s"
    "vdisk t = set_blks (gdev s) B ws (vdisk s)"
    "wlog t = wlog s @ concat (map (block_sectors (gdev s) B) ws)"
  using assms by (simp_all add: wrote_def frame_simps)

lemma wrote_ok: "wrote B s ws t \<Longrightarrow> journal_ok B t"
  by (simp add: wrote_def)

lemma bypass_write_wrote:
  assumes "journal_ok B s" "length data = B"
  obtains s' where "bypass_write b data s = Some (True, s')" "wrote B s [(b, data)] s'"
  using bypass_write_ok [OF assms, of b] by (auto simp: wrote_def block_sectors_def)

lemma jrnl_write_wrote:
  assumes "journal_ok B s" "i < jrnl_maxlen (gfs s)" "length data = B"
  obtains s' where "jrnl_write i data s = Some (True, s')" "wrote B s [(jpos s i, data)] s'"
  using bypass_write_wrote [OF assms(1,3), of "jpos s i"] jrnl_write_bypass [OF assms(1,2)] by metis

lemma write_home_wrote:
  assumes "journal_ok B s" "\<forall>e \<in> set es. length (snd e) = B"
  shows "\<exists>s'. write_home es s = Some (True, s') \<and> wrote B s es s'"
  using assms
proof (induction es arbitrary: s)
  case Nil
  then show ?case by (auto intro: wrote_cache)
next
  case (Cons e es)
  obtain t where t: "bypass_write (fst e) (snd e) s = Some (True, t)" "wrote B s [e] t"
    by (rule bypass_write_wrote [OF Cons.prems(1), of "snd e" "fst e"]) (use Cons.prems(2) in auto)
  obtain u where "write_home es t = Some (True, u)" "wrote B t es u"
    using Cons.IH [OF wrote_ok [OF t(2)]] Cons.prems(2) by auto
  then show ?case using t wrote_trans [of B s "[e]" t es u] by (cases e) simp
qed

lemma length_escape_block [simp]: "length (escape_block data) = length data"
  by (simp add: escape_block_def)

lemma write_jdata_wrote:
  assumes "journal_ok B s" "\<forall>e \<in> set es. length (snd e) = B" "i + length es \<le> jrnl_maxlen (gfs s)"
  shows "\<exists>s'. write_jdata i es s = Some (True, s')
           \<and> wrote B s (map2 (\<lambda>k e. (jpos s k, escape_block (snd e))) [i ..< i + length es] es) s'"
  using assms
proof (induction es arbitrary: i s)
  case Nil
  then show ?case by (auto intro: wrote_cache)
next
  case (Cons e es)
  have i: "i < jrnl_maxlen (gfs s)" "u32 i = i"
    using Cons.prems(3) journal_okD(13) [OF Cons.prems(1)] by simp_all
  obtain t where t: "jrnl_write i (escape_block (snd e)) s = Some (True, t)"
    "wrote B s [(jpos s i, escape_block (snd e))] t"
    by (rule jrnl_write_wrote [OF Cons.prems(1) i(1), of "escape_block (snd e)"]) (use Cons.prems(2) in auto)
  have room: "i + 1 + length es \<le> jrnl_maxlen (gfs t)"
    using Cons.prems(3) by (simp add: wrote_fields [OF t(2)])
  obtain u where u: "write_jdata (i + 1) es t = Some (True, u)"
    "wrote B t (map2 (\<lambda>k e. (jpos t k, escape_block (snd e))) [i + 1 ..< i + 1 + length es] es) u"
    using Cons.IH [OF wrote_ok [OF t(2)] _ room] Cons.prems(2) by auto
  have "[i ..< i + length (e # es)] = i # [i + 1 ..< i + 1 + length es]"
    using upt_conv_Cons [of i "i + length (e # es)"] by (simp del: upt_Suc)
  then show ?case using t(1) u(1) i(2) wrote_trans [OF t(2) u(2)]
    by (cases e) (simp add: wrote_fields [OF t(2)] del: upt_Suc)
qed

section \<open>What a list of block writes leaves on the disk\<close>

lemma blk_set_blks_other:
  "0 < B \<Longrightarrow> d' \<noteq> d \<or> b \<notin> fst ` set ws \<Longrightarrow> blk (set_blks d B ws ds) d' B b = blk ds d' B b"
  by (induction ws arbitrary: ds) (auto simp: blk_set_blk_other)

lemma blk_set_blks:
  assumes "0 < B" "\<forall>w \<in> set ws. length (snd w) = B"
  shows "blk (set_blks d B ws ds) d B b =
    (case map_of (rev ws) b of Some data \<Rightarrow> data | None \<Rightarrow> blk ds d B b)"
  using assms(2)
  by (induction ws arbitrary: ds) (auto simp: blk_set_blk [OF assms(1)] map_add_def split: option.splits)

lemma map_of_rev_distinct: "distinct (map fst ws) \<Longrightarrow> map_of (rev ws) = map_of ws"
  by (rule map_of_inject_set [THEN iffD2]) (simp_all add: rev_map [symmetric])

section \<open>The journal superblock\<close>

definition super_with :: "bytes \<Rightarrow> nat \<Rightarrow> nat \<Rightarrow> bytes" where
  "super_with b seq start = wr32be (wr32be b 24 seq) 28 start"

lemma length_super_with [simp]: "length (super_with b seq start) = length b"
  by (simp add: super_with_def)

lemma super_with_fields:
  assumes "32 \<le> length b"
  shows "rd32be (super_with b seq start) 24 = u32 seq" "rd32be (super_with b seq start) 28 = u32 start"
    "at + 4 \<le> 24 \<Longrightarrow> rd32be (super_with b seq start) at = rd32be b at"
  using assms by (simp_all add: super_with_def buf_simps)

lemma jrnl_super_wrote:
  assumes "journal_ok B s" "rd32be (jblk s (vdisk s) 0) 0 = JBD2_MAGIC"
  obtains s' where "jrnl_super seq start s = Some (Some True, s')"
    "wrote B s [(jpos s 0, super_with (jblk s (vdisk s) 0) seq start)] s'"
proof -
  note ok = journal_okD [OF assms(1)]
  have 0: "0 < jrnl_maxlen (gfs s)" using ok(11,12) by linarith
  obtain t where t: "jrnl_read 0 s = Some (Some (jblk s (vdisk s) 0), t)" "cache_step s t" "journal_ok B t"
    by (rule jrnl_read_ok [OF assms(1) 0])
  have w: "wrote B s [] t" by (rule wrote_cache [OF t(2,3)])
  obtain u where u: "jrnl_write 0 (super_with (jblk s (vdisk s) 0) seq start) t = Some (True, u)"
    "wrote B t [(jpos t 0, super_with (jblk s (vdisk s) 0) seq start)] u"
    by (rule jrnl_write_wrote [OF t(3), of 0 "super_with (jblk s (vdisk s) 0) seq start"])
      (use 0 ok(2) in \<open>auto simp: wrote_fields [OF w]\<close>)
  show ?thesis
    using that [of u] t(1) u(1) assms(2) wrote_trans [OF w u(2)]
    by (simp add: jrnl_super_def super_with_def wrote_fields [OF w])
qed

section \<open>Headers and tags\<close>

lemma length_put_tags [simp]: "length (put_tags d off es) = length d"
  by (induction d off es rule: put_tags.induct) simp_all

lemma length_jrnl_header [simp]: "length (jrnl_header B kind seq) = B"
  by (simp add: jrnl_header_def)

lemma rd32be_put_tags_before:
  "at + 4 \<le> off \<Longrightarrow> rd32be (put_tags d off es) at = rd32be d at"
  by (induction d off es rule: put_tags.induct) (simp_all add: buf_simps)

lemma jrnl_header_fields:
  assumes "12 \<le> B"
  shows "rd32be (jrnl_header B kind seq) 0 = JBD2_MAGIC"
    "rd32be (jrnl_header B kind seq) 4 = u32 kind" "rd32be (jrnl_header B kind seq) 8 = u32 seq"
  using assms by (simp_all add: jrnl_header_def buf_simps JBD2_MAGIC_def)

lemma tag_flags_cases:
  "tag_flags data is_last =
     (if rd32be data 0 = JBD2_MAGIC then (if is_last then 11 else 3) else (if is_last then 10 else 2))"
  by (simp add: tag_flags_def jbd2_defs)

lemma tag_flags_less [simp]: "tag_flags data is_last < 4294967296"
  by (simp add: tag_flags_def jbd2_defs)

lemma tag_flags_bits:
  "tag_flags data is_last AND JBD2_FLAG_SAME_UUID \<noteq> 0"
  "(tag_flags data is_last AND JBD2_FLAG_ESCAPE \<noteq> 0) = (rd32be data 0 = JBD2_MAGIC)"
  "(tag_flags data is_last AND JBD2_FLAG_LAST_TAG \<noteq> 0) = is_last"
  by (simp_all add: tag_flags_cases JBD2_FLAG_SAME_UUID_def JBD2_FLAG_ESCAPE_def JBD2_FLAG_LAST_TAG_def)

lemmas tag_flags_bits_pos [simp] = tag_flags_bits [unfolded neq0_conv]

lemma tag_width_tag_flags [simp]: "tag_width (tag_flags data is_last) False = 8"
  using tag_flags_bits(1) [of data is_last] by (simp add: tag_width_def del: tag_flags_bits tag_flags_bits_pos)

lemma put_tags_fields:
  assumes "off + 8 * length es \<le> length d" "i < length es"
  shows "rd32be (put_tags d off es) (off + 8 * i) = u32 (fst (es ! i))"
    "rd32be (put_tags d off es) (off + 8 * i + 4) = tag_flags (snd (es ! i)) (Suc i = length es)"
  using assms
proof (induction d off es arbitrary: i rule: put_tags.induct)
  case (2 d off target data es)
  {
    case 1
    then show ?case
    proof (cases i)
      case 0
      with 1 show ?thesis by (simp add: rd32be_put_tags_before buf_simps)
    next
      case (Suc j)
      with 1 2(1) [of j] show ?thesis by (simp add: add.assoc add.commute add.left_commute)
    qed
  next
    case 2
    then show ?case
    proof (cases i)
      case 0
      with 2 show ?thesis by (simp add: rd32be_put_tags_before buf_simps)
    next
      case (Suc j)
      with 2 \<open>\<And>i. _ \<Longrightarrow> _ \<Longrightarrow> rd32be _ (off + 8 + 8 * i + 4) = _\<close> [of j]
      show ?thesis by (simp add: add.assoc add.commute add.left_commute)
    qed
  }
qed simp_all

lemma escape_not_magic: "4 \<le> length data \<Longrightarrow> rd32be (escape_block data) 0 \<noteq> JBD2_MAGIC"
  by (simp add: escape_block_def JBD2_MAGIC_def)

lemma unescape_escape:
  assumes "4 \<le> length data"
  shows "(if rd32be data 0 = JBD2_MAGIC then wr32be (escape_block data) 0 JBD2_MAGIC
          else escape_block data) = data"
proof (cases "rd32be data 0 = JBD2_MAGIC")
  case True
  have "wr32be (wr32be data 0 0) 0 JBD2_MAGIC = data"
  proof (rule buffer_eqI)
    fix i assume "i < length data"
    show "byte_at (wr32be (wr32be data 0 0) 0 JBD2_MAGIC) i = byte_at data i"
    proof (cases "i < 4")
      case True
      have "rd32be (wr32be (wr32be data 0 0) 0 JBD2_MAGIC) 0 = rd32be data 0"
        using assms \<open>rd32be data 0 = JBD2_MAGIC\<close> by (simp add: JBD2_MAGIC_def)
      from rd32be_inj [OF this True] show ?thesis by simp
    next
      case False
      then show ?thesis by (simp add: byte_at_wr_other)
    qed
  qed simp
  with True show ?thesis by (simp add: escape_block_def)
qed (simp add: escape_block_def)

end
