(* ===== verification/Vfs_Crash.thy ===== *)
theory Vfs_Crash
  imports Vfs_Journal_Laws
begin

text \<open>
  Crash safety of \<^verbatim>\<open>txn_flush\<close> and \<^verbatim>\<open>journal_replay\<close>. The writes of a commit are listed in their
  order; a power failure leaves the disk with some prefix of their sectors applied, possibly
  ending inside a block. Recovery from any of these disks gives either the filesystem from before
  the transaction or the one with all of it.
\<close>

section \<open>The writes of a commit, in order\<close>

abbreviation jfirst :: "vfs \<Rightarrow> nat" where "jfirst s \<equiv> jrnl_first (gfs s)"
abbreviation jmax :: "vfs \<Rightarrow> nat" where "jmax s \<equiv> jrnl_maxlen (gfs s)"
abbreviation jseq :: "vfs \<Rightarrow> nat" where "jseq s \<equiv> jrnl_seq (gfs s)"

definition txn_wf :: "vfs \<Rightarrow> bool" where
  "txn_wf s \<longleftrightarrow>
     (\<forall>e \<in> set (g_txn s). length (snd e) = bsize s \<and> 0 < fst e \<and> fst e < 4294967296
        \<and> fst e \<notin> inline_map (jino s) ` {..< jmax s})
     \<and> distinct (map fst (g_txn s)) \<and> length (g_txn s) \<le> TXN_MAX
     \<and> jfirst s + length (g_txn s) + 2 \<le> jmax s"

definition desc_block :: "vfs \<Rightarrow> bytes" where
  "desc_block s = put_tags (jrnl_header (bsize s) JBD2_DESCRIPTOR (jseq s)) 12 (g_txn s)"

definition commit_block :: "vfs \<Rightarrow> bytes" where
  "commit_block s = jrnl_header (bsize s) JBD2_COMMIT (jseq s)"

definition ring_writes :: "vfs \<Rightarrow> (nat \<times> bytes) list" where
  "ring_writes s =
     (jpos s (jfirst s), desc_block s)
     # map2 (\<lambda>k e. (jpos s k, escape_block (snd e)))
         [jfirst s + 1 ..< jfirst s + 1 + length (g_txn s)] (g_txn s)
     @ [(jpos s (jfirst s + 1 + length (g_txn s)), commit_block s)]"

definition super_live :: "vfs \<Rightarrow> bytes" where
  "super_live s = super_with (jblk s (vdisk s) 0) (jseq s) (jfirst s)"

definition super_done :: "vfs \<Rightarrow> bytes" where
  "super_done s = super_with (super_live s) (u32 (jseq s + 1)) 0"

definition flush_writes :: "vfs \<Rightarrow> (nat \<times> bytes) list" where
  "flush_writes s =
     ring_writes s @ [(jpos s 0, super_live s)] @ g_txn s @ [(jpos s 0, super_done s)]"

lemma txn_wfD:
  assumes "txn_wf s"
  shows "\<And>e. e \<in> set (g_txn s) \<Longrightarrow> length (snd e) = bsize s"
    "\<And>e. e \<in> set (g_txn s) \<Longrightarrow> 0 < fst e"
    "\<And>e. e \<in> set (g_txn s) \<Longrightarrow> fst e < 4294967296"
    "\<And>e i. e \<in> set (g_txn s) \<Longrightarrow> i < jmax s \<Longrightarrow> fst e \<noteq> jpos s i"
    "distinct (map fst (g_txn s))" "length (g_txn s) \<le> 32"
    "jfirst s + length (g_txn s) + 2 \<le> jmax s"
  using assms by (auto simp: txn_wf_def TXN_MAX_def)

lemma length_desc_commit [simp]:
  "length (desc_block s) = bsize s" "length (commit_block s) = bsize s"
  by (simp_all add: desc_block_def commit_block_def)

lemma length_super [simp]: "length (super_live s) = bsize s" "length (super_done s) = bsize s"
  by (simp_all add: super_live_def super_done_def)

lemma ring_write_lengths:
  "txn_wf s \<Longrightarrow> \<forall>w \<in> set (ring_writes s). length (snd w) = bsize s"
  using txn_wfD(1) [of s] by (fastforce simp: ring_writes_def dest: set_zip_rightD)

lemma ring_write_indices:
  "fst ` set (ring_writes s) \<subseteq> inline_map (jino s) ` {jfirst s .. jfirst s + 1 + length (g_txn s)}"
  by (auto simp: ring_writes_def dest!: set_zip_leftD)

lemma ring_write_targets:
  assumes "txn_wf s"
  shows "fst ` set (ring_writes s) \<subseteq> inline_map (jino s) ` {jfirst s ..< jmax s}"
  using txn_wfD(7) [OF assms] by (auto simp: ring_writes_def dest!: set_zip_leftD)

lemma upd_fs_seq_gfs:
  assumes "g_cur s < length (g_fs s)"
  shows "gfs (upd_fs f s) = f (gfs s)"
  using assms by (simp add: upd_fs_def)

lemma journal_ok_seq:
  assumes "journal_ok B s" "g_cur s < length (g_fs s)"
  shows "journal_ok B (upd_fs (\<lambda>f. f\<lparr>jrnl_seq := q\<rparr>) s)"
  using assms
  by (simp add: journal_ok_def journal_geometry_def upd_fs_def block_layer_ok_def drivers_ok_def
      cache_coherent_def cache_slot_def)

lemma txn_flush_wrote:
  assumes ok: "journal_ok B s" and wf: "txn_wf s" and ne: "g_txn s \<noteq> []"
    and cur: "g_cur s < length (g_fs s)"
    and sup: "rd32be (jblk s (vdisk s) 0) 0 = JBD2_MAGIC"
  obtains s' where "txn_flush s = Some (True, s')"
    "vdisk s' = set_blks (gdev s) B (flush_writes s) (vdisk s)"
    "wlog s' = wlog s @ concat (map (block_sectors (gdev s) B) (flush_writes s))"
    "g_fs s' = (g_fs s)[g_cur s := (gfs s)\<lparr>jrnl_seq := u32 (jseq s + 1)\<rparr>]"
    "g_cur s' = g_cur s" "g_txn s' = []" "g_txn_open s' = g_txn_open s"
    "journal_inode s' = journal_inode s" "g_txn_started s' = g_txn_started s" "journal_ok B s'"
proof -
  note okd = journal_okD [OF ok] and wfd = txn_wfD [OF wf]
  let ?f = "jfirst s" and ?n = "length (g_txn s)"
  have pos0: "0 < jmax s" using okd(12) by simp
  obtain s1 where s1: "jrnl_write ?f (desc_block s) s = Some (True, s1)"
    "wrote B s [(jpos s ?f, desc_block s)] s1"
    by (rule jrnl_write_wrote [OF ok okd(12), of "desc_block s"]) (simp add: okd(2))
  note f1 = wrote_fields [OF s1(2)]
  obtain s2 where s2: "write_jdata (?f + 1) (g_txn s) s1 = Some (True, s2)"
    "wrote B s1 (map2 (\<lambda>k e. (jpos s1 k, escape_block (snd e))) [?f + 1 ..< ?f + 1 + ?n] (g_txn s)) s2"
    using write_jdata_wrote [OF wrote_ok [OF s1(2)], of "g_txn s" "?f + 1"] wfd(1,7) okd(2) f1 by auto
  note f2 = wrote_fields [OF s2(2)]
  have idx: "?f + 1 + ?n < jmax s2" using wfd(7) by (simp add: f1 f2)
  have u: "u32 (?f + 1 + ?n) = ?f + 1 + ?n" using wfd(7) okd(13) by simp
  obtain s3 where s3: "jrnl_write (?f + 1 + ?n) (commit_block s) s2 = Some (True, s3)"
    "wrote B s2 [(jpos s2 (?f + 1 + ?n), commit_block s)] s3"
    by (rule jrnl_write_wrote [OF wrote_ok [OF s2(2)] idx, of "commit_block s"]) (simp add: okd(2))
  note f3 = wrote_fields [OF s3(2)]
  have ring: "wrote B s (ring_writes s) s3"
    using wrote_trans [OF wrote_trans [OF s1(2) s2(2)] s3(2)] by (simp add: ring_writes_def f1 f2)
  have jsb3: "jblk s3 (vdisk s3) 0 = jblk s (vdisk s) 0"
  proof -
    have "jpos s 0 \<notin> fst ` set (ring_writes s)"
      using ring_write_targets [OF wf] jpos_eq_iff [OF ok pos0] okd(11) by fastforce
    then show ?thesis using blk_set_blks_other [OF okd(4), of "gdev s" "gdev s" "jpos s 0" "ring_writes s" "vdisk s"]
      by (simp add: wrote_fields [OF ring] okd(2))
  qed
  obtain s4 where s4: "jrnl_super (jseq s) ?f s3 = Some (Some True, s4)"
    "wrote B s3 [(jpos s3 0, super_with (jblk s3 (vdisk s3) 0) (jseq s) ?f)] s4"
    by (rule jrnl_super_wrote [OF wrote_ok [OF s3(2)], of "jseq s" ?f]) (simp add: jsb3 sup)
  have live: "wrote B s (ring_writes s @ [(jpos s 0, super_live s)]) s4"
    using wrote_trans [OF ring s4(2)] unfolding jsb3 by (simp add: super_live_def wrote_fields [OF ring])
  obtain s5 where s5: "write_home (g_txn s) s4 = Some (True, s5)" "wrote B s4 (g_txn s) s5"
    using write_home_wrote [OF wrote_ok [OF s4(2)], of "g_txn s"] wfd(1) okd(2) by auto
  have home: "wrote B s ((ring_writes s @ [(jpos s 0, super_live s)]) @ g_txn s) s5"
    by (rule wrote_trans [OF live s5(2)])
  note f5 = wrote_fields [OF home]
  define s6 where "s6 = upd_fs (\<lambda>f. f\<lparr>jrnl_seq := u32 (jseq s + 1)\<rparr>) s5"
  have ok6: "journal_ok B s6"
    unfolding s6_def by (rule journal_ok_seq [OF wrote_ok [OF home]]) (simp add: f5 cur)
  have f6: "g_fs s6 = (g_fs s)[g_cur s := (gfs s)\<lparr>jrnl_seq := u32 (jseq s + 1)\<rparr>]" "g_cur s6 = g_cur s"
    "vdisk s6 = vdisk s5" "wlog s6 = wlog s5" "g_txn_open s6 = g_txn_open s" "journal_inode s6 = journal_inode s"
    "g_txn_started s6 = g_txn_started s"
    by (simp_all add: s6_def upd_fs_def f5)
  have gfs6: "gfs s6 = (gfs s)\<lparr>jrnl_seq := u32 (jseq s + 1)\<rparr>" using cur by (simp add: f6)
  have "jpos s 0 \<notin> fst ` set (g_txn s)" using wfd(4) [OF _ pos0] by fastforce
  then have jsb6: "jblk s6 (vdisk s6) 0 = super_live s"
    using blk_set_blks_other [OF okd(4), of "gdev s" "gdev s" "jpos s 0" "g_txn s"] okd(2,4)
    by (simp add: cur f6 f5)
  have magic6: "rd32be (jblk s6 (vdisk s6) 0) 0 = JBD2_MAGIC"
    using sup okd(2,3) by (simp add: jsb6 super_live_def super_with_fields)
  obtain s7 where s7: "jrnl_super (u32 (jseq s + 1)) 0 s6 = Some (Some True, s7)"
    "wrote B s6 [(jpos s6 0, super_with (jblk s6 (vdisk s6) 0) (u32 (jseq s + 1)) 0)] s7"
    by (rule jrnl_super_wrote [OF ok6 magic6])
  have w7: "wrote B s6 [(jpos s 0, super_done s)] s7"
    using s7(2) unfolding jsb6 by (simp add: super_done_def f6)
  note f7 = wrote_fields [OF w7]
  have room: "\<not> ?n + 2 > sub32 (jmax s) ?f" using okd(12,13) wfd(7) by simp
  have "txn_flush s = Some (True, s7\<lparr>g_txn := []\<rparr>)"
    using s1(1) s2(1) s3(1) s4(1) s5(1) s7(1) [unfolded s6_def] ne okd(7) room u
    by (simp add: txn_flush_def Let_def f1 f2 f3 desc_block_def commit_block_def)
  then show ?thesis
    by (rule that)
      (use f7 f6 f5 gfs6 wrote_ok [OF w7] in \<open>simp_all add: flush_writes_def journal_ok_def journal_geometry_def\<close>)
qed

section \<open>Recovering a complete transaction\<close>

lemma write_block_closed:
  assumes "journal_ok B s" "\<not> g_txn_open s" "length data = B"
  obtains s' where "write_block b data s = Some (True, s')" "wrote B s [(b, data)] s'"
proof -
  obtain t where "write_through b data s = Some (True, t)"
    "vdisk t = set_blk (gdev s) B b data (vdisk s)"
    "wlog t = wlog s @ sectors_of (gdev s) (b * (B div 512)) (B div 512) data"
    "store_step s t" "block_layer_ok B t"
    by (rule write_through_ok [OF journal_okD(1) [OF assms(1)] assms(3), of b])
  moreover from this have "journal_ok B t" using journal_ok_store [OF assms(1)] by blast
  ultimately show ?thesis using that [of t] assms(2)
    by (simp add: write_block_def wrote_def block_sectors_def)
qed

definition off_journal :: "vfs \<Rightarrow> nat \<Rightarrow> bool" where
  "off_journal s b \<longleftrightarrow> b \<notin> inline_map (jino s) ` {..< jmax s}"

lemma jblk_wrote_off:
  assumes "journal_ok B s" "wrote B s ws t" "\<forall>w \<in> set ws. off_journal s (fst w)" "i < jmax s"
  shows "jblk t (vdisk t) i = jblk s (vdisk s) i"
proof -
  have "jpos s i \<notin> fst ` set ws" using assms(3,4) by (fastforce simp: off_journal_def)
  then show ?thesis using blk_set_blks_other [OF journal_okD(4) [OF assms(1)]] journal_okD(2) [OF assms(1)]
    by (simp add: wrote_fields [OF assms(2)])
qed

text \<open>The ring of \<open>t\<close> holds the transaction \<open>es\<close> under sequence number \<open>q\<close>, commit block included.\<close>

definition ring_holds :: "vfs \<Rightarrow> nat \<Rightarrow> (nat \<times> bytes) list \<Rightarrow> bool" where
  "ring_holds t q es \<longleftrightarrow>
     es \<noteq> [] \<and> length es \<le> 32 \<and> q < 4294967296 \<and> jfirst t + length es + 2 \<le> jmax t
     \<and> (\<forall>e \<in> set es. length (snd e) = bsize t \<and> 0 < fst e \<and> fst e < 4294967296 \<and> off_journal t (fst e))
     \<and> jblk t (vdisk t) (jfirst t) = put_tags (jrnl_header (bsize t) JBD2_DESCRIPTOR q) 12 es
     \<and> (\<forall>i < length es. jblk t (vdisk t) (jfirst t + 1 + i) = escape_block (snd (es ! i)))
     \<and> jblk t (vdisk t) (jfirst t + 1 + length es) = jrnl_header (bsize t) JBD2_COMMIT q"

lemma ring_holdsD:
  assumes "ring_holds t q es"
  shows "es \<noteq> []" "length es \<le> 32" "q < 4294967296" "jfirst t + length es + 2 \<le> jmax t"
    "\<And>e. e \<in> set es \<Longrightarrow> length (snd e) = bsize t" "\<And>e. e \<in> set es \<Longrightarrow> 0 < fst e"
    "\<And>e. e \<in> set es \<Longrightarrow> fst e < 4294967296" "\<And>e. e \<in> set es \<Longrightarrow> off_journal t (fst e)"
    "jblk t (vdisk t) (jfirst t) = put_tags (jrnl_header (bsize t) JBD2_DESCRIPTOR q) 12 es"
    "\<And>i. i < length es \<Longrightarrow> jblk t (vdisk t) (jfirst t + 1 + i) = escape_block (snd (es ! i))"
    "jblk t (vdisk t) (jfirst t + 1 + length es) = jrnl_header (bsize t) JBD2_COMMIT q"
  using assms by (auto simp: ring_holds_def)

lemma ring_holds_wrote:
  assumes "journal_ok B t" "ring_holds t q es" "wrote B t ws u" "\<forall>w \<in> set ws. off_journal t (fst w)"
  shows "ring_holds u q es"
proof -
  note f = wrote_fields [OF assms(3)]
  have "jblk u (vdisk u) i = jblk t (vdisk t) i" if "i < jmax t" for i
    using jblk_wrote_off [OF assms(1,3,4) that] .
  then show ?thesis using ring_holdsD(4) [OF assms(2)] assms(2)
    by (auto simp: ring_holds_def f off_journal_def)
qed

lemma jrnl_next_cong: "gfs t = gfs s \<Longrightarrow> jrnl_next i t = jrnl_next i s"
  unfolding jrnl_next_def by (simp only:)

lemma jrnl_next_Suc: "i + 1 < jmax s \<Longrightarrow> jmax s < 4294967296 \<Longrightarrow> jrnl_next i s = i + 1"
  by (simp add: jrnl_next_def)

lemma apply_tag_wrote:
  assumes ok: "journal_ok B t" and cl: "\<not> g_txn_open t" and rh: "ring_holds t q es" and i: "i < length es"
  obtains u where
    "apply_tag (fst (es ! i)) (tag_flags (snd (es ! i)) l) (jfirst t + 1 + i) t = Some (True, u)"
    "wrote B t [es ! i] u"
proof -
  note okd = journal_okD [OF ok] and rhd = ring_holdsD [OF rh]
  have mem: "es ! i \<in> set es" using i by simp
  have idx: "jfirst t + 1 + i < jmax t" using rhd(4) i by simp
  obtain v where v: "jrnl_read (jfirst t + 1 + i) t = Some (Some (escape_block (snd (es ! i))), v)"
    "cache_step t v" "journal_ok B v"
    using jrnl_read_ok [OF ok idx] rhd(10) [OF i] by metis
  have w: "wrote B t [] v" by (rule wrote_cache [OF v(2,3)])
  have len: "length (snd (es ! i)) = B" using rhd(5) [OF mem] okd(2) by simp
  obtain u where u: "write_block (fst (es ! i)) (snd (es ! i)) v = Some (True, u)"
    "wrote B v [(fst (es ! i), snd (es ! i))] u"
    by (rule write_block_closed [OF v(3) _ len, of "fst (es ! i)"]) (use cl in \<open>simp add: wrote_fields [OF w]\<close>)
  have "4 \<le> length (snd (es ! i))" using len okd(3) by simp
  note ue = unescape_escape [OF this]
  show ?thesis
    using that [of u] v(1) u rhd(6) [OF mem] wrote_trans [OF w u(2)]
    by (simp add: apply_tag_def Let_def ue)
qed

lemma jrnl_tags_unfold:
  assumes ok: "journal_ok B t" and rh: "ring_holds t q es" and i: "i < length es"
  shows "jrnl_tags (put_tags (jrnl_header B JBD2_DESCRIPTOR q) 12 es) app False (12 + 8 * i) pos t =
     (do { (ok, s) \<leftarrow> (if app then apply_tag (fst (es ! i)) (tag_flags (snd (es ! i)) (Suc i = length es)) pos t
                         else Some (True, t));
           if \<not> ok then Some (0, s)
           else if Suc i = length es then Some (jrnl_next pos s, s)
           else jrnl_tags (put_tags (jrnl_header B JBD2_DESCRIPTOR q) 12 es) app False (12 + 8 * Suc i)
                  (jrnl_next pos s) s })"
proof -
  note okd = journal_okD [OF ok] and rhd = ring_holdsD [OF rh]
  let ?d = "put_tags (jrnl_header B JBD2_DESCRIPTOR q) 12 es"
  have fit: "12 + 8 * length es \<le> length (jrnl_header B JBD2_DESCRIPTOR q)" using rhd(2) okd(3) by simp
  have small: "\<not> 12 + 8 * Suc i > bsize t" using rhd(2) okd(2,3) i by simp
  have tgt: "rd32be ?d (12 + 8 * i) = fst (es ! i)"
    using put_tags_fields(1) [OF fit i] rhd(7) [of "es ! i"] i by simp
  have flg: "rd32be ?d (12 + 8 * i + 4) = tag_flags (snd (es ! i)) (Suc i = length es)"
    using put_tags_fields(2) [OF fit i] .
  have nxt: "12 + 8 * i + 8 = 12 + 8 * Suc i" by simp
  show ?thesis
    by (subst jrnl_tags.simps) (simp only: Let_def tgt flg tag_width_tag_flags tag_flags_bits small nxt
        if_False simp_thms)
qed

lemma jrnl_tags_count:
  assumes ok: "journal_ok B t" and rh: "ring_holds t q es"
  shows "i < length es \<Longrightarrow>
    jrnl_tags (put_tags (jrnl_header B JBD2_DESCRIPTOR q) 12 es) False False (12 + 8 * i) (jfirst t + 1 + i) t
      = Some (jfirst t + 1 + length es, t)"
proof (induction "length es - i" arbitrary: i)
  case 0
  then show ?case by simp
next
  case (Suc k)
  have nxt: "jrnl_next (jfirst t + 1 + i) t = jfirst t + 1 + Suc i"
    using jrnl_next_Suc [of "jfirst t + 1 + i" t] ring_holdsD(4) [OF rh] Suc.prems journal_okD(13) [OF ok] by simp
  show ?case
  proof (cases "Suc i = length es")
    case True
    then show ?thesis by (simp add: jrnl_tags_unfold [OF ok rh Suc.prems] nxt [simplified] True [symmetric])
  next
    case False
    then show ?thesis using Suc.hyps(1) [of "Suc i"] Suc.hyps(2) Suc.prems
      by (simp add: jrnl_tags_unfold [OF ok rh Suc.prems] nxt [simplified])
  qed
qed

lemma jrnl_tags_apply:
  assumes "journal_ok B t" "\<not> g_txn_open t" "ring_holds t q es" "i < length es"
  shows "\<exists>u. jrnl_tags (put_tags (jrnl_header B JBD2_DESCRIPTOR q) 12 es) True False (12 + 8 * i) (jfirst t + 1 + i) t
      = Some (jfirst t + 1 + length es, u) \<and> wrote B t (drop i es) u"
  using assms
proof (induction "length es - i" arbitrary: i t)
  case 0
  then show ?case by simp
next
  case (Suc k)
  note rhd = ring_holdsD [OF Suc.prems(3)]
  obtain v where v:
    "apply_tag (fst (es ! i)) (tag_flags (snd (es ! i)) (Suc i = length es)) (jfirst t + 1 + i) t = Some (True, v)"
    "wrote B t [es ! i] v"
    by (rule apply_tag_wrote [OF Suc.prems])
  note fv = wrote_fields [OF v(2)]
  have nxt: "jrnl_next (jfirst t + 1 + i) v = jfirst v + 1 + Suc i"
    using jrnl_next_Suc [of "jfirst t + 1 + i" v] rhd(4) Suc.prems(4) journal_okD(13) [OF Suc.prems(1)]
    by (simp add: fv)
  have drop: "drop i es = es ! i # drop (Suc i) es" using Suc.prems(4) by (simp add: Cons_nth_drop_Suc)
  have rv: "ring_holds v q es"
    by (rule ring_holds_wrote [OF Suc.prems(1,3) v(2)]) (use rhd(8) Suc.prems(4) in auto)
  show ?case
  proof (cases "Suc i = length es")
    case True
    then show ?thesis using v drop
      by (simp add: jrnl_tags_unfold [OF Suc.prems(1,3,4)] nxt [simplified] fv True [symmetric])
  next
    case False
    have k: "k = length es - Suc i" "Suc i < length es" using Suc.hyps(2) Suc.prems(4) False by simp_all
    have "\<not> g_txn_open v" using Suc.prems(2) by (simp add: fv)
    then obtain u where u: "jrnl_tags (put_tags (jrnl_header B JBD2_DESCRIPTOR q) 12 es) True False
        (12 + 8 * Suc i) (jfirst v + 1 + Suc i) v = Some (jfirst v + 1 + length es, u)" "wrote B v (drop (Suc i) es) u"
      using Suc.hyps(1) [OF k(1) wrote_ok [OF v(2)] _ rv k(2)] by blast
    have "wrote B t (drop i es) u" using wrote_trans [OF v(2) u(2)] drop by simp
    then show ?thesis using False v(1) u(1)
      by (simp add: jrnl_tags_unfold [OF Suc.prems(1,3,4)] nxt [simplified] fv)
  qed
qed

lemma ring_desc:
  assumes "journal_ok B t" "ring_holds t q es"
  shows "rd32be (jblk t (vdisk t) (jfirst t)) 0 = JBD2_MAGIC"
    "rd32be (jblk t (vdisk t) (jfirst t)) 4 = JBD2_DESCRIPTOR"
    "rd32be (jblk t (vdisk t) (jfirst t)) 8 = q"
    "rd32be (jblk t (vdisk t) (jfirst t + 1 + length es)) 0 = JBD2_MAGIC"
    "rd32be (jblk t (vdisk t) (jfirst t + 1 + length es)) 4 = JBD2_COMMIT"
    "rd32be (jblk t (vdisk t) (jfirst t + 1 + length es)) 8 = q"
  using journal_okD(2,3) [OF assms(1)] ring_holdsD(3,9,11) [OF assms(2)]
  by (simp_all add: rd32be_put_tags_before jrnl_header_fields JBD2_DESCRIPTOR_def JBD2_COMMIT_def)

text \<open>The block after the commit block does not continue the sequence.\<close>

definition ring_ends :: "vfs \<Rightarrow> nat \<Rightarrow> nat \<Rightarrow> bool" where
  "ring_ends t q n \<longleftrightarrow>
     (let b = jblk t (vdisk t) (jrnl_next (jfirst t + 1 + n) t)
      in rd32be b 0 \<noteq> JBD2_MAGIC \<or> rd32be b 8 \<noteq> u32 (q + 1))"

lemma jrnl_next_less: "journal_ok B t \<Longrightarrow> jrnl_next i t < jmax t"
  using journal_okD(12) [of B t] by (simp add: jrnl_next_def Let_def)

lemma replay_scan_complete:
  assumes ok: "journal_ok B t" and rh: "ring_holds t q es" and re: "ring_ends t q (length es)"
  obtains u where "replay_scan (jfirst t) q 0 t = Some ((u32 (q + 1), 1), u)" "wrote B t [] u"
proof -
  note okd = journal_okD [OF ok] and rhd = ring_holdsD [OF rh] and rd = ring_desc [OF ok rh]
  let ?c = "jfirst t + 1 + length es"
  obtain t1 where t1: "jrnl_read (jfirst t) t = Some (Some (jblk t (vdisk t) (jfirst t)), t1)"
    "cache_step t t1" "journal_ok B t1"
    by (rule jrnl_read_ok [OF ok okd(12)])
  have w1: "wrote B t [] t1" by (rule wrote_cache [OF t1(2,3)])
  note f1 = wrote_fields [OF w1, simplified]
  have rh1: "ring_holds t1 q es" by (rule ring_holds_wrote [OF ok rh w1]) simp
  have nf: "jrnl_next (jfirst t) t1 = jfirst t1 + 1"
    using jrnl_next_Suc [of "jfirst t" t1] rhd(4) okd(13) by (simp add: f1)
  have "jrnl_walk (jblk t (vdisk t) (jfirst t)) (jfirst t) False False t1 = Some (?c, t1)"
    unfolding jrnl_walk_def rhd(9) nf using jrnl_tags_count [OF t1(3) rh1, of 0] rhd(1) okd(2) by (simp add: f1)
  then have step1: "replay_scan (jfirst t) q 0 t = replay_scan ?c q 0 t1"
    using t1(1) rd(1-3) by (subst replay_scan.simps) (simp add: JBD2_DESCRIPTOR_def JBD2_COMMIT_def)
  have ci: "?c < jmax t1" using rhd(4) by (simp add: f1)
  obtain t2 where t2: "jrnl_read ?c t1 = Some (Some (jblk t1 (vdisk t1) ?c), t2)" "cache_step t1 t2" "journal_ok B t2"
    by (rule jrnl_read_ok [OF t1(3) ci])
  have w2: "wrote B t [] t2" using wrote_trans [OF w1 wrote_cache [OF t2(2,3)]] by simp
  note f2 = wrote_fields [OF w2, simplified]
  have nx: "jrnl_next c t2 = jrnl_next c t" for c by (rule jrnl_next_cong) (simp add: f2)
  have step2: "replay_scan ?c q 0 t1 = replay_scan (jrnl_next ?c t) (u32 (q + 1)) 1 t2"
    using t2(1) rd(4-6) by (subst replay_scan.simps) (simp add: f1 nx)
  obtain t3 where t3: "jrnl_read (jrnl_next ?c t) t2 = Some (Some (jblk t2 (vdisk t2) (jrnl_next ?c t)), t3)"
    "cache_step t2 t3" "journal_ok B t3"
    by (rule jrnl_read_ok [OF t2(3), of "jrnl_next ?c t"]) (use jrnl_next_less [OF ok] in \<open>simp add: f2\<close>)
  have w3: "wrote B t [] t3" using wrote_trans [OF w2 wrote_cache [OF t3(2,3)]] by simp
  have "replay_scan (jrnl_next ?c t) (u32 (q + 1)) 1 t2 = Some ((u32 (q + 1), 1), t3)"
    using t3(1) re by (subst replay_scan.simps) (auto simp: f2 ring_ends_def Let_def)
  then show ?thesis using that w3 step1 step2 by simp
qed

lemma replay_apply_complete:
  assumes ok: "journal_ok B t" and cl: "\<not> g_txn_open t" and rh: "ring_holds t q es"
  obtains u where "replay_apply 1 (jfirst t) q 0 t = Some ((u32 (q + 1), 1), u)" "wrote B t es u"
proof -
  note okd = journal_okD [OF ok] and rhd = ring_holdsD [OF rh] and rd = ring_desc [OF ok rh]
  let ?c = "jfirst t + 1 + length es"
  obtain t1 where t1: "jrnl_read (jfirst t) t = Some (Some (jblk t (vdisk t) (jfirst t)), t1)"
    "cache_step t t1" "journal_ok B t1"
    by (rule jrnl_read_ok [OF ok okd(12)])
  have w1: "wrote B t [] t1" by (rule wrote_cache [OF t1(2,3)])
  note f1 = wrote_fields [OF w1, simplified]
  have rh1: "ring_holds t1 q es" by (rule ring_holds_wrote [OF ok rh w1]) simp
  have nf: "jrnl_next (jfirst t) t1 = jfirst t1 + 1"
    using jrnl_next_Suc [of "jfirst t" t1] rhd(4) okd(13) by (simp add: f1)
  obtain t2 where t2: "jrnl_walk (jblk t (vdisk t) (jfirst t)) (jfirst t) True False t1 = Some (?c, t2)"
    "wrote B t1 es t2"
    unfolding jrnl_walk_def rhd(9) nf
    using jrnl_tags_apply [OF t1(3) _ rh1, of 0] rhd(1) okd(2) cl by (auto simp: f1)
  have w2: "wrote B t es t2" using wrote_trans [OF w1 t2(2)] by simp
  note f2 = wrote_fields [OF w2]
  have step1: "replay_apply 1 (jfirst t) q 0 t = replay_apply 1 ?c q 0 t2"
    using t1(1) t2(1) rd(1-3)
    by (subst replay_apply.simps) (simp add: JBD2_DESCRIPTOR_def JBD2_COMMIT_def)
  have ci: "?c < jmax t2" using rhd(4) by (simp add: f2)
  obtain t3 where t3: "jrnl_read ?c t2 = Some (Some (jblk t2 (vdisk t2) ?c), t3)" "cache_step t2 t3" "journal_ok B t3"
    by (rule jrnl_read_ok [OF wrote_ok [OF w2] ci])
  have w3: "wrote B t es t3" using wrote_trans [OF w2 wrote_cache [OF t3(2,3)]] by simp
  have "jblk t2 (vdisk t2) ?c = jblk t (vdisk t) ?c"
    by (rule jblk_wrote_off [OF ok w2]) (use rhd(4,8) in auto)
  then have "replay_apply 1 ?c q 0 t2 = replay_apply 1 (jrnl_next ?c t3) (u32 (q + 1)) 1 t3"
    using t3(1) rd(4-6) by (subst replay_apply.simps) simp
  also have "\<dots> = Some ((u32 (q + 1), 1), t3)" by (subst replay_apply.simps) simp
  finally show ?thesis using that w3 step1 by simp
qed

lemma journal_replay_idle: "jrnl_start (gfs t) = 0 \<Longrightarrow> journal_replay t = Some (True, t)"
  by (simp add: journal_replay_def)

lemma journal_replay_complete:
  assumes ok: "journal_ok B t" and cl: "\<not> g_txn_open t" and rh: "ring_holds t (jseq t) es"
    and re: "ring_ends t (jseq t) (length es)" and st: "jrnl_start (gfs t) = jfirst t"
    and sup: "rd32be (jblk t (vdisk t) 0) 0 = JBD2_MAGIC"
  obtains u where "journal_replay t = Some (True, u)"
    "vdisk u = set_blks (gdev t) B
       (es @ [(jpos t 0, super_with (jblk t (vdisk t) 0) (u32 (jseq t + 1)) 0)]) (vdisk t)"
    "wlog u = wlog t @ concat (map (block_sectors (gdev t) B)
       (es @ [(jpos t 0, super_with (jblk t (vdisk t) 0) (u32 (jseq t + 1)) 0)]))"
proof -
  note okd = journal_okD [OF ok]
  obtain t1 where t1: "replay_scan (jfirst t) (jseq t) 0 t = Some ((u32 (jseq t + 1), 1), t1)" "wrote B t [] t1"
    by (rule replay_scan_complete [OF ok rh re])
  note f1 = wrote_fields [OF t1(2), simplified]
  have rh1: "ring_holds t1 (jseq t) es" by (rule ring_holds_wrote [OF ok rh t1(2)]) simp
  obtain t2 where t2: "replay_apply 1 (jfirst t1) (jseq t) 0 t1 = Some ((u32 (jseq t + 1), 1), t2)" "wrote B t1 es t2"
    by (rule replay_apply_complete [OF wrote_ok [OF t1(2)] _ rh1]) (use cl in \<open>simp add: f1\<close>)
  have w2: "wrote B t es t2" using wrote_trans [OF t1(2) t2(2)] by simp
  note f2 = wrote_fields [OF w2]
  have jsb: "jblk t2 (vdisk t2) 0 = jblk t (vdisk t) 0"
    by (rule jblk_wrote_off [OF ok w2]) (use ring_holdsD(8) [OF rh] okd(12) in auto)
  obtain t3 where t3: "jrnl_super (u32 (jseq t + 1)) 0 t2 = Some (Some True, t3)"
    "wrote B t2 [(jpos t2 0, super_with (jblk t2 (vdisk t2) 0) (u32 (jseq t + 1)) 0)] t3"
    by (rule jrnl_super_wrote [OF wrote_ok [OF w2], of "u32 (jseq t + 1)" 0]) (simp only: jsb sup)
  have w3: "wrote B t (es @ [(jpos t 0, super_with (jblk t (vdisk t) 0) (u32 (jseq t + 1)) 0)]) t3"
    using wrote_trans [OF w2 t3(2)] unfolding jsb by (simp add: f2)
  have "journal_replay t = Some (True, upd_fs (\<lambda>f. f\<lparr>jrnl_start := 0\<rparr>) t3)"
    using t1(1) t2(1) t3(1) okd(7,11) st by (simp add: journal_replay_def f1)
  then show ?thesis by (rule that) (simp_all add: upd_fs_def wrote_fields [OF w3])
qed

section \<open>Power failure\<close>

text \<open>
  What holds between transactions: the journal superblock says the journal is empty, and no block
  of the ring carries a sequence number that is still to come.
\<close>

definition journal_fresh :: "vfs \<Rightarrow> bool" where
  "journal_fresh s \<longleftrightarrow>
     rd32be (jblk s (vdisk s) 0) 0 = JBD2_MAGIC \<and> rd32be (jblk s (vdisk s) 0) 28 = 0
     \<and> jseq s + 1 < 4294967296
     \<and> (\<forall>i. jfirst s \<le> i \<and> i < jmax s \<longrightarrow>
          rd32be (jblk s (vdisk s) i) 0 = JBD2_MAGIC \<longrightarrow> rd32be (jblk s (vdisk s) i) 8 \<le> jseq s)"

definition commit_ready :: "nat \<Rightarrow> vfs \<Rightarrow> bool" where
  "commit_ready B s \<longleftrightarrow>
     journal_ok B s \<and> txn_wf s \<and> g_cur s < length (g_fs s) \<and> journal_fresh s"

text \<open>
  A server started again on the disks \<open>ds\<close>, with the same filesystem mounted: the journal's
  position and sequence number are what \<^verbatim>\<open>journal_open\<close> reads from the journal superblock there.
\<close>

definition reopened :: "vfs \<Rightarrow> disks \<Rightarrow> vfs \<Rightarrow> bool" where
  "reopened s ds t \<longleftrightarrow>
     vdisk t = ds \<and> \<not> g_txn_open t \<and> g_txn t = [] \<and> journal_ok (bsize s) t
     \<and> gdev t = gdev s \<and> jino t = jino s \<and> jfirst t = jfirst s \<and> jmax t = jmax s
     \<and> jseq t = rd32be (jblk s ds 0) 24 \<and> jrnl_start (gfs t) = rd32be (jblk s ds 0) 28"

text \<open>The filesystem outside the journal is as in \<open>s\<close>, with the blocks of \<open>m\<close> replaced.\<close>

definition fs_is :: "vfs \<Rightarrow> (nat \<rightharpoonup> bytes) \<Rightarrow> disks \<Rightarrow> bool" where
  "fs_is s m ds \<longleftrightarrow>
     (\<forall>d b. \<not> (d = gdev s \<and> \<not> off_journal s b) \<longrightarrow>
        blk ds d (bsize s) b =
          (if d = gdev s then (case m b of Some data \<Rightarrow> data | None \<Rightarrow> blk (vdisk s) d (bsize s) b)
           else blk (vdisk s) d (bsize s) b))"

definition crash_disk :: "nat \<Rightarrow> nat \<Rightarrow> (nat \<times> bytes) list \<Rightarrow> nat \<Rightarrow> disks \<Rightarrow> disks" where
  "crash_disk d B ws k ds = apply_writes (take k (concat (map (block_sectors d B) ws))) ds"

lemma apply_block_sectors:
  "512 dvd B \<Longrightarrow> apply_writes (block_sectors d B w) ds = set_blk d B (fst w) (snd w) ds"
  by (simp add: block_sectors_def write_block_sectors)

lemma apply_concat_blocks:
  "512 dvd B \<Longrightarrow> apply_writes (concat (map (block_sectors d B) ws)) ds = set_blks d B ws ds"
  by (induction ws arbitrary: ds) (simp_all add: apply_writes_append apply_block_sectors)

text \<open>A crash falls inside the write of one block: those before it are complete.\<close>

lemma take_concat_split:
  assumes "ws \<noteq> []" "\<And>w. length (f w) = c"
  shows "\<exists>ws1 w ws2 j. ws = ws1 @ w # ws2 \<and> j \<le> c
    \<and> take k (concat (map f ws)) = concat (map f ws1) @ take j (f w)"
  using assms(1)
proof (induction ws arbitrary: k)
  case (Cons a ws)
  show ?case
  proof (cases "k \<le> c \<or> ws = []")
    case True
    have "take k (concat (map f (a # ws))) = take (min k c) (f a)"
      using True assms(2) [of a] by (auto simp: min_def)
    then show ?thesis
      by (intro exI [of _ "[]"] exI [of _ a] exI [of _ ws] exI [of _ "min k c"]) simp
  next
    case False
    then obtain ws1 w ws2 j where IH: "ws = ws1 @ w # ws2" "j \<le> c"
      "take (k - c) (concat (map f ws)) = concat (map f ws1) @ take j (f w)"
      using Cons.IH [of "k - c"] by blast
    then show ?thesis using False assms(2) [of a]
      by (intro exI [of _ "a # ws1"] exI [of _ w] exI [of _ ws2] exI [of _ j]) simp
  qed
qed simp

definition torn_blk :: "nat \<Rightarrow> nat \<Rightarrow> nat \<times> bytes \<Rightarrow> nat \<Rightarrow> disks \<Rightarrow> disks" where
  "torn_blk d B w j ds = apply_writes (take j (block_sectors d B w)) ds"

lemma crash_disk_split:
  assumes "512 dvd B" "ws \<noteq> []"
  obtains ws1 w ws2 j where "ws = ws1 @ w # ws2" "j \<le> B div 512"
    "crash_disk d B ws k ds = torn_blk d B w j (set_blks d B ws1 ds)"
proof -
  have "length (block_sectors d B w) = B div 512" for w by (simp add: block_sectors_def sectors_of_def)
  then obtain ws1 w ws2 j where sp: "ws = ws1 @ w # ws2" "j \<le> B div 512"
    "take k (concat (map (block_sectors d B) ws)) = concat (map (block_sectors d B) ws1) @ take j (block_sectors d B w)"
    using take_concat_split [OF assms(2), of "block_sectors d B" "B div 512" k] by blast
  have "crash_disk d B ws k ds = torn_blk d B w j (set_blks d B ws1 ds)"
    unfolding crash_disk_def sp(3) torn_blk_def by (simp add: apply_writes_append apply_concat_blocks [OF assms(1)])
  with sp that show ?thesis by blast
qed

lemma torn_bytes:
  assumes "512 dvd B" "j \<le> B div 512"
  shows "torn_blk d B w j ds =
    ds(d := (\<lambda>o'. if fst w * B \<le> o' \<and> o' < fst w * B + j * 512
                  then byte_at (snd w) (o' - fst w * B) else ds d o'))"
proof -
  have "take j (block_sectors d B w) = sectors_of d (fst w * (B div 512)) j (snd w)"
    using assms(2) by (simp add: block_sectors_def sectors_of_def take_map)
  moreover have "fst w * (B div 512) * 512 = fst w * B"
    "(fst w * (B div 512) + j) * 512 = fst w * B + j * 512"
    using assms(1) by (simp_all add: algebra_simps)
  ultimately show ?thesis unfolding torn_blk_def by (simp only: apply_writes_sectors)
qed

lemma torn_0 [simp]: "torn_blk d B w 0 ds = ds"
  by (simp add: torn_blk_def)

lemma blk_torn_other:
  assumes "0 < B" "512 dvd B" "j \<le> B div 512" "(d', b) \<noteq> (d, fst w)"
  shows "blk (torn_blk d B w j ds) d' B b = blk ds d' B b"
proof -
  have j: "j * 512 \<le> B" using assms(2,3) by auto
  show ?thesis
  proof (rule buffer_eqI)
    fix i assume i: "i < length (blk ds d' B b)"
    have "\<not> (fst w * B \<le> b * B + i \<and> b * B + i < fst w * B + j * 512)" if "d' = d"
    proof -
      have "b \<noteq> fst w" using that assms(4) by simp
      moreover have "(b * B + i) div B = b" using i by (simp add: assms(1))
      ultimately have "\<not> (fst w * B \<le> b * B + i \<and> b * B + i < fst w * B + B)"
        by (simp only: in_block_iff [OF assms(1)] simp_thms)
      then show ?thesis using j by linarith
    qed
    then show "byte_at (blk (torn_blk d B w j ds) d' B b) i = byte_at (blk ds d' B b) i"
      using i by (auto simp: byte_at_blk torn_bytes [OF assms(2,3)])
  qed simp
qed

lemma byte_at_torn:
  assumes "0 < B" "512 dvd B" "j \<le> B div 512" "i < B"
  shows "byte_at (blk (torn_blk d B w j ds) d B (fst w)) i =
    (if i < j * 512 then byte_at (snd w) i else byte_at (blk ds d B (fst w)) i)"
  using assms(4) by (simp add: byte_at_blk torn_bytes [OF assms(2,3)])

text \<open>A block that differs from what was there in its first sector only is never seen half written.\<close>

lemma torn_first_sector:
  assumes "0 < B" "512 dvd B" "0 < j" "j \<le> B div 512" "length (snd w) = B"
    and "\<And>i. 512 \<le> i \<Longrightarrow> i < B \<Longrightarrow> byte_at (snd w) i = byte_at (blk ds d B (fst w)) i"
  shows "blk (torn_blk d B w j ds) d B (fst w) = snd w"
proof (rule buffer_eqI)
  fix i assume i: "i < length (snd w)"
  show "byte_at (blk (torn_blk d B w j ds) d B (fst w)) i = byte_at (snd w) i"
    using assms(3,5,6) i byte_at_torn [OF assms(1,2,4), of i] by (cases "i < 512") auto
qed (simp add: assms(5))

lemma byte_at_super_with:
  "512 \<le> i \<Longrightarrow> byte_at (super_with b q st) i = byte_at b i"
  by (simp add: super_with_def byte_at_wr_other)

text \<open>\<open>ds'\<close> differs from \<open>ds\<close> at most in the blocks \<open>T\<close> of disk \<open>d\<close>.\<close>

definition agree :: "nat \<Rightarrow> nat \<Rightarrow> nat set \<Rightarrow> disks \<Rightarrow> disks \<Rightarrow> bool" where
  "agree d B T ds ds' \<longleftrightarrow> (\<forall>d' b. \<not> (d' = d \<and> b \<in> T) \<longrightarrow> blk ds' d' B b = blk ds d' B b)"

lemma agree_blk: "agree d B T ds ds' \<Longrightarrow> b \<notin> T \<Longrightarrow> blk ds' d' B b = blk ds d' B b"
  by (simp add: agree_def)

lemma agree_dev: "agree d B T ds ds' \<Longrightarrow> d' \<noteq> d \<Longrightarrow> blk ds' d' B b = blk ds d' B b"
  by (simp add: agree_def)

lemma agree_trans: "agree d B T ds ds' \<Longrightarrow> agree d B U ds' ds'' \<Longrightarrow> agree d B (T \<union> U) ds ds''"
  by (simp add: agree_def)

lemma agree_mono: "agree d B T ds ds' \<Longrightarrow> T \<subseteq> U \<Longrightarrow> agree d B U ds ds'"
  by (auto simp: agree_def)

lemma agree_set_blks: "0 < B \<Longrightarrow> agree d B (fst ` set ws) ds (set_blks d B ws ds)"
  by (auto simp: agree_def blk_set_blks_other)

lemma agree_torn: "0 < B \<Longrightarrow> 512 dvd B \<Longrightarrow> j \<le> B div 512 \<Longrightarrow> agree d B {fst w} ds (torn_blk d B w j ds)"
  by (auto simp: agree_def blk_torn_other)

lemma commit_readyD:
  assumes "commit_ready B s"
  shows "journal_ok B s" "txn_wf s" "g_cur s < length (g_fs s)" "journal_fresh s"
  using assms by (simp_all add: commit_ready_def)

subsection \<open>Recovery from the three kinds of disk\<close>

lemma recover_idle:
  assumes "reopened s ds t" "rd32be (jblk s ds 0) 28 = 0"
  shows "journal_replay t = Some (True, t)" "vdisk t = ds"
  using assms by (simp_all add: reopened_def journal_replay_idle)

lemma ring_write_nth:
  "(jpos s (jfirst s), desc_block s) \<in> set (ring_writes s)"
  "i < length (g_txn s) \<Longrightarrow> (jpos s (jfirst s + 1 + i), escape_block (snd (g_txn s ! i))) \<in> set (ring_writes s)"
  "(jpos s (jfirst s + 1 + length (g_txn s)), commit_block s) \<in> set (ring_writes s)"
  by (auto simp: ring_writes_def set_zip in_set_conv_nth simp del: upt_Suc intro!: exI [of _ i])

text \<open>
  The disk while a commit is live: its blocks are in the ring, the journal superblock points at
  them, and nothing but the ring, that superblock and the blocks of the transaction has changed.
\<close>

definition live_disk :: "vfs \<Rightarrow> disks \<Rightarrow> bool" where
  "live_disk s ds \<longleftrightarrow>
     (\<forall>w \<in> set (ring_writes s). blk ds (gdev s) (bsize s) (fst w) = snd w)
     \<and> jblk s ds 0 = super_live s
     \<and> agree (gdev s) (bsize s) (fst ` set (ring_writes s) \<union> {jpos s 0} \<union> fst ` set (g_txn s)) (vdisk s) ds"

definition idle_disk :: "vfs \<Rightarrow> (nat \<rightharpoonup> bytes) \<Rightarrow> disks \<Rightarrow> bool" where
  "idle_disk s m ds \<longleftrightarrow> rd32be (jblk s ds 0) 28 = 0 \<and> fs_is s m ds"

lemma off_journalD:
  assumes "off_journal s b" "journal_ok B s" "txn_wf s"
  shows "b \<noteq> jpos s 0" "b \<notin> fst ` set (ring_writes s)"
  using assms(1) journal_okD(11,12) [OF assms(2)] ring_write_targets [OF assms(3)]
  unfolding off_journal_def by (force, fastforce)

text \<open>Writing the blocks of the transaction home gives the filesystem with all of it.\<close>

lemma fs_is_home:
  assumes cr: "commit_ready B s"
    and rest: "agree (gdev s) B (fst ` set (ring_writes s) \<union> {jpos s 0} \<union> fst ` set (g_txn s)) (vdisk s) ds"
    and ag: "agree (gdev s) B {jpos s 0} (set_blks (gdev s) B (g_txn s) ds) ds'"
  shows "fs_is s (map_of (g_txn s)) ds'"
  unfolding fs_is_def
proof (intro allI impI)
  note c = commit_readyD [OF cr]
  note okd = journal_okD [OF c(1)] and wfd = txn_wfD [OF c(2)]
  fix d b assume off: "\<not> (d = gdev s \<and> \<not> off_journal s b)"
  let ?new = "(case map_of (g_txn s) b of Some data \<Rightarrow> data | None \<Rightarrow> blk (vdisk s) d (bsize s) b)"
  show "blk ds' d (bsize s) b = (if d = gdev s then ?new else blk (vdisk s) d (bsize s) b)"
  proof (cases "d = gdev s")
    case False
    then show ?thesis using agree_dev [OF ag False] agree_dev [OF rest False] okd(2,4)
      by (simp add: blk_set_blks_other)
  next
    case True
    then have oj: "off_journal s b" using off by simp
    note nj = off_journalD [OF oj c(1,2)]
    have "blk ds' d B b = blk (set_blks (gdev s) B (g_txn s) ds) (gdev s) B b"
      using agree_blk [OF ag, of b d] nj(1) True by simp
    also have "\<dots> = (case map_of (g_txn s) b of Some data \<Rightarrow> data | None \<Rightarrow> blk ds (gdev s) B b)"
      using blk_set_blks [OF okd(4), of "g_txn s" "gdev s" ds b] wfd(1) okd(2)
        map_of_rev_distinct [OF wfd(5)] by simp
    also have "\<dots> = ?new"
      using agree_blk [OF rest, of b d] nj okd(2) map_of_eq_None_iff [of "g_txn s" b] True
      by (cases "map_of (g_txn s) b") simp_all
    finally show ?thesis using True okd(2) by simp
  qed
qed

lemma recover_live:
  assumes cr: "commit_ready B s" and ne: "g_txn s \<noteq> []" and ro: "reopened s ds t" and live: "live_disk s ds"
  obtains u where "journal_replay t = Some (True, u)" "fs_is s (map_of (g_txn s)) (vdisk u)"
    "wlog u = wlog t @ concat (map (block_sectors (gdev s) B) (g_txn s @ [(jpos s 0, super_done s)]))"
proof -
  note c = commit_readyD [OF cr]
  note okd = journal_okD [OF c(1)] and wfd = txn_wfD [OF c(2)]
  have ring: "\<forall>w \<in> set (ring_writes s). blk ds (gdev s) B (fst w) = snd w"
    and sup: "jblk s ds 0 = super_live s"
    and rest: "agree (gdev s) B (fst ` set (ring_writes s) \<union> {jpos s 0} \<union> fst ` set (g_txn s)) (vdisk s) ds"
    using live okd(2) by (simp_all add: live_disk_def)
  let ?n = "length (g_txn s)"
  have t: "vdisk t = ds" "\<not> g_txn_open t" "journal_ok B t" "gdev t = gdev s" "jino t = jino s"
    "jfirst t = jfirst s" "jmax t = jmax s"
    using ro okd(2) by (simp_all add: reopened_def)
  note okt = journal_okD [OF t(3)]
  have bs: "bsize t = bsize s" using okd(2) okt(2) by simp
  have q: "jseq s + 1 < 4294967296" and magic: "rd32be (jblk s (vdisk s) 0) 0 = JBD2_MAGIC"
    using c(4) by (auto simp: journal_fresh_def)
  have sl: "rd32be (super_live s) 24 = jseq s" "rd32be (super_live s) 28 = jfirst s"
    "rd32be (super_live s) 0 = JBD2_MAGIC"
    using okd(2,3,12,13) q magic by (simp_all add: super_live_def super_with_fields)
  have st: "jseq t = jseq s" "jrnl_start (gfs t) = jfirst t"
    using ro sup sl t(6) by (simp_all add: reopened_def)
  have jb: "jblk t (vdisk t) i = jblk s ds i" for i using t bs by simp
  have rb: "jblk s ds i = data" if "(jpos s i, data) \<in> set (ring_writes s)" for i data
    using ring that okd(2) by fastforce
  have rh: "ring_holds t (jseq t) (g_txn s)"
    unfolding ring_holds_def st(1) t(6,7) bs
    using ne wfd q rb [OF ring_write_nth(1)] rb [OF ring_write_nth(2)] rb [OF ring_write_nth(3)]
    by (auto simp: desc_block_def commit_block_def off_journal_def t(1,4,5,7))
  have re: "ring_ends t (jseq t) ?n"
  proof (cases "jfirst s + ?n + 2 = jmax s")
    case True
    then have "jrnl_next (jfirst t + 1 + ?n) t = jfirst t"
      using t(6,7) okd(13) by (simp add: jrnl_next_def)
    moreover have "rd32be (jblk t (vdisk t) (jfirst t)) 8 \<noteq> u32 (jseq t + 1)"
      using ring_desc(3) [OF t(3) rh] q st(1) by simp
    ultimately show ?thesis by (simp add: ring_ends_def Let_def)
  next
    case False
    let ?i = "jfirst s + ?n + 2"
    have i: "?i < jmax s" using False wfd(7) by simp
    have next_i: "jrnl_next (jfirst t + 1 + ?n) t = ?i"
      using jrnl_next_Suc [of "jfirst t + 1 + ?n" t] i t(6,7) okd(13) by simp
    have "jpos s ?i \<noteq> jpos s k" if "k \<le> jfirst s + 1 + ?n" for k
      using jpos_eq_iff [OF c(1) i, of k] that i by simp
    then have "jpos s ?i \<notin> inline_map (jino s) ` {jfirst s .. jfirst s + 1 + ?n} \<union> {jpos s 0}"
      by (simp add: image_iff)
    then have "jpos s ?i \<notin> fst ` set (ring_writes s) \<union> {jpos s 0}"
      using ring_write_indices [of s] by blast
    moreover have "jpos s ?i \<notin> fst ` set (g_txn s)" using wfd(4) [OF _ i] by fastforce
    ultimately have "jblk s ds ?i = jblk s (vdisk s) ?i"
      using agree_blk [OF rest, of "jpos s ?i"] okd(2) by simp
    moreover have "jfirst s \<le> ?i" by simp
    ultimately have "rd32be (jblk s ds ?i) 0 = JBD2_MAGIC \<longrightarrow> rd32be (jblk s ds ?i) 8 \<le> jseq s"
      using c(4) i by (simp only: journal_fresh_def) blast
    then show ?thesis unfolding ring_ends_def next_i jb Let_def st(1) using q by auto
  qed
  obtain u where u: "journal_replay t = Some (True, u)"
    "vdisk u = set_blks (gdev t) B
       (g_txn s @ [(jpos t 0, super_with (jblk t (vdisk t) 0) (u32 (jseq t + 1)) 0)]) (vdisk t)"
    "wlog u = wlog t @ concat (map (block_sectors (gdev t) B)
       (g_txn s @ [(jpos t 0, super_with (jblk t (vdisk t) 0) (u32 (jseq t + 1)) 0)]))"
    by (rule journal_replay_complete [OF t(3,2) rh re st(2)]) (simp add: jb sup sl)
  have final: "(jpos t 0, super_with (jblk t (vdisk t) 0) (u32 (jseq t + 1)) 0) = (jpos s 0, super_done s)"
    using trans [OF jb [of 0] sup] st(1) t(5) by (simp add: super_done_def)
  have "agree (gdev s) B {jpos s 0} (set_blks (gdev s) B (g_txn s) ds) (vdisk u)"
    using agree_set_blks [OF okd(4), of "gdev s" "[(jpos s 0, super_done s)]"]
    unfolding u(2) [unfolded final] t(1,4) by simp
  then have "fs_is s (map_of (g_txn s)) (vdisk u)" by (rule fs_is_home [OF cr rest])
  then show ?thesis using that [OF u(1)] u(3) [unfolded final] t(4) by simp
qed

subsection \<open>Every prefix of a commit recovers\<close>

lemma set_blks_ring:
  assumes "commit_ready B s" "w \<in> set (ring_writes s)"
  shows "blk (set_blks (gdev s) B (ring_writes s) ds) (gdev s) B (fst w) = snd w"
proof -
  note c = commit_readyD [OF assms(1)]
  note okd = journal_okD [OF c(1)] and wfd = txn_wfD [OF c(2)]
  have "map fst (ring_writes s) = map (jpos s) [jfirst s ..< jfirst s + 2 + length (g_txn s)]"
    by (rule nth_equalityI) (auto simp: ring_writes_def nth_Cons nth_append less_Suc_eq simp del: upt_Suc split: nat.splits)
  moreover have "inj_on (jpos s) (set [jfirst s ..< jfirst s + 2 + length (g_txn s)])"
    by (rule inj_on_subset [OF okd(10)]) (use wfd(7) in auto)
  ultimately have dist: "distinct (map fst (ring_writes s))" by (simp add: distinct_map)
  have "map_of (rev (ring_writes s)) (fst w) = Some (snd w)"
    using map_of_rev_distinct [OF dist] dist assms(2) by (simp add: map_of_is_SomeI)
  then show ?thesis
    using blk_set_blks [OF okd(4), of "ring_writes s"] ring_write_lengths [OF c(2)] okd(2) by simp
qed

end
