(* ===== verification/Vfs_Demo.thy ===== *)
theory Vfs_Demo
  imports Vfs_Crash
begin

text \<open>
  A small mounted filesystem for the concrete instances of the theorems: 1 KiB blocks on disk 0, a
  journal of 64 blocks at block 100 described by one extent in its inode, no block cache. Disk
  contents are given by a function; everything else on the disk is zero.
\<close>

definition demo_journal_root :: bytes where
  "demo_journal_root =
     [0x0A, 0xF3, 1, 0, 4, 0, 0, 0, 0, 0, 0, 0,
      0, 0, 0, 0, 64, 0, 0, 0, 100, 0, 0, 0] @ replicate 36 0"

definition demo_journal_inode :: inode where
  "demo_journal_inode = \<lparr>i_mode = 0x8180, i_uid = 0, i_gid = 0, i_size = 65536, i_atime = 0,
     i_ctime = 0, i_mtime = 0, i_block = demo_journal_root\<rparr>"

definition demo_fs :: "nat \<Rightarrow> nat \<Rightarrow> fs" where
  "demo_fs seq start = \<lparr>fs_used = True, fs_at = [47], fs_dev = 0, block_size = 1024, inodes_per_group = 16,
     inode_size = 128, desc_size = 32, first_data_block = 1, blocks_per_group = 8192,
     group_count = 1, gd_block = 2, fs_sb = replicate 1024 0, fs_mounted = True, has_journal = True,
     jrnl_first = 1, jrnl_maxlen = 64, jrnl_seq = seq, jrnl_start = start\<rparr>"

definition demo_disk :: disks where
  "demo_disk d o' =
     (if d = 0 \<and> o' = 102400 then 0xC0 else if d = 0 \<and> o' = 102401 then 0x3B
      else if d = 0 \<and> o' = 102402 then 0x39 else if d = 0 \<and> o' = 102403 then 0x98 else 0)"

definition demo_on :: "disks \<Rightarrow> fs \<Rightarrow> (nat \<times> bytes) list \<Rightarrow> bool \<Rightarrow> vfs" where
  "demo_on ds f txn opened = \<lparr>vdisk = ds, wlog = [], vio = (\<lambda>_. IoOk), vios = 0, ahci_up = False,
     blk2 = False, now_ms = 5000, wall = 1700000000, creds = (\<lambda>_. (0, 0)), mem_usable = None, malloc_ok = True,
     g_fs = [f], g_cur = 0, journal_inode = (\<lambda>_. demo_journal_inode),
     g_cache = (\<lambda>_. 0), g_cache_bytes = 0, g_cache_block = (\<lambda>_. 0), g_cache_dev = (\<lambda>_. 0),
     g_cache_full = (\<lambda>_. False), g_cache_slots = 0, g_txn_open = opened, g_txn_bypass = False,
     g_txn_started = 4900, g_txn = txn\<rparr>"

abbreviation demo_vfs :: "(nat \<times> bytes) list \<Rightarrow> bool \<Rightarrow> vfs" where
  "demo_vfs \<equiv> demo_on demo_disk (demo_fs 1 0)"

definition demo_commit :: vfs where
  "demo_commit = demo_vfs [(5, replicate 1024 7)] True"

text \<open>The disk once the journal superblock points at that commit and nothing is written home yet.\<close>

definition demo_crash :: disks where
  "demo_crash = set_blks 0 1024 (ring_writes demo_commit @ [(jpos demo_commit 0, super_live demo_commit)]) demo_disk"

lemma demo_inline_root: "inline_root demo_journal_inode"
  by (simp add: inline_root_def demo_journal_inode_def demo_journal_root_def rd16_def byte_at_def)

lemma demo_inline_map: "i < 64 \<Longrightarrow> inline_map demo_journal_inode i = 100 + i"
  by (simp add: inline_map_def demo_journal_inode_def demo_journal_root_def rd16_def rd32_def byte_at_def Let_def)

lemma demo_journal_ok: "journal_ok 1024 (demo_on ds (demo_fs q st) txn opened)"
proof -
  have inj: "inj_on (inline_map demo_journal_inode) {..< 64}"
    by (rule inj_onI) (simp add: demo_inline_map)
  show ?thesis
    by (simp add: journal_ok_def journal_geometry_def block_layer_ok_def drivers_ok_def cache_coherent_def
        demo_on_def demo_fs_def demo_inline_root demo_inline_map inj BLK_AHCI_BASE_def)
qed

lemma demo_fresh: "journal_fresh (demo_vfs txn opened)"
proof -
  have sup: "rd32be (blk demo_disk 0 1024 100) 0 = 3225106840" "rd32be (blk demo_disk 0 1024 100) 28 = 0"
    by (simp_all add: rd32be_def byte_at_blk demo_disk_def)
  have "rd32be (blk demo_disk 0 1024 b) 0 = 0" if "b \<noteq> 100" for b
  proof -
    have "b * 1024 + i \<noteq> 102400 + j" if "i < 1024" "j < 1024" for i j using \<open>b \<noteq> 100\<close> that by linarith
    from this [of _ 0] this [of _ 1] this [of _ 2] this [of _ 3] that show ?thesis
      by (simp add: rd32be_def byte_at_blk demo_disk_def)
  qed
  then show ?thesis
    by (auto simp: journal_fresh_def demo_on_def demo_fs_def demo_inline_map JBD2_MAGIC_def sup)
qed

lemma demo_ready:
  "commit_ready 1024 demo_commit"
  unfolding demo_commit_def using demo_journal_ok demo_fresh
  by (simp add: commit_ready_def txn_wf_def)
    (auto simp: demo_on_def demo_fs_def TXN_MAX_def demo_inline_map)

lemma demo_commit_fields:
  "g_txn demo_commit = [(5, replicate 1024 7)]" "jseq demo_commit = 1" "jfirst demo_commit = 1"
  "gdev demo_commit = 0" "vdisk demo_commit = demo_disk" "bsize demo_commit = 1024"
  by (simp_all add: demo_commit_def demo_on_def demo_fs_def)

end
