(* ===== verification/Vfs_Recovery.thy ===== *)
theory Vfs_Recovery
  imports Vfs_Demo
begin

text \<open>
  The crash theorem of \<^verbatim>\<open>vfsd.c\<close>'s journal: whichever sector of a commit is the last to reach the
  disk, \<^verbatim>\<open>journal_replay\<close> brings back the filesystem from before the transaction or the one with
  all of it. The cases follow the order of the writes of \<^verbatim>\<open>txn_flush\<close>.
\<close>

section \<open>The disks from which recovery works\<close>

definition recoverable :: "vfs \<Rightarrow> disks \<Rightarrow> bool" where
  "recoverable s ds \<longleftrightarrow>
     idle_disk s Map.empty ds \<or> live_disk s ds \<or> idle_disk s (map_of (g_txn s)) ds"

lemma jpos0_not_ring:
  assumes "journal_ok B s"
  shows "jpos s 0 \<notin> inline_map (jino s) ` {jfirst s ..< jmax s}"
proof
  assume "jpos s 0 \<in> inline_map (jino s) ` {jfirst s ..< jmax s}"
  then obtain i where "jpos s 0 = jpos s i" "jfirst s \<le> i" "i < jmax s" by auto
  then show False using jpos_eq_iff [OF assms, of 0 i] journal_okD(11,12) [OF assms] by simp
qed

lemma fs_is_empty:
  assumes "agree (gdev s) (bsize s) T (vdisk s) ds" "\<forall>b. off_journal s b \<longrightarrow> b \<notin> T"
  shows "fs_is s Map.empty ds"
  unfolding fs_is_def
proof (intro allI impI)
  fix d b assume "\<not> (d = gdev s \<and> \<not> off_journal s b)"
  then have "blk ds d (bsize s) b = blk (vdisk s) d (bsize s) b"
    using assms by (auto simp: agree_def)
  then show "blk ds d (bsize s) b =
      (if d = gdev s then case Map.empty b of None \<Rightarrow> blk (vdisk s) d (bsize s) b | Some data \<Rightarrow> data
       else blk (vdisk s) d (bsize s) b)" by simp
qed

lemma idle_before:
  assumes cr: "commit_ready B s" and ag: "agree (gdev s) B T (vdisk s) ds"
    and T: "T \<subseteq> inline_map (jino s) ` {jfirst s ..< jmax s}"
  shows "idle_disk s Map.empty ds"
proof -
  note c = commit_readyD [OF cr]
  note okd = journal_okD [OF c(1)]
  have "jpos s 0 \<notin> T" using T jpos0_not_ring [OF c(1)] by blast
  then have "jblk s ds 0 = jblk s (vdisk s) 0" using agree_blk [OF ag] okd(2) by simp
  then have "rd32be (jblk s ds 0) 28 = 0" using c(4) by (simp only: journal_fresh_def)
  moreover have "\<forall>b. off_journal s b \<longrightarrow> b \<notin> T" using T by (auto simp: off_journal_def)
  then have "fs_is s Map.empty ds" using fs_is_empty [of s T ds] ag okd(2) by simp
  ultimately show ?thesis by (simp add: idle_disk_def)
qed

text \<open>A live disk stays live while blocks of the transaction are written home.\<close>

lemma live_home:
  assumes cr: "commit_ready B s" and live: "live_disk s ds0"
    and home: "agree (gdev s) B H ds0 ds" "H \<subseteq> fst ` set (g_txn s)"
  shows "live_disk s ds"
proof -
  note c = commit_readyD [OF cr]
  note okd = journal_okD [OF c(1)] and wfd = txn_wfD [OF c(2)]
  have off: "jpos s i \<notin> H" if "i < jmax s" for i using home(2) wfd(4) [OF _ that] by fastforce
  have "blk ds (gdev s) B (fst w) = snd w" if w: "w \<in> set (ring_writes s)" for w
  proof -
    have "fst w \<in> inline_map (jino s) ` {jfirst s ..< jmax s}" using ring_write_targets [OF c(2)] w by blast
    then have "fst w \<notin> H" using off by auto
    then show ?thesis using agree_blk [OF home(1)] live w okd(2) by (simp add: live_disk_def)
  qed
  moreover have "jblk s ds 0 = super_live s"
    using agree_blk [OF home(1) off [of 0], of "gdev s"] live okd(2,12) by (simp add: live_disk_def)
  moreover have "agree (gdev s) B (fst ` set (ring_writes s) \<union> {jpos s 0} \<union> fst ` set (g_txn s)) (vdisk s) ds"
    by (rule agree_mono [OF agree_trans [OF _ home(1)]]) (use live okd(2) home(2) in \<open>auto simp: live_disk_def\<close>)
  ultimately show ?thesis using okd(2) by (simp add: live_disk_def)
qed

lemma live_pointed:
  assumes cr: "commit_ready B s" and sup: "jblk s ds 0 = super_live s"
    and ring: "agree (gdev s) B {jpos s 0} (set_blks (gdev s) B (ring_writes s) (vdisk s)) ds"
  shows "live_disk s ds"
proof -
  note c = commit_readyD [OF cr]
  note okd = journal_okD [OF c(1)]
  have "blk ds (gdev s) B (fst w) = snd w" if w: "w \<in> set (ring_writes s)" for w
  proof -
    have "fst w \<in> inline_map (jino s) ` {jfirst s ..< jmax s}" using ring_write_targets [OF c(2)] w by blast
    then have "fst w \<noteq> jpos s 0" using jpos0_not_ring [OF c(1)] by metis
    then show ?thesis using agree_blk [OF ring, of "fst w"] set_blks_ring [OF cr w] by simp
  qed
  moreover have "agree (gdev s) B (fst ` set (ring_writes s) \<union> {jpos s 0} \<union> fst ` set (g_txn s)) (vdisk s) ds"
    by (rule agree_mono [OF agree_trans [OF agree_set_blks ring]]) (use okd(4) in auto)
  ultimately show ?thesis using sup okd(2) by (simp add: live_disk_def)
qed

section \<open>Where a crash can fall\<close>

text \<open>The journal superblock differs from its earlier version in the first sector only.\<close>

lemma torn_super:
  assumes ok: "journal_ok B s" and "0 < j" "j \<le> B div 512"
    and old: "jblk s ds 0 = old"
  shows "jblk s (torn_blk (gdev s) B (jpos s 0, super_with old q st) j ds) 0 = super_with old q st"
proof -
  note okd = journal_okD [OF ok]
  have l: "length old = B" using old okd(2) by auto
  then show ?thesis
    using torn_first_sector [OF okd(4,5) assms(2,3), of "(jpos s 0, super_with old q st)" ds "gdev s"]
      old okd(2) by (simp add: byte_at_super_with)
qed

lemma super_after_ring:
  assumes cr: "commit_ready B s"
  shows "jblk s (set_blks (gdev s) B (ring_writes s) (vdisk s)) 0 = jblk s (vdisk s) 0"
proof -
  note c = commit_readyD [OF cr]
  note okd = journal_okD [OF c(1)]
  have "jpos s 0 \<notin> fst ` set (ring_writes s)" using ring_write_targets [OF c(2)] jpos0_not_ring [OF c(1)] by blast
  then show ?thesis using okd(2,4) by (simp add: blk_set_blks_other)
qed

lemma live_torn_super:
  assumes cr: "commit_ready B s" and j: "0 < j" "j \<le> B div 512"
  shows "live_disk s (torn_blk (gdev s) B (jpos s 0, super_live s) j (set_blks (gdev s) B (ring_writes s) (vdisk s)))"
    (is "live_disk s ?ds")
proof (rule live_pointed [OF cr])
  note okd = journal_okD [OF commit_readyD(1) [OF cr]]
  show "jblk s ?ds 0 = super_live s"
    using torn_super [OF commit_readyD(1) [OF cr] j super_after_ring [OF cr]] unfolding super_live_def by simp
  show "agree (gdev s) B {jpos s 0} (set_blks (gdev s) B (ring_writes s) (vdisk s)) ?ds"
    using agree_torn [OF okd(4,5) j(2), of _ "(jpos s 0, super_live s)"] by simp
qed

lemma live_after_super:
  assumes cr: "commit_ready B s"
  shows "live_disk s (set_blks (gdev s) B (ring_writes s @ [(jpos s 0, super_live s)]) (vdisk s))"
proof (rule live_pointed [OF cr])
  note okd = journal_okD [OF commit_readyD(1) [OF cr]]
  show "jblk s (set_blks (gdev s) B (ring_writes s @ [(jpos s 0, super_live s)]) (vdisk s)) 0 = super_live s"
    using okd(2) by simp
  show "agree (gdev s) B {jpos s 0} (set_blks (gdev s) B (ring_writes s) (vdisk s))
      (set_blks (gdev s) B (ring_writes s @ [(jpos s 0, super_live s)]) (vdisk s))"
    using agree_set_blks [OF okd(4), of "gdev s" "[(jpos s 0, super_live s)]"] by simp
qed

text \<open>
  The part of a commit that recovery repeats: from any live disk, a crash while the blocks are
  written home or the journal is marked empty leaves a disk that recovery handles.
\<close>

lemma closing_recoverable:
  assumes cr: "commit_ready B s" and live: "live_disk s ds"
  shows "recoverable s (crash_disk (gdev s) B (g_txn s @ [(jpos s 0, super_done s)]) k ds)"
proof -
  note c = commit_readyD [OF cr]
  note okd = journal_okD [OF c(1)]
  let ?d = "gdev s"
  obtain ws1 w ws2 j where sp: "g_txn s @ [(jpos s 0, super_done s)] = ws1 @ w # ws2" and j: "j \<le> B div 512"
    and crash: "crash_disk ?d B (g_txn s @ [(jpos s 0, super_done s)]) k ds = torn_blk ?d B w j (set_blks ?d B ws1 ds)"
    by (rule crash_disk_split [OF okd(5), of "g_txn s @ [(jpos s 0, super_done s)]" ?d k ds]) simp_all
  note torn = agree_torn [OF okd(4,5) j, of ?d w "set_blks ?d B ws1 ds"]
  note earlier = agree_set_blks [OF okd(4), of ?d ws1 ds]
  consider (home) "set ws1 \<union> {w} \<subseteq> set (g_txn s)" | (closing) "ws1 = g_txn s" "w = (jpos s 0, super_done s)"
    using sp by (auto simp: append_eq_append_conv2 append_eq_Cons_conv Cons_eq_append_conv; blast)
  then show ?thesis
  proof cases
    case home
    have "live_disk s (torn_blk ?d B w j (set_blks ?d B ws1 ds))"
      by (rule live_home [OF cr live agree_trans [OF earlier torn]]) (use home in auto)
    then show ?thesis by (simp add: crash recoverable_def)
  next
    case closing
    have still: "live_disk s (set_blks ?d B ws1 ds)"
      by (rule live_home [OF cr live earlier]) (use closing in auto)
    have "idle_disk s (map_of (g_txn s)) (torn_blk ?d B w j (set_blks ?d B ws1 ds))" if "0 < j"
    proof -
      have "jblk s (set_blks ?d B ws1 ds) 0 = super_live s" using still by (simp add: live_disk_def)
      then have "jblk s (torn_blk ?d B w j (set_blks ?d B ws1 ds)) 0 = super_done s"
        using torn_super [OF c(1) that j, of "set_blks ?d B ws1 ds"] unfolding closing super_done_def by simp
      moreover have "rd32be (super_done s) 28 = 0"
        using okd(2,3) by (simp add: super_done_def super_with_fields)
      moreover have "fs_is s (map_of (g_txn s)) (torn_blk ?d B w j (set_blks ?d B ws1 ds))"
        using fs_is_home [OF cr, of ds] torn live okd(2) unfolding closing by (simp add: live_disk_def)
      ultimately show ?thesis by (simp add: idle_disk_def)
    qed
    then show ?thesis using still by (cases "j = 0") (simp_all add: crash recoverable_def)
  qed
qed

lemma ring_recoverable:
  assumes cr: "commit_ready B s" and sp: "ring_writes s @ [(jpos s 0, super_live s)] = ws1 @ w # ws2"
    and j: "j \<le> B div 512"
  shows "recoverable s (torn_blk (gdev s) B w j (set_blks (gdev s) B ws1 (vdisk s)))"
proof -
  note c = commit_readyD [OF cr]
  note okd = journal_okD [OF c(1)] and targets = ring_write_targets [OF commit_readyD(2) [OF cr]]
  note torn = agree_torn [OF okd(4,5) j, of "gdev s" w "set_blks (gdev s) B ws1 (vdisk s)"]
  note earlier = agree_set_blks [OF okd(4), of "gdev s" ws1 "vdisk s"]
  consider (ring) "set ws1 \<union> {w} \<subseteq> set (ring_writes s)" | (live) "ws1 = ring_writes s" "w = (jpos s 0, super_live s)"
    using sp by (auto simp: append_eq_append_conv2 append_eq_Cons_conv Cons_eq_append_conv; blast)
  then show ?thesis
  proof cases
    case ring
    have "idle_disk s Map.empty (torn_blk (gdev s) B w j (set_blks (gdev s) B ws1 (vdisk s)))"
      by (rule idle_before [OF cr agree_trans [OF earlier torn]]) (use ring targets in auto)
    then show ?thesis by (simp add: recoverable_def)
  next
    case live
    have "idle_disk s Map.empty (set_blks (gdev s) B ws1 (vdisk s))"
      by (rule idle_before [OF cr earlier]) (use live targets in auto)
    then show ?thesis
      using live_torn_super [OF cr _ j] live by (cases "j = 0") (simp_all add: recoverable_def)
  qed
qed

lemma commit_recoverable:
  assumes cr: "commit_ready B s"
  shows "recoverable s (crash_disk (gdev s) B (flush_writes s) k (vdisk s))"
proof -
  note c = commit_readyD [OF cr]
  note okd = journal_okD [OF c(1)]
  let ?d = "gdev s" and ?ring = "ring_writes s @ [(jpos s 0, super_live s)]"
  let ?close = "g_txn s @ [(jpos s 0, super_done s)]"
  let ?n = "length (concat (map (block_sectors ?d B) ?ring))"
  have fl: "flush_writes s = ?ring @ ?close" by (simp add: flush_writes_def)
  have full: "crash_disk ?d B ?ring ?n (vdisk s) = set_blks ?d B ?ring (vdisk s)"
    unfolding crash_disk_def take_all [OF order_refl] by (rule apply_concat_blocks [OF okd(5)])
  show ?thesis
  proof (cases "k \<le> ?n")
    case True
    then have "crash_disk ?d B (flush_writes s) k (vdisk s) = crash_disk ?d B ?ring k (vdisk s)"
      by (simp add: crash_disk_def fl)
    moreover obtain ws1 w ws2 j where sp: "?ring = ws1 @ w # ws2" and j: "j \<le> B div 512"
      and crash: "crash_disk ?d B ?ring k (vdisk s) = torn_blk ?d B w j (set_blks ?d B ws1 (vdisk s))"
      by (rule crash_disk_split [OF okd(5), of ?ring ?d k "vdisk s"]) simp_all
    ultimately show ?thesis using ring_recoverable [OF cr sp j] by simp
  next
    case False
    then have "crash_disk ?d B (flush_writes s) k (vdisk s)
        = crash_disk ?d B ?close (k - ?n) (set_blks ?d B ?ring (vdisk s))"
      using full by (simp add: crash_disk_def fl apply_writes_append)
    then show ?thesis using closing_recoverable [OF cr live_after_super [OF cr]] by simp
  qed
qed

section \<open>Ready for the next commit\<close>

text \<open>What a commit leaves in the ring: no header with a sequence number above its own.\<close>

lemma ring_write_seq:
  assumes cr: "commit_ready B s" and w: "w \<in> set (ring_writes s)"
    and magic: "rd32be (snd w) 0 = JBD2_MAGIC"
  shows "rd32be (snd w) 8 \<le> jseq s"
proof -
  note c = commit_readyD [OF cr]
  note okd = journal_okD [OF c(1)] and wfd = txn_wfD [OF c(2)]
  consider "snd w = desc_block s" | "snd w = commit_block s" | e where "e \<in> set (g_txn s)" "snd w = escape_block (snd e)"
    using w by (auto simp: ring_writes_def dest: set_zip_rightD)
  then show ?thesis
  proof cases
    case 3
    then show ?thesis using magic escape_not_magic wfd(1) okd(2,3) by simp
  qed (use okd(2,3) in \<open>simp_all add: desc_block_def commit_block_def rd32be_put_tags_before jrnl_header_fields\<close>)
qed

lemma jblk_flushed:
  assumes cr: "commit_ready B s"
  shows "jblk s (set_blks (gdev s) B (flush_writes s) (vdisk s)) 0 = super_done s"
    "jfirst s \<le> i \<Longrightarrow> i < jmax s \<Longrightarrow> jblk s (set_blks (gdev s) B (flush_writes s) (vdisk s)) i =
       jblk s (set_blks (gdev s) B (ring_writes s) (vdisk s)) i"
proof -
  note c = commit_readyD [OF cr]
  note okd = journal_okD [OF c(1)] and wfd = txn_wfD [OF c(2)]
  show "jblk s (set_blks (gdev s) B (flush_writes s) (vdisk s)) 0 = super_done s"
    using okd(2) by (simp add: flush_writes_def)
  assume i: "jfirst s \<le> i" "i < jmax s"
  have "jpos s i \<notin> fst ` set (g_txn s)" using wfd(4) [OF _ i(2)] by force
  moreover have "jpos s i \<noteq> jpos s 0" using jpos_eq_iff [OF c(1) i(2), of 0] i okd(11) by simp
  ultimately show "jblk s (set_blks (gdev s) B (flush_writes s) (vdisk s)) i =
      jblk s (set_blks (gdev s) B (ring_writes s) (vdisk s)) i"
    using okd(2,4) by (simp add: flush_writes_def blk_set_blks_other blk_set_blk_other)
qed

lemma ring_flushed_seq:
  assumes cr: "commit_ready B s" and i: "jfirst s \<le> i" "i < jmax s"
    and magic: "rd32be (jblk s (set_blks (gdev s) B (ring_writes s) (vdisk s)) i) 0 = JBD2_MAGIC"
  shows "rd32be (jblk s (set_blks (gdev s) B (ring_writes s) (vdisk s)) i) 8 \<le> jseq s"
proof (cases "jpos s i \<in> fst ` set (ring_writes s)")
  note okd = journal_okD [OF commit_readyD(1) [OF cr]]
  case True
  then obtain w where w: "w \<in> set (ring_writes s)" "jpos s i = fst w" by auto
  then show ?thesis using ring_write_seq [OF cr w(1)] magic set_blks_ring [OF cr w(1)] okd(2) by simp
next
  note okd = journal_okD [OF commit_readyD(1) [OF cr]]
  case False
  then show ?thesis
    using commit_readyD(4) [OF cr] i magic okd(2,4) by (simp add: journal_fresh_def blk_set_blks_other)
qed

lemma flush_ready:
  assumes cr: "commit_ready B s" and ne: "g_txn s \<noteq> []" and room: "jseq s + 2 < 4294967296"
  obtains s' where "txn_flush s = Some (True, s')" "commit_ready B s'" "g_txn s' = []"
    "wlog s' = wlog s @ concat (map (block_sectors (gdev s) B) (flush_writes s))"
    "vdisk s' = set_blks (gdev s) B (flush_writes s) (vdisk s)"
    "g_cur s' = g_cur s" "g_fs s' = (g_fs s)[g_cur s := (gfs s)\<lparr>jrnl_seq := jseq s + 1\<rparr>]"
    "g_txn_open s' = g_txn_open s" "journal_inode s' = journal_inode s"
proof -
  note c = commit_readyD [OF cr]
  note okd = journal_okD [OF c(1)] and wfd = txn_wfD [OF c(2)]
  have magic: "rd32be (jblk s (vdisk s) 0) 0 = JBD2_MAGIC" using c(4) by (simp add: journal_fresh_def)
  obtain s' where s': "txn_flush s = Some (True, s')"
    "vdisk s' = set_blks (gdev s) B (flush_writes s) (vdisk s)"
    "wlog s' = wlog s @ concat (map (block_sectors (gdev s) B) (flush_writes s))"
    "g_fs s' = (g_fs s)[g_cur s := (gfs s)\<lparr>jrnl_seq := u32 (jseq s + 1)\<rparr>]"
    "g_cur s' = g_cur s" "g_txn s' = []" "g_txn_open s' = g_txn_open s"
    "journal_inode s' = journal_inode s" "journal_ok B s'"
    using txn_flush_wrote [OF c(1,2) ne c(3) magic] by metis
  have g: "gfs s' = (gfs s)\<lparr>jrnl_seq := jseq s + 1\<rparr>" using s'(4,5) c(3) room by simp
  have j: "jblk s' (vdisk s') i = jblk s (set_blks (gdev s) B (flush_writes s) (vdisk s)) i" for i
    using g s'(2,5,8) by simp
  have "rd32be (super_done s) 28 = 0" "rd32be (super_done s) 0 = JBD2_MAGIC"
    using okd(2,3) magic by (simp_all add: super_done_def super_live_def super_with_fields)
  then have "journal_fresh s'"
    unfolding journal_fresh_def j using g room jblk_flushed [OF cr] ring_flushed_seq [OF cr]
    by (auto intro: le_SucI)
  then have "commit_ready B s'"
    using s' g c(3) wfd(7) by (simp add: commit_ready_def txn_wf_def)
  then show ?thesis using that s' room by simp
qed

section \<open>Crashes of a commit, and of the recovery from them\<close>

text \<open>
  The disks that power failures can leave behind: a prefix of the sectors of the commit, and from
  such a disk a prefix of the sectors the recovery writes, any number of times.
\<close>

inductive crash_state :: "vfs \<Rightarrow> disks \<Rightarrow> bool" for s where
  commit: "txn_flush s = Some (True, s') \<Longrightarrow>
    crash_state s (apply_writes (take k (drop (length (wlog s)) (wlog s'))) (vdisk s))"
| recovery: "crash_state s ds \<Longrightarrow> reopened s ds t \<Longrightarrow> journal_replay t = Some (True, u) \<Longrightarrow>
    crash_state s (apply_writes (take k (drop (length (wlog t)) (wlog u))) ds)"

lemma replay_recoverable:
  assumes cr: "commit_ready B s" and ne: "g_txn s \<noteq> []" and rec: "recoverable s ds" and t: "reopened s ds t"
  obtains u where "journal_replay t = Some (True, u)"
    "fs_is s Map.empty (vdisk u) \<or> fs_is s (map_of (g_txn s)) (vdisk u)"
    "\<And>k. recoverable s (apply_writes (take k (drop (length (wlog t)) (wlog u))) ds)"
proof (cases "live_disk s ds")
  case True
  obtain u where u: "journal_replay t = Some (True, u)" "fs_is s (map_of (g_txn s)) (vdisk u)"
    "wlog u = wlog t @ concat (map (block_sectors (gdev s) B) (g_txn s @ [(jpos s 0, super_done s)]))"
    by (rule recover_live [OF cr ne t True])
  then show ?thesis using that closing_recoverable [OF cr True] by (simp add: crash_disk_def)
next
  case False
  then have idle: "rd32be (jblk s ds 0) 28 = 0"
    and fs: "fs_is s Map.empty ds \<or> fs_is s (map_of (g_txn s)) ds"
    using rec by (auto simp: recoverable_def idle_disk_def)
  show ?thesis
    by (rule that [OF recover_idle(1) [OF t idle]]) (use recover_idle(2) [OF t idle] fs rec in simp_all)
qed

lemma crash_state_recoverable:
  assumes "commit_ready B s" "g_txn s \<noteq> []" "jseq s + 2 < 4294967296" "crash_state s ds"
  shows "recoverable s ds"
  using assms(4)
proof (induction rule: crash_state.induct)
  case (commit s' k)
  obtain s'' where "txn_flush s = Some (True, s'')"
    "wlog s'' = wlog s @ concat (map (block_sectors (gdev s) B) (flush_writes s))"
    by (rule flush_ready [OF assms(1-3)])
  then show ?case using commit commit_recoverable [OF assms(1)] by (simp add: crash_disk_def)
next
  case (recovery ds t u k)
  then show ?case by (metis replay_recoverable [OF assms(1,2)] option.inject prod.inject)
qed

text \<open>
  C1. Crash safety of the journal. The server commits a transaction; the power fails after any
  number of sectors of it, possibly in the middle of a block, and again during recovery, any
  number of times. A server that then reopens the filesystem completes its recovery, and the
  filesystem outside the journal is the one from before the transaction or the one with every
  block of it in place; no other disk of the machine has changed.
\<close>

theorem commit_crash_safe:
  assumes "commit_ready B s" "g_txn s \<noteq> []" "jseq s + 2 < 4294967296"
    and "crash_state s ds" "reopened s ds t"
  shows "\<exists>u. journal_replay t = Some (True, u) \<and>
    (fs_is s Map.empty (vdisk u) \<or> fs_is s (map_of (g_txn s)) (vdisk u))"
  using replay_recoverable [OF assms(1,2) crash_state_recoverable [OF assms(1-4)] assms(5)] by metis

lemma demo_crash_state:
  "crash_state demo_commit demo_crash" "reopened demo_commit demo_crash (demo_on demo_crash (demo_fs 1 1) [] False)"
proof -
  note f = demo_commit_fields
  let ?ring = "concat (map (block_sectors 0 1024) (ring_writes demo_commit @ [(jpos demo_commit 0, super_live demo_commit)]))"
  obtain s' where s': "txn_flush demo_commit = Some (True, s')"
    "wlog s' = wlog demo_commit @ concat (map (block_sectors (gdev demo_commit) 1024) (flush_writes demo_commit))"
    by (rule flush_ready [OF demo_ready]) (simp_all add: f)
  have "take (length ?ring) (drop (length (wlog demo_commit)) (wlog s')) = ?ring"
    using s'(2) by (simp add: flush_writes_def f)
  moreover have "apply_writes ?ring (vdisk demo_commit) = demo_crash"
    unfolding f demo_crash_def by (rule apply_concat_blocks) simp
  ultimately show "crash_state demo_commit demo_crash"
    using crash_state.commit [OF s'(1), of "length ?ring"] by argo
  have "jblk demo_commit demo_crash 0 = super_live demo_commit"
    using live_after_super [OF demo_ready] f by (simp add: live_disk_def demo_crash_def)
  then have "rd32be (jblk demo_commit demo_crash 0) 24 = 1" "rd32be (jblk demo_commit demo_crash 0) 28 = 1"
    unfolding super_live_def by (simp_all add: super_with_fields f)
  then show "reopened demo_commit demo_crash (demo_on demo_crash (demo_fs 1 1) [] False)"
    using demo_journal_ok by (simp add: reopened_def f) (simp add: demo_commit_def demo_on_def demo_fs_def)
qed

theorem commit_crash_safe_witness:
  "\<exists>u. journal_replay (demo_on demo_crash (demo_fs 1 1) [] False) = Some (True, u) \<and>
    (fs_is demo_commit Map.empty (vdisk u) \<or> fs_is demo_commit [5 \<mapsto> replicate 1024 7] (vdisk u))"
  using commit_crash_safe [OF demo_ready _ _ demo_crash_state] by (simp add: demo_commit_fields)

text \<open>What a commit leaves on the disk, outside the journal.\<close>

lemma flushed_home:
  assumes "commit_ready B s" "vdisk s' = set_blks (gdev s) B (flush_writes s) (vdisk s)"
  shows "fs_is s (map_of (g_txn s)) (vdisk s')"
proof -
  note okd = journal_okD [OF commit_readyD(1) [OF assms(1)]]
  let ?ds = "set_blks (gdev s) B (ring_writes s @ [(jpos s 0, super_live s)]) (vdisk s)"
  have "agree (gdev s) B {jpos s 0} (set_blks (gdev s) B (g_txn s) ?ds) (vdisk s')"
    using agree_set_blks [OF okd(4), of "gdev s" "[(jpos s 0, super_done s)]"]
    unfolding assms(2) by (simp add: flush_writes_def)
  then show ?thesis
    by (rule fs_is_home [OF assms(1), rotated])
      (use live_after_super [OF assms(1)] okd(2) in \<open>simp add: live_disk_def\<close>)
qed

text \<open>
  C2. A commit that returns is durable: \<^verbatim>\<open>txn_flush\<close> succeeds, every block of the transaction is in
  place on the disk and nothing else outside the journal has changed, and the journal is again
  in the state from which the next transaction can be committed.
\<close>

theorem commit_durable:
  assumes "commit_ready B s" "g_txn s \<noteq> []" "jseq s + 2 < 4294967296"
  shows "\<exists>s'. txn_flush s = Some (True, s') \<and> fs_is s (map_of (g_txn s)) (vdisk s')
    \<and> commit_ready B s' \<and> g_txn s' = []"
  using flush_ready [OF assms] flushed_home [OF assms(1)] by metis

theorem commit_durable_witness:
  "\<exists>s'. txn_flush demo_commit = Some (True, s') \<and> fs_is demo_commit [5 \<mapsto> replicate 1024 7] (vdisk s')
    \<and> commit_ready 1024 s' \<and> g_txn s' = []"
  using commit_durable [OF demo_ready] by (simp add: demo_commit_fields)

end
