(* ===== verification/Vfs_Alloc.thy ===== *)
theory Vfs_Alloc
  imports Vfs_Journal
begin

text \<open>
  Free space and inodes of \<^verbatim>\<open>user/vfsd.c\<close>: group descriptors, the superblock kept in memory, the
  bitmaps (\<^verbatim>\<open>alloc_from\<close>, \<^verbatim>\<open>alloc_block\<close>, \<^verbatim>\<open>alloc_inode\<close>, \<^verbatim>\<open>free_block\<close>) and the inode table
  (\<^verbatim>\<open>read_inode\<close>, \<^verbatim>\<open>inode_location\<close>, \<^verbatim>\<open>inode_links\<close>, \<^verbatim>\<open>write_inode\<close>, \<^verbatim>\<open>touch_inode\<close>).

  A copy that would leave the block it is made from, or a descriptor that would not fit into the
  64 bytes the callers have for it, is \<open>None\<close>, and so is a division by a block size of zero.
\<close>

section \<open>Superblock and group descriptors\<close>

definition write_superblock :: "vfs \<Rightarrow> (bool \<times> vfs) option" where
  "write_superblock s =
     (if bsize s = 0 then None
      else let block = 1024 div bsize s; within = 1024 mod bsize s in do {
        (got, s) \<leftarrow> read_block block s;
        (case got of
           None \<Rightarrow> Some (False, s)
         | Some whole \<Rightarrow> write_block block (overlay whole within (fs_sb (gfs s))) s) })"

definition read_group_desc :: "nat \<Rightarrow> vfs \<Rightarrow> (bytes option \<times> vfs) option" where
  "read_group_desc grp s =
     (if bsize s = 0 then None
      else let byte0 = grp * desc_size (gfs s) in do {
        (got, s) \<leftarrow> read_block (gd_block (gfs s) + byte0 div bsize s) s;
        (case got of
           None \<Rightarrow> Some (None, s)
         | Some b \<Rightarrow>
             if desc_size (gfs s) > 64 \<or> byte0 mod bsize s + desc_size (gfs s) > bsize s then None
             else Some (Some (slice b (byte0 mod bsize s) (desc_size (gfs s))), s)) })"

definition write_group_desc :: "nat \<Rightarrow> bytes \<Rightarrow> vfs \<Rightarrow> (bool \<times> vfs) option" where
  "write_group_desc grp desc s =
     (if bsize s = 0 then None
      else let byte0 = grp * desc_size (gfs s); block = gd_block (gfs s) + byte0 div bsize s in do {
        (got, s) \<leftarrow> read_block block s;
        (case got of
           None \<Rightarrow> Some (False, s)
         | Some b \<Rightarrow>
             if desc_size (gfs s) > 64 \<or> byte0 mod bsize s + desc_size (gfs s) > bsize s then None
             else write_block block (overlay b (byte0 mod bsize s) desc) s) })"

section \<open>Bitmaps\<close>

definition bit_set :: "bytes \<Rightarrow> nat \<Rightarrow> bool" where
  "bit_set bm i = bit (byte_at bm (i div 8)) (i mod 8)"

definition set_bit_at :: "bytes \<Rightarrow> nat \<Rightarrow> bytes" where
  "set_bit_at bm i = bm[i div 8 := byte_at bm (i div 8) OR push_bit (i mod 8) 1]"

definition clear_bit_at :: "bytes \<Rightarrow> nat \<Rightarrow> bytes" where
  "clear_bit_at bm i = bm[i div 8 := byte_at bm (i div 8) AND NOT (push_bit (i mod 8) 1)]"

text \<open>
  The loop of \<^verbatim>\<open>alloc_from\<close>: the first clear bit below the limit. The outer \<open>None\<close> is a bitmap too
  short for the limit, the inner one a full bitmap.
\<close>

fun find_clear :: "bytes \<Rightarrow> nat list \<Rightarrow> nat option option" where
  "find_clear bm [] = Some None"
| "find_clear bm (i # is) =
     (if i div 8 \<ge> length bm then None
      else if bit_set bm i then find_clear bm is
      else Some (Some i))"

definition upd_sb :: "(bytes \<Rightarrow> bytes) \<Rightarrow> vfs \<Rightarrow> vfs" where
  "upd_sb f s = upd_fs (\<lambda>fs. fs\<lparr>fs_sb := f (fs_sb fs)\<rparr>) s"

definition alloc_from :: "nat \<Rightarrow> nat \<Rightarrow> nat \<Rightarrow> nat \<Rightarrow> nat \<Rightarrow> bytes \<Rightarrow> vfs \<Rightarrow> (nat \<times> vfs) option" where
  "alloc_from bitmap_block limit desc_free_at sb_free_at grp desc s = do {
     (got, s) \<leftarrow> read_block bitmap_block s;
     (case got of
        None \<Rightarrow> Some (0, s)
      | Some bm \<Rightarrow> do {
          found \<leftarrow> find_clear bm [0 ..< limit];
          (case found of
             None \<Rightarrow> Some (0, s)
           | Some i \<Rightarrow> do {
               (ok, s) \<leftarrow> write_block bitmap_block (set_bit_at bm i) s;
               if \<not> ok then Some (0, s)
               else do {
                 (_, s) \<leftarrow> write_group_desc grp
                   (wr16w desc desc_free_at (sub32 (rd16 desc desc_free_at) 1)) s;
                 let s = upd_sb (\<lambda>sb. wr32w sb sb_free_at (sub32 (rd32 sb sb_free_at) 1)) s in do {
                 (_, s) \<leftarrow> write_superblock s;
                 Some (i + 1, s) }}}) }) }"

fun alloc_block_in :: "nat list \<Rightarrow> vfs \<Rightarrow> (nat \<times> vfs) option" where
  "alloc_block_in [] s = Some (0, s)"
| "alloc_block_in (g # gs) s = do {
     (got, s) \<leftarrow> read_group_desc g s;
     (case got of
        None \<Rightarrow> alloc_block_in gs s
      | Some desc \<Rightarrow>
          if rd16 desc 12 = 0 then alloc_block_in gs s
          else do {
            (got, s) \<leftarrow> alloc_from (rd32 desc 0) (blocks_per_group (gfs s)) 12 12 g desc s;
            if got \<noteq> 0
            then Some (first_data_block (gfs s) + g * blocks_per_group (gfs s) + (got - 1), s)
            else alloc_block_in gs s }) }"

definition alloc_block :: "vfs \<Rightarrow> (nat \<times> vfs) option" where
  "alloc_block s = alloc_block_in [0 ..< group_count (gfs s)] s"

text \<open>Directories are counted per group, at offset 16 of the descriptor.\<close>

definition count_directory :: "nat \<Rightarrow> vfs \<Rightarrow> (unit \<times> vfs) option" where
  "count_directory g s = do {
     (got, s) \<leftarrow> read_group_desc g s;
     (case got of
        None \<Rightarrow> Some ((), s)
      | Some desc \<Rightarrow> do {
          (_, s) \<leftarrow> write_group_desc g (wr16w desc 16 (rd16 desc 16 + 1)) s;
          Some ((), s) }) }"

fun alloc_inode_in :: "bool \<Rightarrow> nat list \<Rightarrow> vfs \<Rightarrow> (nat \<times> vfs) option" where
  "alloc_inode_in is_dir [] s = Some (0, s)"
| "alloc_inode_in is_dir (g # gs) s = do {
     (got, s) \<leftarrow> read_group_desc g s;
     (case got of
        None \<Rightarrow> alloc_inode_in is_dir gs s
      | Some desc \<Rightarrow>
          if rd16 desc 14 = 0 then alloc_inode_in is_dir gs s
          else do {
            (got, s) \<leftarrow> alloc_from (rd32 desc 4) (inodes_per_group (gfs s)) 14 16 g desc s;
            if got = 0 then alloc_inode_in is_dir gs s
            else do {
              (_, s) \<leftarrow> (if is_dir then count_directory g s else Some ((), s));
              Some (u32 (g * inodes_per_group (gfs s) + got), s) } }) }"

definition alloc_inode :: "bool \<Rightarrow> vfs \<Rightarrow> (nat \<times> vfs) option" where
  "alloc_inode is_dir s = alloc_inode_in is_dir [0 ..< group_count (gfs s)] s"

definition free_block :: "nat \<Rightarrow> vfs \<Rightarrow> (unit \<times> vfs) option" where
  "free_block block s =
     (if block < first_data_block (gfs s) then Some ((), s)
      else if blocks_per_group (gfs s) = 0 then None
      else let rel = block - first_data_block (gfs s);
               g = u32 (rel div blocks_per_group (gfs s)); i = rel mod blocks_per_group (gfs s) in
        if g \<ge> group_count (gfs s) then Some ((), s)
        else do {
          (got, s) \<leftarrow> read_group_desc g s;
          (case got of
             None \<Rightarrow> Some ((), s)
           | Some desc \<Rightarrow> do {
               (got, s) \<leftarrow> read_block (rd32 desc 0) s;
               (case got of
                  None \<Rightarrow> Some ((), s)
                | Some bm \<Rightarrow>
                    if i div 8 \<ge> length bm then None
                    else if \<not> bit_set bm i then Some ((), s)
                    else do {
                      (_, s) \<leftarrow> write_block (rd32 desc 0) (clear_bit_at bm i) s;
                      (_, s) \<leftarrow> write_group_desc g (wr16w desc 12 (rd16 desc 12 + 1)) s;
                      let s = upd_sb (\<lambda>sb. wr32w sb 12 (u32 (rd32 sb 12 + 1))) s in do {
                      (_, s) \<leftarrow> write_superblock s;
                      Some ((), s) }}) }) })"

section \<open>Inodes\<close>

definition inode_of_raw :: "bytes \<Rightarrow> inode" where
  "inode_of_raw raw = \<lparr>i_mode = rd16 raw 0, i_uid = rd16 raw 2, i_gid = rd16 raw 24,
     i_size = rd32 raw 4 + rd32 raw 108 * 4294967296,
     i_atime = rd32 raw 8, i_ctime = rd32 raw 12, i_mtime = rd32 raw 16, i_block = slice raw 40 60\<rparr>"

text \<open>The descriptor is found through \<^verbatim>\<open>g_first_data_block + 1\<close> here, not through \<^verbatim>\<open>g_gd_block\<close>.\<close>

definition read_inode :: "nat \<Rightarrow> vfs \<Rightarrow> (inode option \<times> vfs) option" where
  "read_inode number s =
     (if number = 0 \<or> inodes_per_group (gfs s) = 0 then Some (None, s)
      else if bsize s = 0 then None
      else let grp = (number - 1) div inodes_per_group (gfs s);
               index = (number - 1) mod inodes_per_group (gfs s);
               byte0 = grp * desc_size (gfs s) in do {
        (got, s) \<leftarrow> read_block (u32 (first_data_block (gfs s) + 1) + byte0 div bsize s) s;
        (case got of
           None \<Rightarrow> Some (None, s)
         | Some b \<Rightarrow>
             if desc_size (gfs s) > 64 \<or> byte0 mod bsize s + desc_size (gfs s) > bsize s then None
             else let desc = slice b (byte0 mod bsize s) (desc_size (gfs s));
                      inode_table = rd32 desc 8
                        + (if desc_size (gfs s) \<ge> 64 then rd32 desc 40 * 4294967296 else 0);
                      ibyte = index * inode_size (gfs s) in do {
               (got, s) \<leftarrow> read_block (inode_table + ibyte div bsize s) s;
               (case got of
                  None \<Rightarrow> Some (None, s)
                | Some b \<Rightarrow>
                    if ibyte mod bsize s + 112 > bsize s then None
                    else Some (Some (inode_of_raw (slice b (ibyte mod bsize s) 112)), s)) }) })"

definition inode_location :: "nat \<Rightarrow> vfs \<Rightarrow> ((nat \<times> nat) option \<times> vfs) option" where
  "inode_location number s =
     (if number = 0 \<or> inodes_per_group (gfs s) = 0 then Some (None, s)
      else let grp = (number - 1) div inodes_per_group (gfs s);
               index = (number - 1) mod inodes_per_group (gfs s) in do {
        (got, s) \<leftarrow> read_group_desc grp s;
        (case got of
           None \<Rightarrow> Some (None, s)
         | Some desc \<Rightarrow>
             let byte0 = index * inode_size (gfs s)
             in Some (Some (rd32 desc 8 + byte0 div bsize s, byte0 mod bsize s), s)) })"

definition inode_links :: "nat \<Rightarrow> vfs \<Rightarrow> (nat \<times> vfs) option" where
  "inode_links number s = do {
     (loc, s) \<leftarrow> inode_location number s;
     (case loc of
        None \<Rightarrow> Some (1, s)
      | Some (block, at) \<Rightarrow> do {
          (got, s) \<leftarrow> read_block block s;
          (case got of
             None \<Rightarrow> Some (1, s)
           | Some b \<Rightarrow> if at + 28 > bsize s then None else Some (rd16 b (at + 26), s)) }) }"

definition dir_links :: "nat \<Rightarrow> vfs \<Rightarrow> (nat \<times> vfs) option" where
  "dir_links number s = inode_links number s"

definition raw_with_inode :: "bytes \<Rightarrow> nat \<Rightarrow> inode \<Rightarrow> nat \<Rightarrow> nat \<Rightarrow> bytes" where
  "raw_with_inode b at i links bs =
     (let b = wr16w b at (i_mode i);
          b = wr16w b (at + 2) (i_uid i);
          b = wr16w b (at + 24) (i_gid i);
          b = wr32w b (at + 4) (u32 (i_size i));
          b = wr32w b (at + 108) (u32 (i_size i div 4294967296));
          b = wr16w b (at + 26) links;
          used = u32 (u64 (i_size i + bs - 1) div bs);
          b = wr32w b (at + 28) (u32 (used * (bs div 512)));
          b = wr32w b (at + 32) (rd32 b (at + 32) OR 0x80000);
          b = wr32w b (at + 8) (i_atime i);
          b = wr32w b (at + 12) (i_ctime i);
          b = wr32w b (at + 16) (i_mtime i)
      in overlay b (at + 40) (i_block i))"

definition write_inode :: "nat \<Rightarrow> inode \<Rightarrow> nat \<Rightarrow> vfs \<Rightarrow> (bool \<times> vfs) option" where
  "write_inode number i links s = do {
     (loc, s) \<leftarrow> inode_location number s;
     (case loc of
        None \<Rightarrow> Some (False, s)
      | Some (block, at) \<Rightarrow> do {
          (got, s) \<leftarrow> read_block block s;
          (case got of
             None \<Rightarrow> Some (False, s)
           | Some b \<Rightarrow>
               if at + 112 > bsize s then None
               else write_block block (raw_with_inode b at i links (bsize s)) s) }) }"

definition touch_inode :: "inode \<Rightarrow> bool \<Rightarrow> vfs \<Rightarrow> inode" where
  "touch_inode i contents s =
     (let now = u32 (wall s); i = i\<lparr>i_ctime := now\<rparr>
      in if contents then i\<lparr>i_mtime := now, i_atime := now\<rparr> else i)"

end
