(* ===== verification/Vfs_Dir.thy ===== *)
theory Vfs_Dir
  imports Vfs_Alloc
begin

text \<open>
  Directories of \<^verbatim>\<open>user/vfsd.c\<close>: \<^verbatim>\<open>dir_search\<close>, \<^verbatim>\<open>extend\<close>, \<^verbatim>\<open>dir_add\<close>, \<^verbatim>\<open>dir_remove\<close>,
  \<^verbatim>\<open>dir_is_empty\<close>. Every one of them walks a block of entries with the same loop: an entry at \<open>at\<close>
  claims \<^verbatim>\<open>rec\<close> bytes, and the walk stops at the end of the block or at a record that is shorter
  than its header or longer than the block. \<open>entry_offsets\<close> is that walk; the operations recurse
  over its result. The block is only changed as the last step of an operation, so the list is the
  one the C loop visits.

  Names are C strings: byte lists without the terminating zero. A name of an entry that would be
  read outside the block is \<open>None\<close>.
\<close>

section \<open>The entries of a block\<close>

function entry_offsets :: "bytes \<Rightarrow> nat \<Rightarrow> nat list" where
  "entry_offsets b at =
     (if at + 8 \<le> length b then
        (let rlen = rd16 b (at + 4) in
         if rlen < 8 \<or> at + rlen > length b then [] else at # entry_offsets b (at + rlen))
      else [])"
  by pat_completeness auto
termination by (relation "measure (\<lambda>(b, at). length b - at)") auto

declare entry_offsets.simps [simp del]

text \<open>The comparison loop: it stops at the first difference and reads nothing after it.\<close>

fun name_eq :: "bytes \<Rightarrow> nat \<Rightarrow> nat \<Rightarrow> bytes \<Rightarrow> bool option" where
  "name_eq b off 0 name = Some (name = [])"
| "name_eq b off (Suc n) [] = Some False"
| "name_eq b off (Suc n) (c # cs) =
     (if off \<ge> length b then None
      else if c = b ! off then name_eq b (off + 1) n cs else Some False)"

abbreviation e_ino :: "bytes \<Rightarrow> nat \<Rightarrow> nat" where "e_ino b at \<equiv> rd32 b at"
abbreviation e_rec :: "bytes \<Rightarrow> nat \<Rightarrow> nat" where "e_rec b at \<equiv> rd16 b (at + 4)"
abbreviation e_len :: "bytes \<Rightarrow> nat \<Rightarrow> nat" where "e_len b at \<equiv> unat (byte_at b (at + 6))"
abbreviation e_type :: "bytes \<Rightarrow> nat \<Rightarrow> nat" where "e_type b at \<equiv> unat (byte_at b (at + 7))"

fun find_name :: "bytes \<Rightarrow> bytes \<Rightarrow> nat list \<Rightarrow> nat option option" where
  "find_name b name [] = Some None"
| "find_name b name (at # offs) =
     (if e_ino b at \<noteq> 0 \<and> e_len b at > 0 then do {
        same \<leftarrow> name_eq b (at + 8) (e_len b at) name;
        if same then Some (Some at) else find_name b name offs }
      else find_name b name offs)"

section \<open>Searching\<close>

definition file_blocks :: "inode \<Rightarrow> vfs \<Rightarrow> nat" where
  "file_blocks i s = u64 (i_size i + bsize s - 1) div bsize s"

fun dir_find_in :: "inode \<Rightarrow> bytes \<Rightarrow> nat list \<Rightarrow> vfs \<Rightarrow> (nat \<times> vfs) option" where
  "dir_find_in dir name [] s = Some (0, s)"
| "dir_find_in dir name (fb # fbs) s = do {
     (phys, s) \<leftarrow> map_block dir fb s;
     if phys = 0 then dir_find_in dir name fbs s
     else do {
       (got, s) \<leftarrow> read_block phys s;
       (case got of
          None \<Rightarrow> dir_find_in dir name fbs s
        | Some b \<Rightarrow> do {
            hit \<leftarrow> find_name b name (entry_offsets b 0);
            (case hit of
               None \<Rightarrow> dir_find_in dir name fbs s
             | Some at \<Rightarrow> Some (e_ino b at, s)) }) }}"

text \<open>\<^verbatim>\<open>dir_search(dir, name, 0, 0, 0)\<close>\<close>

definition dir_search :: "inode \<Rightarrow> bytes \<Rightarrow> vfs \<Rightarrow> (nat \<times> vfs) option" where
  "dir_search dir name s =
     (if bsize s = 0 then None else dir_find_in dir name [0 ..< file_blocks dir s] s)"

definition VFS_KIND_FILE :: nat where "VFS_KIND_FILE = 0"
definition VFS_KIND_DIR :: nat where "VFS_KIND_DIR = 1"
definition VFS_KIND_LINK :: nat where "VFS_KIND_LINK = 2"
definition VFS_KIND_FIFO :: nat where "VFS_KIND_FIFO = 3"
definition VFS_KIND_CHR :: nat where "VFS_KIND_CHR = 4"
definition VFS_KIND_BLK :: nat where "VFS_KIND_BLK = 5"

lemmas kind_defs = VFS_KIND_FILE_def VFS_KIND_DIR_def VFS_KIND_LINK_def VFS_KIND_FIFO_def
  VFS_KIND_CHR_def VFS_KIND_BLK_def

definition kind_of_type :: "nat \<Rightarrow> nat" where
  "kind_of_type t =
     (if t = 2 then VFS_KIND_DIR else if t = 7 then VFS_KIND_LINK else if t = 5 then VFS_KIND_FIFO
      else if t = 3 then VFS_KIND_CHR else if t = 4 then VFS_KIND_BLK else VFS_KIND_FILE)"

text \<open>The entry is \<^verbatim>\<open>.\<close> or \<^verbatim>\<open>..\<close>.\<close>

definition is_dot :: "bytes \<Rightarrow> nat \<Rightarrow> bool option" where
  "is_dot b at =
     (let len = e_len b at in
      if len = 1 then (if at + 8 \<ge> length b then None else Some (b ! (at + 8) = 46))
      else if len = 2 then
        (if at + 8 \<ge> length b then None
         else if b ! (at + 8) \<noteq> 46 then Some False
         else if at + 9 \<ge> length b then None else Some (b ! (at + 9) = 46))
      else Some False)"

text \<open>The other mode of \<^verbatim>\<open>dir_search\<close>: the \<open>want\<close>-th entry, with how many were seen so far.\<close>

fun nth_entry :: "bytes \<Rightarrow> nat \<Rightarrow> nat \<Rightarrow> nat list \<Rightarrow> (nat + nat) option" where
  "nth_entry b want seen [] = Some (Inr seen)"
| "nth_entry b want seen (at # offs) =
     (if e_ino b at \<noteq> 0 \<and> e_len b at > 0 then do {
        dot \<leftarrow> is_dot b at;
        if dot then nth_entry b want seen offs
        else if seen = want then Some (Inl at)
        else nth_entry b want (seen + 1) offs }
      else nth_entry b want seen offs)"

fun dir_nth_in :: "inode \<Rightarrow> nat \<Rightarrow> nat \<Rightarrow> nat list \<Rightarrow> vfs \<Rightarrow> ((nat \<times> bytes \<times> nat) option \<times> vfs) option" where
  "dir_nth_in dir want seen [] s = Some (None, s)"
| "dir_nth_in dir want seen (fb # fbs) s = do {
     (phys, s) \<leftarrow> map_block dir fb s;
     if phys = 0 then dir_nth_in dir want seen fbs s
     else do {
       (got, s) \<leftarrow> read_block phys s;
       (case got of
          None \<Rightarrow> dir_nth_in dir want seen fbs s
        | Some b \<Rightarrow> do {
            hit \<leftarrow> nth_entry b want seen (entry_offsets b 0);
            (case hit of
               Inr seen \<Rightarrow> dir_nth_in dir want seen fbs s
             | Inl at \<Rightarrow>
                 let n = min (e_len b at) 63 in
                 if at + 8 + n > length b then None
                 else Some (Some (e_ino b at, slice b (at + 8) n, kind_of_type (e_type b at)), s)) }) }}"

definition dir_nth :: "inode \<Rightarrow> nat \<Rightarrow> vfs \<Rightarrow> ((nat \<times> bytes \<times> nat) option \<times> vfs) option" where
  "dir_nth dir want s =
     (if bsize s = 0 then None else dir_nth_in dir want 0 [0 ..< file_blocks dir s] s)"

section \<open>Growing a file\<close>

definition zero_block :: "vfs \<Rightarrow> bytes" where
  "zero_block s = replicate (bsize s) 0"

text \<open>
  \<^verbatim>\<open>extend\<close> works on the extent root inside the inode; entry positions outside its sixty bytes are
  \<open>None\<close>. \<open>append_extent\<close> is what happens to the root once a block has been allocated.
\<close>

definition append_extent :: "bytes \<Rightarrow> nat \<Rightarrow> nat \<Rightarrow> (nat \<times> bytes) option" where
  "append_extent node want phys =
     (let entries = rd16 node 2; ent = 12 + entries * 12;
          add = (if entries \<ge> rd16 node 4 then Some (0, node)
                 else if ent + 12 > length node then None
                 else Some (phys,
                   wr16w (wr32w (wr16w (wr16w (wr32w node ent (u32 want)) (ent + 4) 1)
                     (ent + 6) (u32 (phys div 4294967296))) (ent + 8) (u32 phys)) 2 (entries + 1)))
      in if entries > 0 then
           (let is_last = 12 + (entries - 1) * 12 in
            if is_last + 12 > length node then None
            else let first = rd32 node is_last; len = rd16 node (is_last + 4);
                     start = rd16 node (is_last + 6) * 4294967296 + rd32 node (is_last + 8)
                 in if start + len = phys \<and> u32 (first + len) = want
                    then Some (phys, wr16w node (is_last + 4) (len + 1))
                    else add)
         else add)"

definition extend_file :: "inode \<Rightarrow> vfs \<Rightarrow> ((nat \<times> inode) \<times> vfs) option" where
  "extend_file i s =
     (if rd16 (i_block i) 0 \<noteq> 0xF30A \<or> rd16 (i_block i) 6 \<noteq> 0 then Some ((0, i), s)
      else if bsize s = 0 then None
      else let want = file_blocks i s in do {
        (phys, s) \<leftarrow> alloc_block s;
        if phys = 0 then Some ((0, i), s)
        else do {
          (_, s) \<leftarrow> write_block phys (zero_block s) s;
          (phys, node) \<leftarrow> append_extent (i_block i) want phys;
          Some ((phys, i\<lparr>i_block := node\<rparr>), s) }})"

section \<open>Adding and removing names\<close>

definition entry_need :: "nat \<Rightarrow> nat" where
  "entry_need len = (8 + len + 3) div 4 * 4"

definition put_entry :: "bytes \<Rightarrow> nat \<Rightarrow> nat \<Rightarrow> nat \<Rightarrow> bytes \<Rightarrow> nat \<Rightarrow> bytes" where
  "put_entry b at ino rlen name t =
     overlay ((wr16w (wr32w b at ino) (at + 4) rlen)[at + 6 := of_nat (length name), at + 7 := of_nat t])
       (at + 8) name"

text \<open>
  \<open>fit_entry\<close> is the loop over the entries of one block: the first whose slack holds the new name
  is split. \<^verbatim>\<open>rec - actual\<close> is an unsigned subtraction. The inner \<open>None\<close>: nothing fits.
\<close>

fun fit_entry :: "bytes \<Rightarrow> nat \<Rightarrow> bytes \<Rightarrow> nat \<Rightarrow> nat list \<Rightarrow> bytes option option" where
  "fit_entry b ino name t [] = Some None"
| "fit_entry b ino name t (at # offs) =
     (let rlen = e_rec b at;
          actual = (if e_ino b at = 0 then 0 else entry_need (e_len b at));
          slack = sub32 rlen actual
      in if slack \<ge> entry_need (length name) then
           (let b = (if actual \<noteq> 0 then wr16w b (at + 4) actual else b); put = at + actual
            in if put + 8 + length name > length b then None
               else Some (Some (put_entry b put ino slack name t)))
         else fit_entry b ino name t offs)"

fun dir_add_in :: "inode \<Rightarrow> nat \<Rightarrow> bytes \<Rightarrow> nat \<Rightarrow> nat \<Rightarrow> nat list \<Rightarrow> vfs \<Rightarrow> ((bool \<times> inode) \<times> vfs) option" where
  "dir_add_in dir dir_ino name ino t [] s = do {
     ((phys, dir), s) \<leftarrow> extend_file dir s;
     if phys = 0 then Some ((False, dir), s)
     else let dir = dir\<lparr>i_size := u64 (i_size dir + bsize s)\<rparr> in
       if 8 + length name > bsize s then None
       else do {
         (ok, s) \<leftarrow> write_block phys (put_entry (zero_block s) 0 ino (bsize s) name t) s;
         if \<not> ok then Some ((False, dir), s)
         else do {
           (links, s) \<leftarrow> dir_links dir_ino s;
           (ok, s) \<leftarrow> write_inode dir_ino dir links s;
           Some ((ok, dir), s) }}}"
| "dir_add_in dir dir_ino name ino t (fb # fbs) s = do {
     (phys, s) \<leftarrow> map_block dir fb s;
     if phys = 0 then dir_add_in dir dir_ino name ino t fbs s
     else do {
       (got, s) \<leftarrow> read_block phys s;
       (case got of
          None \<Rightarrow> dir_add_in dir dir_ino name ino t fbs s
        | Some b \<Rightarrow> do {
            placed \<leftarrow> fit_entry b ino name t (entry_offsets b 0);
            (case placed of
               None \<Rightarrow> dir_add_in dir dir_ino name ino t fbs s
             | Some b \<Rightarrow> do {
                 (ok, s) \<leftarrow> write_block phys b s;
                 Some ((ok, dir), s) }) }) }}"

definition dir_add :: "inode \<Rightarrow> nat \<Rightarrow> bytes \<Rightarrow> nat \<Rightarrow> nat \<Rightarrow> vfs \<Rightarrow> ((bool \<times> inode) \<times> vfs) option" where
  "dir_add dir dir_ino name ino t s =
     (if bsize s = 0 then None else dir_add_in dir dir_ino name ino t [0 ..< file_blocks dir s] s)"

text \<open>The entry to take out, with the one before it in the same block.\<close>

fun find_prev :: "bytes \<Rightarrow> bytes \<Rightarrow> nat option \<Rightarrow> nat list \<Rightarrow> (nat option \<times> nat) option option" where
  "find_prev b name prev [] = Some None"
| "find_prev b name prev (at # offs) =
     (if e_ino b at \<noteq> 0 \<and> e_len b at > 0 then do {
        same \<leftarrow> name_eq b (at + 8) (e_len b at) name;
        if same then Some (Some (prev, at)) else find_prev b name (Some at) offs }
      else find_prev b name (Some at) offs)"

definition drop_entry :: "bytes \<Rightarrow> nat option \<Rightarrow> nat \<Rightarrow> bytes" where
  "drop_entry b prev at =
     (case prev of
        Some p \<Rightarrow> wr16w b (p + 4) (e_rec b p + e_rec b at)
      | None \<Rightarrow> wr32w b at 0)"

fun dir_remove_in :: "inode \<Rightarrow> bytes \<Rightarrow> nat list \<Rightarrow> vfs \<Rightarrow> ((bool \<times> nat option) \<times> vfs) option" where
  "dir_remove_in dir name [] s = Some ((False, None), s)"
| "dir_remove_in dir name (fb # fbs) s = do {
     (phys, s) \<leftarrow> map_block dir fb s;
     if phys = 0 then dir_remove_in dir name fbs s
     else do {
       (got, s) \<leftarrow> read_block phys s;
       (case got of
          None \<Rightarrow> dir_remove_in dir name fbs s
        | Some b \<Rightarrow> do {
            hit \<leftarrow> find_prev b name None (entry_offsets b 0);
            (case hit of
               None \<Rightarrow> dir_remove_in dir name fbs s
             | Some (prev, at) \<Rightarrow> do {
                 (ok, s) \<leftarrow> write_block phys (drop_entry b prev at) s;
                 Some ((ok, Some (e_ino b at)), s) }) }) }}"

text \<open>The second component is what was stored through \<^verbatim>\<open>ino_out\<close>, if anything was.\<close>

definition dir_remove :: "inode \<Rightarrow> bytes \<Rightarrow> vfs \<Rightarrow> ((bool \<times> nat option) \<times> vfs) option" where
  "dir_remove dir name s =
     (if bsize s = 0 then None else dir_remove_in dir name [0 ..< file_blocks dir s] s)"

fun only_dots :: "bytes \<Rightarrow> nat list \<Rightarrow> bool option" where
  "only_dots b [] = Some True"
| "only_dots b (at # offs) =
     (if e_ino b at \<noteq> 0 \<and> e_len b at > 0 then do {
        dot \<leftarrow> is_dot b at;
        if dot then only_dots b offs else Some False }
      else only_dots b offs)"

fun dir_is_empty_in :: "inode \<Rightarrow> nat list \<Rightarrow> vfs \<Rightarrow> (bool \<times> vfs) option" where
  "dir_is_empty_in dir [] s = Some (True, s)"
| "dir_is_empty_in dir (fb # fbs) s = do {
     (phys, s) \<leftarrow> map_block dir fb s;
     if phys = 0 then dir_is_empty_in dir fbs s
     else do {
       (got, s) \<leftarrow> read_block phys s;
       (case got of
          None \<Rightarrow> dir_is_empty_in dir fbs s
        | Some b \<Rightarrow> do {
            dots \<leftarrow> only_dots b (entry_offsets b 0);
            if dots then dir_is_empty_in dir fbs s else Some (False, s) }) }}"

definition dir_is_empty :: "inode \<Rightarrow> vfs \<Rightarrow> (bool \<times> vfs) option" where
  "dir_is_empty dir s =
     (if bsize s = 0 then None else dir_is_empty_in dir [0 ..< file_blocks dir s] s)"

end
