(* ===== verification/Vfs_Dir_Laws.thy ===== *)
theory Vfs_Dir_Laws
  imports Vfs_Dir
begin

text \<open>
  A block of a directory is a list of names with their inodes. The records of a well-formed block follow
  one another up to its end (\<open>walk\<close>); on such a block the search, the insertion and the removal of
  \<^verbatim>\<open>user/vfsd.c\<close> act on the list as on a map (the locale \<open>name_store\<close>, interpreted on them as \<open>db\<close>).
\<close>

section \<open>The interface\<close>

text \<open>
  A store of names: what a client of the three operations may rely on. The number bounds how many more
  changes the store has to take.
\<close>

locale name_store =
  fixes ok :: "nat \<Rightarrow> 's \<Rightarrow> bool" and names :: "'s \<Rightarrow> bytes \<Rightarrow> nat option"
    and fits :: "bytes \<Rightarrow> 's \<Rightarrow> bool" and valid :: "bytes \<Rightarrow> nat \<Rightarrow> bool"
    and look :: "bytes \<Rightarrow> 's \<Rightarrow> (nat option \<times> 's) option"
    and add :: "bytes \<Rightarrow> nat \<Rightarrow> 's \<Rightarrow> (bool \<times> 's) option"
    and del :: "bytes \<Rightarrow> 's \<Rightarrow> (nat option \<times> 's) option"
  assumes look_law: "ok k s \<Longrightarrow> \<exists>t. look n s = Some (names s n, t) \<and> ok k t \<and> names t = names s"
    and add_law: "ok (Suc k) s \<Longrightarrow> valid n i \<Longrightarrow> names s n = None \<Longrightarrow> fits n s \<Longrightarrow>
      \<exists>t. add n i s = Some (True, t) \<and> ok k t \<and> names t = (names s)(n \<mapsto> i)"
    and del_law: "ok (Suc k) s \<Longrightarrow> \<exists>t. del n s = Some (names s n, t) \<and> ok k t \<and> names t = (names s)(n := None)"
begin

text \<open>A name that was added is found, the others are found as before, and removing it restores the store.\<close>

lemma add_look_del:
  assumes "ok (Suc (Suc k)) s" "valid n i" "names s n = None" "fits n s"
  shows "\<exists>t u v. add n i s = Some (True, t) \<and> look m t = Some (if m = n then Some i else names s m, u)
    \<and> del n u = Some (Some i, v) \<and> ok k v \<and> names v = names s"
proof -
  obtain t where t: "add n i s = Some (True, t)" "ok (Suc k) t" "names t = (names s)(n \<mapsto> i)"
    using add_law [OF assms] by blast
  obtain u where u: "look m t = Some (names t m, u)" "ok (Suc k) u" "names u = names t" using look_law [OF t(2)] by blast
  obtain v where "del n u = Some (names u n, v)" "ok k v" "names v = (names u)(n := None)" using del_law [OF u(2)] by blast
  then show ?thesis using t u assms(3) by (auto simp: fun_upd_idem)
qed

end

section \<open>Records in a block\<close>

definition same_on :: "bytes \<Rightarrow> bytes \<Rightarrow> nat \<Rightarrow> nat \<Rightarrow> bool" where
  "same_on b b' lo hi \<longleftrightarrow> (\<forall>i. lo \<le> i \<longrightarrow> i < hi \<longrightarrow> byte_at b' i = byte_at b i)"

lemma same_on_reads:
  assumes "same_on b b' lo hi" "lo \<le> at"
  shows "at + 2 \<le> hi \<Longrightarrow> rd16 b' at = rd16 b at" "at + 4 \<le> hi \<Longrightarrow> rd32 b' at = rd32 b at"
    "at < hi \<Longrightarrow> byte_at b' at = byte_at b at" "at + n \<le> hi \<Longrightarrow> slice b' at n = slice b at n"
  using assms by (auto simp: same_on_def rd16_def rd32_def slice_def)

definition holds_name :: "bytes \<Rightarrow> nat \<Rightarrow> bool" where
  "holds_name b at \<longleftrightarrow> e_ino b at \<noteq> 0 \<and> e_len b at > 0"

definition name_of :: "bytes \<Rightarrow> nat \<Rightarrow> bytes" where
  "name_of b at = slice b (at + 8) (e_len b at)"

definition roomy :: "bytes \<Rightarrow> nat \<Rightarrow> bool" where
  "roomy b at \<longleftrightarrow> 8 \<le> e_rec b at \<and> (e_ino b at \<noteq> 0 \<longrightarrow> entry_need (e_len b at) \<le> e_rec b at)"

text \<open>The records at \<open>os\<close> fill the block from \<open>a\<close> to \<open>z\<close>.\<close>

fun walk :: "bytes \<Rightarrow> nat \<Rightarrow> nat list \<Rightarrow> nat \<Rightarrow> bool" where
  "walk b a [] z \<longleftrightarrow> a = z"
| "walk b a (x # os) z \<longleftrightarrow> x = a \<and> roomy b a \<and> walk b (a + e_rec b a) os z"

lemma walk_le: "walk b a os z \<Longrightarrow> a \<le> z"
  by (induction os arbitrary: a) (auto dest: add_leD1)

lemma walk_append: "walk b a (xs @ ys) z \<longleftrightarrow> (\<exists>m. walk b a xs m \<and> walk b m ys z)"
  by (induction xs arbitrary: a) auto

lemma walk_offsets: "walk b a os (length b) \<Longrightarrow> entry_offsets b a = os"
proof (induction os arbitrary: a)
  case Nil
  then show ?case by (subst entry_offsets.simps) simp
next
  case (Cons x os)
  then have "a + e_rec b a \<le> length b" "8 \<le> e_rec b a" by (auto dest: walk_le simp: roomy_def)
  with Cons show ?case by (subst entry_offsets.simps) (simp add: Let_def)
qed

lemma entry_need_ge: "8 + n \<le> entry_need n"
  using div_mult_mod_eq [of "8 + n + 3" 4] mod_less_divisor [of 4 "8 + n + 3"] by (simp add: entry_need_def)

lemma roomy_holds: "roomy b at \<Longrightarrow> holds_name b at \<Longrightarrow> 8 + e_len b at \<le> e_rec b at"
  using entry_need_ge [of "e_len b at"] by (auto simp: roomy_def holds_name_def)

text \<open>Everything about a record is in its bytes.\<close>

lemma record_same:
  assumes "same_on b b' at (at + e_rec b at)" "roomy b at"
  shows "e_rec b' at = e_rec b at" "e_ino b' at = e_ino b at" "e_len b' at = e_len b at" "holds_name b' at = holds_name b at"
    "roomy b' at = roomy b at" "holds_name b at \<Longrightarrow> name_of b' at = name_of b at"
proof -
  have r: "8 \<le> e_rec b at" using assms(2) by (simp add: roomy_def)
  show e: "e_rec b' at = e_rec b at" "e_ino b' at = e_ino b at" "e_len b' at = e_len b at"
    using same_on_reads [OF assms(1)] r by simp_all
  then show "holds_name b' at = holds_name b at" "roomy b' at = roomy b at" by (simp_all add: holds_name_def roomy_def)
  assume "holds_name b at"
  then show "name_of b' at = name_of b at"
    using roomy_holds [OF assms(2)] same_on_reads(4) [OF assms(1)] e(3) by (simp add: name_of_def)
qed

definition listing :: "bytes \<Rightarrow> nat list \<Rightarrow> (bytes \<times> nat) list" where
  "listing b os = map (\<lambda>at. (name_of b at, e_ino b at)) (filter (holds_name b) os)"

lemma listing_simps [simp]:
  "listing b [] = []" "listing b (x # os) = (if holds_name b x then (name_of b x, e_ino b x) # listing b os else listing b os)"
  "listing b (xs @ ys) = listing b xs @ listing b ys"
  by (simp_all add: listing_def)

lemma walk_same: "walk b a os z \<Longrightarrow> same_on b b' a z \<Longrightarrow> walk b' a os z \<and> listing b' os = listing b os"
proof (induction os arbitrary: a)
  case (Cons x os)
  then have w: "x = a" "roomy b a" "walk b (a + e_rec b a) os z" by auto
  then have z: "a + e_rec b a \<le> z" by (auto dest: walk_le)
  then have "same_on b b' a (a + e_rec b a)" "same_on b b' (a + e_rec b a) z"
    using Cons.prems(2) by (auto simp: same_on_def)
  note r = record_same [OF this(1) w(2)] and ih = Cons.IH [OF w(3) this(2)]
  show ?case using r ih w by auto
qed simp

definition block_ok :: "bytes \<Rightarrow> bool" where
  "block_ok b \<longleftrightarrow> length b < 65536 \<and> walk b 0 (entry_offsets b 0) (length b)
     \<and> distinct (map fst (listing b (entry_offsets b 0)))"

lemma block_okI: "walk b 0 os (length b) \<Longrightarrow> length b < 65536 \<Longrightarrow> distinct (map fst (listing b os)) \<Longrightarrow> block_ok b"
  using walk_offsets by (simp add: block_ok_def)

abbreviation listed :: "bytes \<Rightarrow> bytes \<Rightarrow> nat option" where
  "listed b \<equiv> map_of (listing b (entry_offsets b 0))"

section \<open>Searching\<close>

lemma name_eq_slice: "off + n \<le> length b \<Longrightarrow> name_eq b off n name = Some (slice b off n = name)"
proof (induction b off n name rule: name_eq.induct)
  case (3 b off n c cs)
  have "slice b off (Suc n) = byte_at b off # slice b (off + 1) n" by (simp add: slice_def upt_conv_Cons del: upt_Suc)
  with 3 show ?case by (auto simp: byte_at_def)
qed (auto simp: slice_def simp del: upt_Suc)

lemma find_name_listing:
  assumes "walk b a os z" "z \<le> length b"
  shows "find_name b name os = Some (find (\<lambda>at. holds_name b at \<and> name_of b at = name) os)"
  using assms
proof (induction os arbitrary: a)
  case (Cons x os)
  then have w: "x = a" "roomy b a" "walk b (a + e_rec b a) os z" by auto
  then have "holds_name b a \<longrightarrow> a + 8 + e_len b a \<le> length b"
    using roomy_holds [OF w(2)] walk_le [OF w(3)] Cons.prems(2) by auto
  then show ?case using Cons.IH [OF w(3) Cons.prems(2)] w(1) name_eq_slice [of "a + 8" "e_len b a" b name]
    by (auto simp: holds_name_def name_of_def)
qed simp

lemma find_map_of:
  "map_option (\<lambda>at. e_ino b at) (find (\<lambda>at. holds_name b at \<and> name_of b at = name) os) = map_of (listing b os) name"
  by (induction os) auto

section \<open>Adding\<close>

lemma length_put_entry [simp]: "length (put_entry b at ino r name t) = length b"
  by (simp add: put_entry_def)

lemma put_entry_reads:
  assumes "at + 8 + length name \<le> length b" "ino < 4294967296" "r < 65536" "length name < 256"
  shows "e_ino (put_entry b at ino r name t) at = ino" "e_rec (put_entry b at ino r name t) at = r"
    "e_len (put_entry b at ino r name t) at = length name" "name_of (put_entry b at ino r name t) at = name"
proof -
  have "rd32 (put_entry b at ino r name t) at = rd32 (wr32w b at ino) at"
    using assms(1) by (simp add: put_entry_def rd32_def buf_simps)
  then show "e_ino (put_entry b at ino r name t) at = ino" using assms by simp
  have "rd16 (put_entry b at ino r name t) (at + 4) = rd16 (wr16w (wr32w b at ino) (at + 4) r) (at + 4)"
    using assms(1) by (simp add: put_entry_def rd16_def buf_simps)
  then show "e_rec (put_entry b at ino r name t) at = r" using assms by simp
  show l: "e_len (put_entry b at ino r name t) at = length name"
    using assms by (simp add: put_entry_def buf_simps)
  show "name_of (put_entry b at ino r name t) at = name"
    unfolding name_of_def l using assms(1)
    by (intro nth_equalityI) (auto simp: put_entry_def buf_simps)
qed

lemma put_entry_same:
  "hi \<le> at \<Longrightarrow> same_on b (put_entry b at ino r name t) lo hi"
  "at + 8 + length name \<le> lo \<Longrightarrow> same_on b (put_entry b at ino r name t) lo hi"
  by (auto simp: same_on_def put_entry_def byte_at_overlay byte_at_update byte_at_wr_other)

lemma wr16w_same: "hi \<le> at \<or> at + 2 \<le> lo \<Longrightarrow> same_on b (wr16w b at v) lo hi"
  by (auto simp: same_on_def byte_at_wr_other)

lemma same_on_trans: "same_on b c lo hi \<Longrightarrow> same_on c d lo hi \<Longrightarrow> same_on b d lo hi"
  by (simp add: same_on_def)

text \<open>Shortening or lengthening a record in place keeps the rest of what it says.\<close>

lemma resize_reads:
  assumes "at + 8 \<le> length b" "r < 65536"
  shows "e_rec (wr16w b (at + 4) r) at = r" "e_ino (wr16w b (at + 4) r) at = e_ino b at"
    "e_len (wr16w b (at + 4) r) at = e_len b at" "holds_name (wr16w b (at + 4) r) at = holds_name b at"
    "name_of (wr16w b (at + 4) r) at = name_of b at"
proof -
  show e: "e_rec (wr16w b (at + 4) r) at = r" "e_ino (wr16w b (at + 4) r) at = e_ino b at"
    "e_len (wr16w b (at + 4) r) at = e_len b at"
    using assms by (simp_all add: rd32_wr16w_other byte_at_wr_other)
  then show "holds_name (wr16w b (at + 4) r) at = holds_name b at" by (simp add: holds_name_def)
  show "name_of (wr16w b (at + 4) r) at = name_of b at"
    unfolding name_of_def e(3) by (rule same_on_reads(4) [OF wr16w_same order.refl order.refl]) simp
qed

text \<open>The two ways of placing a record, in the middle of a walk.\<close>

lemma reuse_record:
  fixes t :: nat
  assumes "roomy b at" "e_ino b at = 0" "entry_need (length name) \<le> e_rec b at"
    and "at + e_rec b at \<le> length b" "0 < ino" "ino < 4294967296" "0 < length name" "length name < 256"
  defines "b' \<equiv> put_entry b at ino (e_rec b at) name t"
  shows "walk b' at [at] (at + e_rec b at) \<and> listing b' [at] = [(name, ino)]
    \<and> same_on b b' 0 at \<and> same_on b b' (at + e_rec b at) (length b)"
proof -
  have fits: "at + 8 + length name \<le> at + e_rec b at"
    using entry_need_ge [of "length name"] assms(3) by linarith
  then have "at + 8 + length name \<le> length b" using assms(4) by linarith
  note r = put_entry_reads [OF this assms(6) rd16_less assms(8), of b "at + 4" t, folded b'_def]
  have "same_on b b' 0 at" "same_on b b' (at + e_rec b at) (length b)"
    unfolding b'_def using fits by (auto intro: put_entry_same)
  then show ?thesis using r assms by (auto simp: roomy_def holds_name_def)
qed

lemma split_record:
  fixes t :: nat
  assumes "roomy b at" "e_ino b at \<noteq> 0" "r = entry_need (e_len b at)" "entry_need (length name) + r \<le> e_rec b at"
    and "at + e_rec b at \<le> length b" "0 < ino" "ino < 4294967296" "0 < length name" "length name < 256"
  defines "b' \<equiv> put_entry (wr16w b (at + 4) r) (at + r) ino (e_rec b at - r) name t"
  shows "walk b' at [at, at + r] (at + e_rec b at) \<and> listing b' [at, at + r] = listing b [at] @ [(name, ino)]
    \<and> same_on b b' 0 at \<and> same_on b b' (at + e_rec b at) (length b)"
proof -
  let ?w = "wr16w b (at + 4) r"
  have n: "8 + length name \<le> e_rec b at - r" "r \<le> e_rec b at" "8 \<le> r"
    using entry_need_ge [of "length name"] entry_need_ge [of "e_len b at"] assms(3,4) by linarith+
  have lt: "e_rec b at - r < 65536" "r < 65536"
    using rd16_less [of b "at + 4"] n(2) by linarith+
  have "at + r + 8 + length name \<le> length ?w" using n assms(5) by simp
  note new = put_entry_reads [OF this assms(7) lt(1) assms(9), of t, folded b'_def]
  have old: "e_rec ?w at = r" "e_ino ?w at = e_ino b at" "e_len ?w at = e_len b at"
    "holds_name ?w at = holds_name b at" "name_of ?w at = name_of b at"
    using resize_reads [of at b r] lt n assms(5) by simp_all
  have "roomy ?w at" using old(1-3) n(3) assms(3) by (simp add: roomy_def)
  moreover have "same_on ?w b' at (at + e_rec ?w at)" unfolding b'_def old(1) by (rule put_entry_same) simp
  ultimately have kept: "e_rec b' at = r" "e_ino b' at = e_ino b at" "roomy b' at" "holds_name b' at = holds_name b at"
    "holds_name b at \<Longrightarrow> name_of b' at = name_of b at"
    using record_same [of ?w b' at] old by simp_all
  have "same_on ?w b' 0 at" "same_on ?w b' (at + e_rec b at) (length b)"
    unfolding b'_def by (rule put_entry_same; use n in simp)+
  moreover have "same_on b ?w 0 at" "same_on b ?w (at + e_rec b at) (length b)"
    by (rule wr16w_same; use n in simp)+
  ultimately have "same_on b b' 0 at" "same_on b b' (at + e_rec b at) (length b)"
    using same_on_trans by blast+
  moreover have "roomy b' (at + r)" "holds_name b' (at + r)"
    using new n assms(4,6,8) by (auto simp: roomy_def holds_name_def)
  ultimately show ?thesis using kept new n(2) by auto
qed

text \<open>Replacing what stands in one stretch of the block leaves the walk around it alone.\<close>

lemma replace_records:
  assumes "walk b 0 pre lo" "walk b hi post (length b)" "length b' = length b"
    and "walk b' lo mid hi" "same_on b b' 0 lo" "same_on b b' hi (length b)"
  shows "walk b' 0 (pre @ mid @ post) (length b')
    \<and> listing b' (pre @ mid @ post) = listing b pre @ listing b' mid @ listing b post"
  using assms(3,4) walk_same [OF assms(1,5)] walk_same [OF assms(2,6)] by (auto simp: walk_append)

definition nameable :: "bytes \<Rightarrow> nat \<Rightarrow> bool" where
  "nameable name ino \<longleftrightarrow> 0 < length name \<and> length name < 256 \<and> 0 < ino \<and> ino < 4294967296"

definition room :: "bytes \<Rightarrow> nat \<Rightarrow> nat" where
  "room b at = e_rec b at - (if e_ino b at = 0 then 0 else entry_need (e_len b at))"

text \<open>\<open>b'\<close> is \<open>b\<close> with the name placed in the space of one of the records at \<open>os\<close>.\<close>

definition name_placed :: "bytes \<Rightarrow> bytes \<Rightarrow> nat \<Rightarrow> nat list \<Rightarrow> bytes \<Rightarrow> bool" where
  "name_placed b name ino os b' \<longleftrightarrow> (\<exists>pre at post mid. os = pre @ at # post \<and> length b' = length b
    \<and> walk b' at mid (at + e_rec b at) \<and> listing b' mid = listing b [at] @ [(name, ino)]
    \<and> same_on b b' 0 at \<and> same_on b b' (at + e_rec b at) (length b))"

lemma placed_length: "name_placed b name ino os b' \<Longrightarrow> length b' = length b"
  unfolding name_placed_def by blast

lemma placed_Cons: "name_placed b name ino os b' \<Longrightarrow> name_placed b name ino (x # os) b'"
  unfolding name_placed_def by (metis append_Cons)

lemma rd16_less32 [simp]: "rd16 p at < 4294967296"
  using less_trans [OF rd16_less, of 4294967296 p at] by simp

lemma fit_entry_step:
  assumes "roomy b at" "at + e_rec b at \<le> length b" "nameable name ino" "entry_need (length name) \<le> room b at"
  shows "\<exists>b'. fit_entry b ino name t (at # os) = Some (Some b') \<and> name_placed b name ino (at # os) b'"
proof (cases "e_ino b at = 0")
  case True
  have n: "entry_need (length name) \<le> e_rec b at" "e_rec b at < 4294967296"
    using assms(4) True by (auto simp: room_def)
  then have "at + 8 + length name \<le> length b" using entry_need_ge [of "length name"] assms(2) by linarith
  then have "fit_entry b ino name t (at # os) = Some (Some (put_entry b at ino (e_rec b at) name t))"
    using True n by (simp add: Let_def)
  moreover have "listing b [at] = []" using True by (simp add: holds_name_def)
  ultimately show ?thesis
    using reuse_record [OF assms(1) True n(1) assms(2), of ino t] assms(3) length_put_entry
    unfolding nameable_def name_placed_def by (metis append_Nil)
next
  case False
  let ?r = "entry_need (e_len b at)"
  let ?b = "put_entry (wr16w b (at + 4) ?r) (at + ?r) ino (e_rec b at - ?r) name t"
  have r: "?r \<le> e_rec b at" "entry_need (length name) \<le> e_rec b at - ?r" "8 \<le> ?r" "e_rec b at < 65536"
    using assms(1,4) False entry_need_ge [of "e_len b at"] by (auto simp: roomy_def room_def)
  then have n: "entry_need (length name) + ?r \<le> e_rec b at" by linarith
  have "at + ?r + 8 + length name \<le> length b" using entry_need_ge [of "length name"] n assms(2) by linarith
  moreover have "sub32 (e_rec b at) ?r = e_rec b at - ?r" using r by simp
  ultimately have "fit_entry b ino name t (at # os) = Some (Some ?b)" using False r by (simp add: Let_def)
  then show ?thesis
    using split_record [OF assms(1) False refl n assms(2), of ino t] assms(3)
    unfolding nameable_def name_placed_def by (metis append_Nil length_put_entry length_wr(1))
qed

lemma fit_entry_skips:
  assumes "roomy b at" "room b at < entry_need (length name)"
  shows "fit_entry b ino name t (at # os) = fit_entry b ino name t os"
proof -
  have "sub32 (e_rec b at) (if e_ino b at = 0 then 0 else entry_need (e_len b at)) = room b at"
    using assms(1) by (auto simp: room_def roomy_def)
  with assms(2) show ?thesis by (simp add: Let_def)
qed

lemma fit_entry_works:
  assumes "walk b a os z" "z \<le> length b" "nameable name ino"
  shows "if \<forall>at \<in> set os. room b at < entry_need (length name) then fit_entry b ino name t os = Some None
    else \<exists>b'. fit_entry b ino name t os = Some (Some b') \<and> name_placed b name ino os b'"
  using assms(1)
proof (induction os arbitrary: a)
  case (Cons x os)
  then have w: "x = a" "roomy b a" "walk b (a + e_rec b a) os z" by auto
  then have z: "a + e_rec b a \<le> length b" using walk_le assms(2) by fastforce
  show ?case
  proof (cases "room b a < entry_need (length name)")
    case True
    then have "fit_entry b ino name t (x # os) = fit_entry b ino name t os" using fit_entry_skips w by simp
    moreover have "(\<forall>at \<in> set (x # os). room b at < entry_need (length name))
        \<longleftrightarrow> (\<forall>at \<in> set os. room b at < entry_need (length name))" using True w(1) by simp
    ultimately show ?thesis using Cons.IH [OF w(3)] placed_Cons by (metis (no_types, lifting))
  next
    case False
    with fit_entry_step [OF w(2) z assms(3), of t os] w(1) show ?thesis by (simp del: fit_entry.simps)
  qed
qed simp

lemma placed_listing:
  assumes "walk b 0 os (length b)" "name_placed b name ino os b'"
  shows "\<exists>os' ls rs. walk b' 0 os' (length b') \<and> listing b os = ls @ rs \<and> listing b' os' = ls @ (name, ino) # rs"
proof -
  obtain pre at post mid where p: "os = pre @ at # post" "length b' = length b" "walk b' at mid (at + e_rec b at)"
    "listing b' mid = listing b [at] @ [(name, ino)]" "same_on b b' 0 at" "same_on b b' (at + e_rec b at) (length b)"
    using assms(2) unfolding name_placed_def by blast
  have w: "walk b 0 pre at" "walk b (at + e_rec b at) post (length b)" using assms(1) p(1) by (auto simp: walk_append)
  have "listing b os = (listing b pre @ listing b [at]) @ listing b post" using p(1) by simp
  moreover have "walk b' 0 (pre @ mid @ post) (length b')"
    "listing b' (pre @ mid @ post) = (listing b pre @ listing b [at]) @ (name, ino) # listing b post"
    using replace_records [OF w p(2,3,5,6)] p(4) by simp_all
  ultimately show ?thesis by blast
qed

lemma map_of_insert: "name \<notin> fst ` set (ls @ rs) \<Longrightarrow> map_of (ls @ (name, ino) # rs) = (map_of (ls @ rs))(name \<mapsto> ino)"
  by (induction ls) (auto simp: fun_eq_iff)

lemma placed_block:
  assumes "block_ok b" "name_placed b name ino (entry_offsets b 0) b'" "listed b name = None"
  shows "block_ok b' \<and> listed b' = (listed b)(name \<mapsto> ino)"
proof -
  have b: "walk b 0 (entry_offsets b 0) (length b)" "length b < 65536"
    "distinct (map fst (listing b (entry_offsets b 0)))" using assms(1) by (auto simp: block_ok_def)
  obtain os' ls rs where r: "walk b' 0 os' (length b')" "listing b (entry_offsets b 0) = ls @ rs"
    "listing b' os' = ls @ (name, ino) # rs" using placed_listing [OF b(1) assms(2)] by blast
  have new: "name \<notin> fst ` set (ls @ rs)" using assms(3) unfolding r(2) map_of_eq_None_iff .
  then have "distinct (map fst (listing b' os'))" using b(3) r(2,3) by auto
  moreover have "length b' < 65536" using assms(2) b(2) by (auto simp: name_placed_def)
  moreover have "entry_offsets b' 0 = os'" using walk_offsets r(1) by blast
  ultimately show ?thesis using r block_okI map_of_insert [OF new] by simp
qed

section \<open>Removing\<close>

lemma find_prev_works:
  assumes "walk b a os z" "z \<le> length b"
  shows "(find_prev b name p os = Some None \<and> map_of (listing b os) name = None)
    \<or> (\<exists>pre at post. os = pre @ at # post \<and> holds_name b at \<and> name_of b at = name
        \<and> find_prev b name p os = Some (Some (if pre = [] then p else Some (last pre), at)))"
  using assms(1)
proof (induction os arbitrary: a p)
  case (Cons x os)
  then have w: "x = a" "roomy b a" "walk b (a + e_rec b a) os z" by auto
  then have "holds_name b a \<longrightarrow> a + 8 + e_len b a \<le> length b"
    using roomy_holds [OF w(2)] walk_le [OF w(3)] assms(2) by auto
  then have step: "find_prev b name p (x # os) = (if holds_name b a \<and> name_of b a = name then Some (Some (p, a))
      else find_prev b name (Some a) os)"
    using w(1) name_eq_slice [of "a + 8" "e_len b a" b name] by (auto simp: holds_name_def name_of_def)
  show ?case
  proof (cases "holds_name b a \<and> name_of b a = name")
    case True
    with step w(1) show ?thesis by (intro disjI2 exI [of _ "[]"]) (simp del: find_prev.simps)
  next
    case False
    from Cons.IH [OF w(3), of "Some a"] show ?thesis
    proof (elim disjE exE conjE)
      fix pre at post
      assume "os = pre @ at # post" "holds_name b at" "name_of b at = name"
        "find_prev b name (Some a) os = Some (Some (if pre = [] then Some a else Some (last pre), at))"
      with False step w(1) show ?thesis by (intro disjI2 exI [of _ "a # pre"]) (auto simp del: find_prev.simps)
    qed (use False step w(1) in \<open>auto simp del: find_prev.simps\<close>)
  qed
qed simp

lemma drop_first:
  assumes "walk b 0 (at # post) (length b)"
  shows "walk (wr32w b at 0) 0 (at # post) (length b) \<and> listing (wr32w b at 0) (at # post) = listing b post"
proof -
  let ?b = "wr32w b at 0"
  have w: "at = 0" "roomy b at" "walk b (at + e_rec b at) post (length b)" using assms by auto
  then have z: "8 \<le> e_rec b at" "at + e_rec b at \<le> length b" using walk_le by (auto simp: roomy_def)
  have s: "same_on b ?b (at + e_rec b at) (length b)" "same_on b ?b 0 at"
    using z(1) by (auto simp: same_on_def byte_at_wr_other)
  have i: "e_ino ?b at = 0" using z by simp
  have r: "e_rec ?b at = e_rec b at" by (simp add: rd16_wr32w_other)
  have "roomy ?b at" using i r z(1) by (simp add: roomy_def)
  then have "walk ?b at [at] (at + e_rec b at)" "listing ?b [at] = []" using i r by (auto simp: holds_name_def)
  with replace_records [of b "[]" at "at + e_rec b at" post ?b "[at]"] w s show ?thesis by simp
qed

lemma drop_merges:
  assumes "walk b 0 (pre @ p # at # post) (length b)" "length b < 65536"
  defines "b' \<equiv> wr16w b (p + 4) (e_rec b p + e_rec b at)"
  shows "walk b' 0 (pre @ p # post) (length b) \<and> listing b' (pre @ p # post) = listing b (pre @ [p]) @ listing b post"
proof -
  have w: "walk b 0 pre p" "roomy b p" "at = p + e_rec b p" "roomy b at" "walk b (at + e_rec b at) post (length b)"
    using assms(1) by (auto simp: walk_append)
  then have z: "8 \<le> e_rec b p" "p + (e_rec b p + e_rec b at) \<le> length b" using walk_le by (fastforce simp: roomy_def)+
  have hi: "at + e_rec b at = p + (e_rec b p + e_rec b at)" using w(3) by simp
  have s: "same_on b b' 0 p" "same_on b b' (p + (e_rec b p + e_rec b at)) (length b)"
    unfolding b'_def by (rule wr16w_same; use z in simp)+
  have "p + 8 \<le> length b" "e_rec b p + e_rec b at < 65536" using z assms(2) by linarith+
  note e = resize_reads [OF this, folded b'_def]
  have "roomy b' p" using e w(2) by (auto simp: roomy_def)
  then have m: "walk b' p [p] (p + (e_rec b p + e_rec b at))" "listing b' [p] = listing b [p]" using e by auto
  have "length b' = length b" by (simp add: b'_def)
  from replace_records [OF w(1) _ this m(1) s] w(5) m(2) show ?thesis by (simp add: hi b'_def)
qed

lemma map_of_removed:
  assumes "distinct (map fst (ls @ (name, ino) # rs))"
  shows "map_of (ls @ (name, ino) # rs) name = Some ino" "map_of (ls @ rs) = (map_of (ls @ (name, ino) # rs))(name := None)"
    "distinct (map fst (ls @ rs))"
proof -
  have new: "name \<notin> fst ` set (ls @ rs)" using assms by auto
  then have "map_of (ls @ rs) name = None" by (simp only: map_of_eq_None_iff not_False_eq_True)
  then show "map_of (ls @ (name, ino) # rs) name = Some ino"
    "map_of (ls @ rs) = (map_of (ls @ (name, ino) # rs))(name := None)"
    unfolding map_of_insert [OF new] by (simp_all add: fun_upd_idem)
  show "distinct (map fst (ls @ rs))" using assms by auto
qed

text \<open>The operations on one block, as the loops over the blocks of a directory use them.\<close>

definition block_find :: "bytes \<Rightarrow> bytes \<Rightarrow> (nat option \<times> bytes) option" where
  "block_find name b = map_option (\<lambda>hit. (map_option (e_ino b) hit, b)) (find_name b name (entry_offsets b 0))"

definition block_add :: "nat \<Rightarrow> bytes \<Rightarrow> nat \<Rightarrow> bytes \<Rightarrow> (bool \<times> bytes) option" where
  "block_add t name ino b =
     map_option (\<lambda>r. case r of None \<Rightarrow> (False, b) | Some b' \<Rightarrow> (True, b')) (fit_entry b ino name t (entry_offsets b 0))"

definition block_remove :: "bytes \<Rightarrow> bytes \<Rightarrow> (nat option \<times> bytes) option" where
  "block_remove name b =
     map_option (\<lambda>hit. case hit of None \<Rightarrow> (None, b) | Some (prev, at) \<Rightarrow> (Some (e_ino b at), drop_entry b prev at))
       (find_prev b name None (entry_offsets b 0))"

definition block_fits :: "bytes \<Rightarrow> bytes \<Rightarrow> bool" where
  "block_fits name b \<longleftrightarrow> (\<exists>at \<in> set (entry_offsets b 0). entry_need (length name) \<le> room b at)"

lemma find_name_listed:
  "block_ok b \<Longrightarrow> \<exists>hit. find_name b name (entry_offsets b 0) = Some hit \<and> map_option (e_ino b) hit = listed b name"
  using find_name_listing [of b 0 "entry_offsets b 0" "length b" name] find_map_of [of b name "entry_offsets b 0"]
  by (simp add: block_ok_def)

lemma fit_entry_listed:
  assumes "block_ok b" "nameable name ino" "listed b name = None"
  shows "if block_fits name b then \<exists>b'. fit_entry b ino name t (entry_offsets b 0) = Some (Some b') \<and> length b' = length b
      \<and> block_ok b' \<and> listed b' = (listed b)(name \<mapsto> ino)
    else fit_entry b ino name t (entry_offsets b 0) = Some None"
proof -
  have "walk b 0 (entry_offsets b 0) (length b)" using assms(1) by (simp add: block_ok_def)
  from fit_entry_works [OF this order.refl assms(2), of t] placed_block [OF assms(1) _ assms(3)]
  show ?thesis by (auto simp: block_fits_def not_less dest: placed_length split: if_splits)
qed

lemma removed_block:
  assumes "block_ok b" "entry_offsets b 0 = pre @ at # post" "holds_name b at"
    and "walk b' 0 os' (length b)" "length b' = length b" "listing b' os' = listing b pre @ listing b post"
  shows "listed b (name_of b at) = Some (e_ino b at) \<and> block_ok b' \<and> listed b' = (listed b)(name_of b at := None)"
proof -
  have l: "listing b (entry_offsets b 0) = listing b pre @ (name_of b at, e_ino b at) # listing b post"
    using assms(2,3) by simp
  have b: "distinct (map fst (listing b pre @ (name_of b at, e_ino b at) # listing b post))" "length b < 65536"
    using assms(1) unfolding block_ok_def l by simp_all
  have "entry_offsets b' 0 = os'" using walk_offsets assms(4,5) by simp
  then show ?thesis using map_of_removed [OF b(1)] block_okI [of b' os'] assms(4-6) b(2) unfolding l by simp
qed

lemma find_prev_listed:
  assumes "block_ok b"
  shows "if listed b name = None then find_prev b name None (entry_offsets b 0) = Some None
    else \<exists>prev at. find_prev b name None (entry_offsets b 0) = Some (Some (prev, at)) \<and> listed b name = Some (e_ino b at)
      \<and> block_ok (drop_entry b prev at) \<and> listed (drop_entry b prev at) = (listed b)(name := None)"
proof -
  have b: "walk b 0 (entry_offsets b 0) (length b)" "length b < 65536" using assms by (auto simp: block_ok_def)
  from find_prev_works [OF b(1) order.refl, of name None] show ?thesis
  proof (elim disjE exE conjE)
    fix pre at post
    assume f: "entry_offsets b 0 = pre @ at # post" "holds_name b at" "name_of b at = name"
      "find_prev b name None (entry_offsets b 0) = Some (Some (if pre = [] then None else Some (last pre), at))"
    let ?b = "drop_entry b (if pre = [] then None else Some (last pre)) at"
    have "\<exists>os'. walk ?b 0 os' (length b) \<and> listing ?b os' = listing b pre @ listing b post"
    proof (cases "pre = []")
      case True
      with drop_first [of b at post] b(1) f(1) show ?thesis by (auto simp: drop_entry_def simp del: walk.simps)
    next
      case False
      then have "pre @ at # post = butlast pre @ last pre # at # post"
        by (metis append.assoc append_Cons append_Nil append_butlast_last_id)
      with drop_merges [of b "butlast pre" "last pre" at post] b f(1) False show ?thesis
        by (auto simp: drop_entry_def simp del: walk.simps listing_simps)
    qed
    moreover have "length ?b = length b" by (simp add: drop_entry_def)
    ultimately have "listed b name = Some (e_ino b at) \<and> block_ok ?b \<and> listed ?b = (listed b)(name := None)"
      using removed_block [OF assms f(1,2)] f(3) by blast
    then show ?thesis using f(4) by auto
  qed simp
qed

interpretation db: name_store "\<lambda>_. block_ok" listed block_fits nameable block_find "block_add t" block_remove for t
proof unfold_locales
  fix s n i
  show "block_ok s \<Longrightarrow> \<exists>t. block_find n s = Some (listed s n, t) \<and> block_ok t \<and> listed t = listed s"
    using find_name_listed [of s n] by (auto simp: block_find_def)
  show "block_ok s \<Longrightarrow> nameable n i \<Longrightarrow> listed s n = None \<Longrightarrow> block_fits n s \<Longrightarrow>
      \<exists>u. block_add t n i s = Some (True, u) \<and> block_ok u \<and> listed u = (listed s)(n \<mapsto> i)"
    using fit_entry_listed [of s n i t] by (auto simp: block_add_def)
  show "block_ok s \<Longrightarrow> \<exists>t. block_remove n s = Some (listed s n, t) \<and> block_ok t \<and> listed t = (listed s)(n := None)"
    using find_prev_listed [of s n] by (auto simp: block_remove_def fun_upd_idem split: if_splits)
qed

section \<open>What holds of a block\<close>





end
