(* ===== verification/Vfs_Dir_Runs.thy ===== *)
theory Vfs_Dir_Runs
  imports Vfs_Recovery Vfs_Dir_Laws
begin

text \<open>
  Directories on the journalled disk. Inside a transaction the server reads the blocks it has changed
  back from the batch and the others from the disk (\<open>seen\<close>), also when the batch is full and
  \<^verbatim>\<open>write_block\<close> commits it in between. Over that view \<^verbatim>\<open>dir_search\<close>, \<^verbatim>\<open>dir_add\<close> and \<^verbatim>\<open>dir_remove\<close>
  implement a map of names: \<open>name_store\<close> is interpreted on them as \<open>dd\<close>.
\<close>

section \<open>The blocks the server sees\<close>

definition seen :: "vfs \<Rightarrow> nat \<Rightarrow> bytes" where
  "seen s b = (case map_of (g_txn s) b of Some data \<Rightarrow> data | None \<Rightarrow> blk (vdisk s) (gdev s) (bsize s) b)"

text \<open>
  A transaction is open on a filesystem with a journal that holds the largest batch; \<open>k\<close> more commits
  keep its sequence number within 32 bits.
\<close>

definition store_ready :: "nat \<Rightarrow> vfs \<Rightarrow> bool" where
  "store_ready k s \<longleftrightarrow> commit_ready (bsize s) s \<and> g_txn_open s \<and> jseq s + 2 + k < 4294967296
     \<and> jfirst s + TXN_MAX + 2 \<le> jmax s"

definition same_geometry :: "vfs \<Rightarrow> vfs \<Rightarrow> bool" where
  "same_geometry s t \<longleftrightarrow> bsize t = bsize s \<and> off_journal t = off_journal s"

lemma same_geometry_refl [simp]: "same_geometry s s"
  by (simp add: same_geometry_def)

lemma same_geometry_trans: "same_geometry s t \<Longrightarrow> same_geometry t u \<Longrightarrow> same_geometry s u"
  by (simp add: same_geometry_def)

lemma store_readyD:
  assumes "store_ready k s"
  shows "commit_ready (bsize s) s" "g_txn_open s" "jseq s + 2 + k < 4294967296" "jfirst s + TXN_MAX + 2 \<le> jmax s"
    "block_layer_ok (bsize s) s" "\<not> g_txn_bypass s" "txn_wf s" "0 < bsize s"
  using assms commit_readyD [of "bsize s" s] journal_okD [of "bsize s" s] by (auto simp: store_ready_def)

lemma find_map_of_pair: "map_option snd (find (\<lambda>e. fst e = b) es) = map_of es b"
  by (induction es) auto

lemma length_seen: "store_ready k s \<Longrightarrow> length (seen s b) = bsize s"
  using txn_wfD(1) [OF store_readyD(7), of k s "(b, _)"]
  by (auto simp: seen_def blk_def split: option.splits dest: map_of_SomeD)

lemma cache_step_ready:
  assumes "cache_step s t" "block_layer_ok (bsize s) t" "store_ready k s"
  shows "store_ready k t \<and> same_geometry s t \<and> seen t = seen s"
proof -
  have f: "vdisk t = vdisk s" "g_fs t = g_fs s" "g_cur t = g_cur s" "journal_inode t = journal_inode s"
    "g_txn_open t = g_txn_open s" "g_txn_bypass t = g_txn_bypass s" "g_txn t = g_txn s"
    using assms(1) by (simp_all add: cache_step_def)
  have "seen t = seen s" by (rule ext) (simp add: seen_def f split: option.split)
  then show ?thesis using assms(2,3)
    by (auto simp: store_ready_def commit_ready_def journal_ok_def journal_geometry_def txn_wf_def journal_fresh_def
        same_geometry_def off_journal_def [abs_def] f)
qed

lemma read_block_seen:
  assumes "store_ready k s"
  shows "\<exists>t. read_block b s = Some (Some (seen s b), t) \<and> store_ready k t \<and> same_geometry s t \<and> seen t = seen s"
proof -
  note r = store_readyD [OF assms]
  have peek: "txn_peek b s = map_of (g_txn s) b" using r(2,6) by (simp add: txn_peek_def find_map_of_pair)
  show ?thesis
  proof (cases "map_of (g_txn s) b")
    case None
    obtain t where "read_block b s = Some (Some (blk (vdisk s) (gdev s) (bsize s) b), t)" "cache_step s t"
      "block_layer_ok (bsize s) t" by (rule read_block_disk [OF r(5), of b]) (simp_all add: peek None)
    with None cache_step_ready [OF _ _ assms] show ?thesis by (auto simp: seen_def [of s b])
  next
    case (Some data)
    with peek assms show ?thesis by (simp add: read_block_def seen_def [of s b])
  qed
qed

subsection \<open>Writing\<close>

lemma ready_batch:
  assumes "store_ready k s" "\<forall>e \<in> set es. length (snd e) = bsize s \<and> 0 < fst e \<and> fst e < 4294967296 \<and> off_journal s (fst e)"
    and "distinct (map fst es)" "length es \<le> TXN_MAX"
  shows "store_ready k (s\<lparr>g_txn := es\<rparr>) \<and> same_geometry s (s\<lparr>g_txn := es\<rparr>)"
  using assms by (auto simp: store_ready_def commit_ready_def journal_ok_def journal_geometry_def txn_wf_def journal_fresh_def
        same_geometry_def off_journal_def [abs_def])

lemma batch_entries:
  "store_ready k s \<Longrightarrow> \<forall>e \<in> set (g_txn s). length (snd e) = bsize s \<and> 0 < fst e \<and> fst e < 4294967296 \<and> off_journal s (fst e)"
  using store_readyD(7) by (auto simp: txn_wf_def off_journal_def)

lemma txn_replace_keys: "map fst (txn_replace b data es) = map fst es"
  by (induction es) auto

lemma txn_replace_entries: "set (txn_replace b data es) \<subseteq> insert (b, data) (set es)"
  by (induction es) auto

lemma map_of_txn_replace: "b \<in> fst ` set es \<Longrightarrow> map_of (txn_replace b data es) = (map_of es)(b \<mapsto> data)"
proof (induction es)
  case (Cons e es)
  then show ?case by (cases "fst e = b") (simp_all add: fun_eq_iff)
qed simp

lemma seen_batch:
  "map_of es = (map_of (g_txn s))(b \<mapsto> data) \<Longrightarrow> seen (s\<lparr>g_txn := es\<rparr>) = (seen s)(b := data)"
  by (rule ext) (simp add: seen_def split: option.split)

lemma append_ready:
  assumes "store_ready k s" "b \<notin> fst ` set (g_txn s)" "length (g_txn s) < TXN_MAX"
    and "length data = bsize s" "0 < b" "b < 4294967296" "off_journal s b"
  defines "t \<equiv> s\<lparr>g_txn := g_txn s @ [(b, data)]\<rparr>"
  shows "store_ready k t \<and> same_geometry s t \<and> seen t = (seen s)(b := data)"
proof -
  have "seen t = (seen s)(b := data)"
    unfolding t_def by (rule seen_batch) (use assms(2) map_of_insert [of b "g_txn s" "[]" data] in simp)
  moreover have "store_ready k t \<and> same_geometry s t"
    unfolding t_def by (rule ready_batch [OF assms(1)])
      (use assms batch_entries [OF assms(1)] txn_wfD(5) [OF store_readyD(7) [OF assms(1)]] in auto)
  ultimately show ?thesis by blast
qed

lemma replace_ready:
  assumes "store_ready k s" "b \<in> fst ` set (g_txn s)" "length data = bsize s"
  defines "t \<equiv> s\<lparr>g_txn := txn_replace b data (g_txn s)\<rparr>"
  shows "store_ready k t \<and> same_geometry s t \<and> seen t = (seen s)(b := data)"
proof -
  note wf = txn_wfD [OF store_readyD(7) [OF assms(1)]]
  have "store_ready k t \<and> same_geometry s t" unfolding t_def
  proof (rule ready_batch [OF assms(1)])
    show "\<forall>e \<in> set (txn_replace b data (g_txn s)). length (snd e) = bsize s \<and> 0 < fst e \<and> fst e < 4294967296 \<and> off_journal s (fst e)"
      using txn_replace_entries [of b data "g_txn s"] batch_entries [OF assms(1)] assms(2,3) by fastforce
    show "length (txn_replace b data (g_txn s)) \<le> TXN_MAX"
      using arg_cong [OF txn_replace_keys [of b data "g_txn s"], of length] wf(6) by (simp add: TXN_MAX_def)
  qed (simp add: txn_replace_keys wf(5))
  moreover have "seen t = (seen s)(b := data)"
    unfolding t_def by (rule seen_batch) (rule map_of_txn_replace [OF assms(2)])
  ultimately show ?thesis by blast
qed

lemma flush_seen:
  assumes "store_ready (Suc k) s" "g_txn s \<noteq> []"
  obtains t where "txn_flush s = Some (True, t)" "store_ready k t" "same_geometry s t" "g_txn t = []"
    "\<And>c. off_journal s c \<Longrightarrow> seen t c = seen s c"
proof -
  note r = store_readyD [OF assms(1)] and c = commit_readyD [OF store_readyD(1) [OF assms(1)]]
  have q: "jseq s + 2 < 4294967296" using r(3) by simp
  obtain t where t: "txn_flush s = Some (True, t)" "commit_ready (bsize s) t" "g_txn t = []"
    "vdisk t = set_blks (gdev s) (bsize s) (flush_writes s) (vdisk s)" "g_cur t = g_cur s"
    "g_fs t = (g_fs s)[g_cur s := (gfs s)\<lparr>jrnl_seq := jseq s + 1\<rparr>]" "g_txn_open t = g_txn_open s"
    "journal_inode t = journal_inode s"
    using flush_ready [OF r(1) assms(2) q] by metis
  have g: "gfs t = (gfs s)\<lparr>jrnl_seq := jseq s + 1\<rparr>" using t(5,6) c(3) by simp
  have home: "fs_is s (map_of (g_txn s)) (vdisk t)" by (rule flushed_home [OF r(1) t(4)])
  show ?thesis
  proof (rule that [OF t(1) _ _ t(3)])
    show "store_ready k t" using r t(2,7) by (simp add: store_ready_def g)
    show "same_geometry s t" by (simp add: same_geometry_def off_journal_def [abs_def] g t(8)) (simp add: t(5))
    show "seen t b = seen s b" if "off_journal s b" for b
      using home that by (simp add: seen_def t(3) g fs_is_def)
  qed
qed

lemma write_block_seen:
  assumes "store_ready (Suc k) s" "length data = bsize s" "0 < b" "b < 4294967296" "off_journal s b"
  shows "\<exists>t. write_block b data s = Some (True, t) \<and> store_ready k t \<and> same_geometry s t
    \<and> (\<forall>c. off_journal s c \<longrightarrow> seen t c = ((seen s)(b := data)) c)"
proof -
  note r = store_readyD [OF assms(1)]
  have down: "store_ready k u" if "store_ready (Suc k) u" for u using that by (simp add: store_ready_def)
  consider "b \<in> fst ` set (g_txn s)" | "b \<notin> fst ` set (g_txn s)" "length (g_txn s) < TXN_MAX"
    | "b \<notin> fst ` set (g_txn s)" "length (g_txn s) = TXN_MAX"
    using txn_wfD(6) [OF r(7)] by (fastforce simp: TXN_MAX_def)
  then show ?thesis
  proof cases
    case 1
    with replace_ready [OF assms(1) 1 assms(2)] r(2,6) down show ?thesis by (auto simp: write_block_def)
  next
    case 2
    with append_ready [OF assms(1) 2 assms(2-5)] r(2,6) down show ?thesis by (auto simp: write_block_def)
  next
    case 3
    then have "g_txn s \<noteq> []" by (auto simp: TXN_MAX_def)
    then obtain t where t: "txn_flush s = Some (True, t)" "store_ready k t" "same_geometry s t" "g_txn t = []"
      "\<And>c. off_journal s c \<Longrightarrow> seen t c = seen s c" using flush_seen [OF assms(1)] by blast
    have "store_ready k (t\<lparr>g_txn := g_txn t @ [(b, data)]\<rparr>) \<and> same_geometry t (t\<lparr>g_txn := g_txn t @ [(b, data)]\<rparr>)
        \<and> seen (t\<lparr>g_txn := g_txn t @ [(b, data)]\<rparr>) = (seen t)(b := data)"
      by (rule append_ready [OF t(2)]) (use t(3,4) assms in \<open>simp_all add: TXN_MAX_def same_geometry_def\<close>)
    with 3 t r(2,6) same_geometry_trans [OF t(3)] show ?thesis by (auto simp: write_block_def)
  qed
qed

section \<open>The names of a directory\<close>

definition blocks_of :: "inode \<Rightarrow> nat list \<Rightarrow> nat list" where
  "blocks_of dir fbs = filter (\<lambda>b. b \<noteq> 0) (map (inline_map dir) fbs)"

lemma blocks_of_simps [simp]:
  "blocks_of dir [] = []"
  "blocks_of dir (fb # fbs) = (if inline_map dir fb = 0 then blocks_of dir fbs else inline_map dir fb # blocks_of dir fbs)"
  by (simp_all add: blocks_of_def)

primrec first_of :: "(bytes \<Rightarrow> nat option) list \<Rightarrow> bytes \<Rightarrow> nat option" where
  "first_of [] n = None"
| "first_of (m # ms) n = (case m n of None \<Rightarrow> first_of ms n | Some i \<Rightarrow> Some i)"

lemma first_of_None: "first_of ms n = None \<longleftrightarrow> (\<forall>m \<in> set ms. m n = None)"
  by (induction ms) (auto split: option.splits)

lemma first_of_append: "first_of (xs @ ys) n = (case first_of xs n of None \<Rightarrow> first_of ys n | Some i \<Rightarrow> Some i)"
  by (induction xs) (auto split: option.splits)

abbreviation names_in :: "vfs \<Rightarrow> nat list \<Rightarrow> bytes \<Rightarrow> nat option" where
  "names_in s bs \<equiv> first_of (map (\<lambda>b. listed (seen s b)) bs)"

abbreviation same_view :: "nat \<Rightarrow> vfs \<Rightarrow> vfs \<Rightarrow> bool" where
  "same_view k s t \<equiv> store_ready k t \<and> same_geometry s t \<and> seen t = seen s"

lemma read_dir_block:
  assumes "store_ready k s" "inline_root dir"
  obtains t where "map_block dir fb s = Some (inline_map dir fb, s)"
    "read_block (inline_map dir fb) s = Some (Some (seen s (inline_map dir fb)), t)" "same_view k s t"
  using read_block_seen [OF assms(1), of "inline_map dir fb"] map_block_inline [OF assms(2)] by blast

lemma same_view_trans: "same_view k s t \<Longrightarrow> same_view k t u \<Longrightarrow> same_view k s u"
  using same_geometry_trans by auto

lemma dir_find_in_seen:
  assumes "inline_root dir" "store_ready k s" "\<forall>b \<in> set (blocks_of dir fbs). block_ok (seen s b)"
  shows "\<exists>t. dir_find_in dir name fbs s
      = Some (case names_in s (blocks_of dir fbs) name of None \<Rightarrow> 0 | Some i \<Rightarrow> i, t) \<and> same_view k s t"
  using assms(2,3)
proof (induction fbs arbitrary: s)
  case (Cons fb fbs)
  let ?b = "inline_map dir fb"
  obtain t where t: "map_block dir fb s = Some (?b, s)" "read_block ?b s = Some (Some (seen s ?b), t)" "same_view k s t"
    by (rule read_dir_block [OF Cons.prems(1) assms(1)])
  show ?case
  proof (cases "?b = 0")
    case True
    then show ?thesis using Cons t(1) by simp
  next
    case False
    obtain hit where hit: "find_name (seen s ?b) name (entry_offsets (seen s ?b) 0) = Some hit"
      "map_option (e_ino (seen s ?b)) hit = listed (seen s ?b) name"
      using find_name_listed [of "seen s ?b" name] Cons.prems(2) False by auto
    show ?thesis
    proof (cases hit)
      case None
      have "\<exists>u. dir_find_in dir name fbs t
          = Some (case names_in t (blocks_of dir fbs) name of None \<Rightarrow> 0 | Some i \<Rightarrow> i, u) \<and> same_view k t u"
        by (rule Cons.IH) (use t(3) Cons.prems(2) False in auto)
      then obtain u where u: "dir_find_in dir name fbs t
          = Some (case names_in t (blocks_of dir fbs) name of None \<Rightarrow> 0 | Some i \<Rightarrow> i, u)" "same_view k t u" by blast
      have "listed (seen s ?b) name = None" using hit(2) None by simp
      moreover have "same_view k s u" by (rule same_view_trans [OF t(3) u(2)])
      ultimately show ?thesis using None hit(1) t False u(1) by (intro exI [of _ u]) simp
    next
      case (Some at)
      then have "listed (seen s ?b) name = Some (e_ino (seen s ?b) at)" using hit(2) by simp
      then show ?thesis using Some hit(1) t False by (intro exI [of _ t]) simp
    qed
  qed
qed simp

lemma listing_pos: "map_of (listing c os) n = Some i \<Longrightarrow> 0 < i"
  by (induction os) (auto simp: holds_name_def split: if_splits)

lemma names_in_pos: "names_in s bs n = Some i \<Longrightarrow> 0 < i"
  by (induction bs) (auto split: option.splits dest: listing_pos)

subsection \<open>Adding\<close>

definition dir_fits :: "inode \<Rightarrow> nat list \<Rightarrow> bytes \<Rightarrow> vfs \<Rightarrow> bool" where
  "dir_fits dir fbs name s \<longleftrightarrow> (\<exists>b \<in> set (blocks_of dir fbs). block_fits name (seen s b))"

text \<open>One block of the directory now lists what \<open>f\<close> makes of what it listed before.\<close>

definition changed_one :: "nat \<Rightarrow> nat list \<Rightarrow> ((bytes \<Rightarrow> nat option) \<Rightarrow> bytes \<Rightarrow> nat option) \<Rightarrow> vfs \<Rightarrow> vfs \<Rightarrow> bool" where
  "changed_one k bs f s t \<longleftrightarrow> store_ready k t \<and> same_geometry s t \<and> (\<exists>b \<in> set bs. block_ok (seen t b)
     \<and> listed (seen t b) = f (listed (seen s b)) \<and> (\<forall>c. off_journal s c \<longrightarrow> c \<noteq> b \<longrightarrow> seen t c = seen s c))"

lemma changed_one_mono: "changed_one k bs f s t \<Longrightarrow> set bs \<subseteq> set bs' \<Longrightarrow> changed_one k bs' f s t"
  by (auto simp: changed_one_def)

lemma changed_one_view: "same_view l s t \<Longrightarrow> changed_one k bs f t u \<Longrightarrow> changed_one k bs f s u"
  by (auto simp: changed_one_def same_geometry_def)

lemma write_changes_one:
  assumes "same_view (Suc k) s t" "0 < b" "b < 4294967296" "off_journal s b"
    and "block_ok data" "length data = length (seen s b)" "listed data = f (listed (seen s b))"
  obtains u where "write_block b data t = Some (True, u)" "changed_one k [b] f s u"
proof -
  have "length data = bsize t" using assms(1,6) length_seen [of "Suc k" t b] by simp
  moreover have "off_journal t b" using assms(1,4) by (simp add: same_geometry_def)
  ultimately obtain u where u: "write_block b data t = Some (True, u)" "store_ready k u" "same_geometry t u"
    "\<forall>c. off_journal t c \<longrightarrow> seen u c = ((seen t)(b := data)) c"
    using write_block_seen [of k t data b] assms(1-3) by auto
  then have "changed_one k [b] f t u" using \<open>off_journal t b\<close> assms(1,5,7) by (simp add: changed_one_def)
  then show ?thesis using that u(1) changed_one_view assms(1) by blast
qed

definition dir_blocks_ok :: "inode \<Rightarrow> nat list \<Rightarrow> vfs \<Rightarrow> bool" where
  "dir_blocks_ok dir fbs s \<longleftrightarrow> inline_root dir
     \<and> (\<forall>b \<in> set (blocks_of dir fbs). b < 4294967296 \<and> off_journal s b \<and> block_ok (seen s b))"

lemma dir_add_in_seen:
  assumes "store_ready (Suc k) s" "dir_blocks_ok dir fbs s" "nameable name ino" "dir_fits dir fbs name s"
    and "\<forall>b \<in> set (blocks_of dir fbs). listed (seen s b) name = None"
  shows "\<exists>t. dir_add_in dir dir_ino name ino ty fbs s = Some ((True, dir), t)
    \<and> changed_one k (blocks_of dir fbs) (\<lambda>m. m(name \<mapsto> ino)) s t"
  using assms(1,2,4,5)
proof (induction fbs arbitrary: s)
  case Nil
  then show ?case by (simp add: dir_fits_def)
next
  case (Cons fb fbs)
  let ?b = "inline_map dir fb"
  have root: "inline_root dir" using Cons.prems(2) by (simp add: dir_blocks_ok_def)
  obtain t where t: "map_block dir fb s = Some (?b, s)" "read_block ?b s = Some (Some (seen s ?b), t)" "same_view (Suc k) s t"
    by (rule read_dir_block [OF Cons.prems(1) root])
  show ?case
  proof (cases "?b = 0")
    case True
    then show ?thesis using Cons t(1) by (simp add: dir_fits_def dir_blocks_ok_def)
  next
    case False
    have b: "?b < 4294967296" "off_journal s ?b" "block_ok (seen s ?b)" "listed (seen s ?b) name = None"
      using Cons.prems(2,4) False by (auto simp: dir_blocks_ok_def)
    note fit = fit_entry_listed [OF b(3) assms(3) b(4), of ty]
    show ?thesis
    proof (cases "block_fits name (seen s ?b)")
      case True
      then obtain c where c: "fit_entry (seen s ?b) ino name ty (entry_offsets (seen s ?b) 0) = Some (Some c)"
        "length c = length (seen s ?b)" "block_ok c" "listed c = (listed (seen s ?b))(name \<mapsto> ino)" using fit by auto
      obtain u where u: "write_block ?b c t = Some (True, u)" "changed_one k [?b] (\<lambda>m. m(name \<mapsto> ino)) s u"
        using write_changes_one [OF t(3) _ b(1,2) c(3,2), of "\<lambda>m. m(name \<mapsto> ino)"] c(4) False by auto
      have "changed_one k (blocks_of dir (fb # fbs)) (\<lambda>m. m(name \<mapsto> ino)) s u"
        by (rule changed_one_mono [OF u(2)]) (simp add: False)
      moreover have "dir_add_in dir dir_ino name ino ty (fb # fbs) s = Some ((True, dir), u)" using t c(1) u(1) False by simp
      ultimately show ?thesis by blast
    next
      case nofit: False
      have "\<exists>u. dir_add_in dir dir_ino name ino ty fbs t = Some ((True, dir), u)
          \<and> changed_one k (blocks_of dir fbs) (\<lambda>m. m(name \<mapsto> ino)) t u"
        by (rule Cons.IH) (use t(3) Cons.prems(2-4) False nofit in
          \<open>auto simp: dir_blocks_ok_def dir_fits_def same_geometry_def\<close>)
      then obtain u where u: "dir_add_in dir dir_ino name ino ty fbs t = Some ((True, dir), u)"
        "changed_one k (blocks_of dir fbs) (\<lambda>m. m(name \<mapsto> ino)) t u" by blast
      have "changed_one k (blocks_of dir (fb # fbs)) (\<lambda>m. m(name \<mapsto> ino)) s u"
        by (rule changed_one_mono [OF changed_one_view [OF t(3) u(2)]]) auto
      moreover have "dir_add_in dir dir_ino name ino ty (fb # fbs) s = Some ((True, dir), u)"
        using t fit nofit u(1) False by simp
      ultimately show ?thesis by blast
    qed
  qed
qed

subsection \<open>Removing\<close>

definition erase :: "bytes \<Rightarrow> (bytes \<Rightarrow> nat option) \<Rightarrow> bytes \<Rightarrow> nat option" where
  "erase name m = m(name := None)"

lemma remove_here:
  assumes "store_ready (Suc k) s" "inline_root dir" "inline_map dir fb \<noteq> 0" "inline_map dir fb < 4294967296"
    and "off_journal s (inline_map dir fb)" "block_ok (seen s (inline_map dir fb))" "listed (seen s (inline_map dir fb)) name \<noteq> None"
  shows "\<exists>u. dir_remove_in dir name (fb # fbs) s = Some ((True, listed (seen s (inline_map dir fb)) name), u)
    \<and> changed_one k [inline_map dir fb] (erase name) s u"
proof -
  let ?b = "inline_map dir fb"
  obtain t where t: "map_block dir fb s = Some (?b, s)" "read_block ?b s = Some (Some (seen s ?b), t)" "same_view (Suc k) s t"
    by (rule read_dir_block [OF assms(1,2)])
  obtain p at where p: "find_prev (seen s ?b) name None (entry_offsets (seen s ?b) 0) = Some (Some (p, at))"
    "listed (seen s ?b) name = Some (e_ino (seen s ?b) at)" "block_ok (drop_entry (seen s ?b) p at)"
    "listed (drop_entry (seen s ?b) p at) = erase name (listed (seen s ?b))"
    using find_prev_listed [OF assms(6), of name] assms(7) by (auto simp: erase_def)
  have "length (drop_entry (seen s ?b) p at) = length (seen s ?b)" by (simp add: drop_entry_def split: option.split)
  then obtain u where "write_block ?b (drop_entry (seen s ?b) p at) t = Some (True, u)" "changed_one k [?b] (erase name) s u"
    using write_changes_one [OF t(3) _ assms(4,5) p(3), of "erase name"] p(4) assms(3) by auto
  then show ?thesis using t p(1,2) assms(3) by (intro exI [of _ u]) simp
qed

lemma dir_remove_in_seen:
  assumes "store_ready (Suc k) s" "dir_blocks_ok dir fbs s"
  shows "if names_in s (blocks_of dir fbs) name = None
    then \<exists>t. dir_remove_in dir name fbs s = Some ((False, None), t) \<and> same_view (Suc k) s t
    else \<exists>t. \<exists>b \<in> set (blocks_of dir fbs). dir_remove_in dir name fbs s = Some ((True, listed (seen s b) name), t)
      \<and> listed (seen s b) name = names_in s (blocks_of dir fbs) name \<and> changed_one k [b] (erase name) s t"
  using assms
proof (induction fbs arbitrary: s)
  case (Cons fb fbs)
  let ?b = "inline_map dir fb" and ?f = "erase name"
  have root: "inline_root dir" using Cons.prems(2) by (simp add: dir_blocks_ok_def)
  obtain t where t: "map_block dir fb s = Some (?b, s)" "read_block ?b s = Some (Some (seen s ?b), t)" "same_view (Suc k) s t"
    by (rule read_dir_block [OF Cons.prems(1) root])
  show ?case
  proof (cases "?b = 0")
    case True
    moreover have "dir_blocks_ok dir fbs s" using Cons.prems(2) True by (simp add: dir_blocks_ok_def)
    ultimately show ?thesis using Cons.IH [OF Cons.prems(1)] t(1) by simp
  next
    case False
    have b: "?b < 4294967296" "off_journal s ?b" "block_ok (seen s ?b)"
      using Cons.prems(2) False by (auto simp: dir_blocks_ok_def)
    note prev = find_prev_listed [OF b(3), of name]
    show ?thesis
    proof (cases "listed (seen s ?b) name")
      case None
      have "dir_blocks_ok dir fbs t" using Cons.prems(2) t(3) False by (simp add: dir_blocks_ok_def same_geometry_def)
      note ih = Cons.IH [OF conjunct1 [OF t(3)] this]
      have same: "dir_remove_in dir name (fb # fbs) s = dir_remove_in dir name fbs t"
        "names_in s (blocks_of dir (fb # fbs)) name = names_in t (blocks_of dir fbs) name" "seen t = seen s"
        "set (blocks_of dir fbs) \<subseteq> set (blocks_of dir (fb # fbs))"
        using t prev None False by auto
      show ?thesis
      proof (cases "names_in t (blocks_of dir fbs) name = None")
        case True
        obtain u where "dir_remove_in dir name fbs t = Some ((False, None), u)" "same_view (Suc k) t u"
          using ih unfolding if_P [OF True] by blast
        moreover from this(2) have "same_view (Suc k) s u" by (rule same_view_trans [OF t(3)])
        ultimately show ?thesis unfolding same(1,2) if_P [OF True] by blast
      next
        case found: False
        obtain u c where "dir_remove_in dir name fbs t = Some ((True, listed (seen t c) name), u)"
          "listed (seen t c) name = names_in t (blocks_of dir fbs) name" "changed_one k [c] ?f t u"
          "c \<in> set (blocks_of dir fbs)"
          using ih unfolding if_not_P [OF found] by blast
        moreover from this(3) have "changed_one k [c] ?f s u" by (rule changed_one_view [OF t(3)])
        ultimately show ?thesis unfolding same(1,2) if_not_P [OF found] using same(3,4)
          by (intro exI [of _ u] bexI [of _ c]) auto
      qed
    next
      case (Some i)
      obtain u where u: "dir_remove_in dir name (fb # fbs) s = Some ((True, listed (seen s ?b) name), u)"
        "changed_one k [?b] ?f s u"
        using remove_here [OF Cons.prems(1) root False b] Some by blast
      have "names_in s (blocks_of dir (fb # fbs)) name = listed (seen s ?b) name" "?b \<in> set (blocks_of dir (fb # fbs))"
        using Some False by simp_all
      with u Some show ?thesis by (simp only: option.distinct if_False) (intro exI [of _ u] bexI [of _ ?b]; simp)
    qed
  qed
qed simp

section \<open>A directory is a map of names\<close>

abbreviation dir_blocks :: "inode \<Rightarrow> vfs \<Rightarrow> nat list" where
  "dir_blocks dir s \<equiv> blocks_of dir [0 ..< file_blocks dir s]"

abbreviation dir_names :: "inode \<Rightarrow> vfs \<Rightarrow> bytes \<Rightarrow> nat option" where
  "dir_names dir s \<equiv> names_in s (dir_blocks dir s)"

text \<open>
  The extents of the directory fit its inode, its blocks are outside the journal and well formed, and no
  name is listed in two of them.
\<close>

definition dir_ok :: "inode \<Rightarrow> nat \<Rightarrow> vfs \<Rightarrow> bool" where
  "dir_ok dir k s \<longleftrightarrow> store_ready k s \<and> dir_blocks_ok dir [0 ..< file_blocks dir s] s
     \<and> (\<forall>n. \<forall>b \<in> set (dir_blocks dir s). \<forall>c \<in> set (dir_blocks dir s).
          listed (seen s b) n \<noteq> None \<longrightarrow> listed (seen s c) n \<noteq> None \<longrightarrow> b = c)"

lemma dir_okD:
  assumes "dir_ok dir k s"
  shows "store_ready k s" "dir_blocks_ok dir [0 ..< file_blocks dir s] s" "0 < bsize s"
    "\<And>n b c. b \<in> set (dir_blocks dir s) \<Longrightarrow> c \<in> set (dir_blocks dir s) \<Longrightarrow>
       listed (seen s b) n \<noteq> None \<Longrightarrow> listed (seen s c) n \<noteq> None \<Longrightarrow> b = c"
    "\<And>b. b \<in> set (dir_blocks dir s) \<Longrightarrow> off_journal s b \<and> block_ok (seen s b)"
  using assms store_readyD(8) [of k s] by (auto simp: dir_ok_def dir_blocks_ok_def)

lemma geometry_blocks: "same_geometry s t \<Longrightarrow> file_blocks dir t = file_blocks dir s"
  by (simp add: same_geometry_def file_blocks_def)

lemma dir_ok_view: "dir_ok dir l s \<Longrightarrow> same_view k s t \<Longrightarrow> dir_ok dir k t \<and> dir_names dir t = dir_names dir s"
  using geometry_blocks [of s t dir] by (auto simp: dir_ok_def dir_blocks_ok_def same_geometry_def)

lemma dir_ok_less: "dir_ok dir (Suc k) s \<Longrightarrow> dir_ok dir k s"
  by (auto simp: dir_ok_def store_ready_def)

text \<open>After one block has changed.\<close>

lemma changed_listed:
  assumes "dir_ok dir l s" "changed_one k bs f s t" "set bs \<subseteq> set (dir_blocks dir s)"
  obtains b where "b \<in> set bs" "file_blocks dir t = file_blocks dir s"
    "\<And>c. c \<in> set (dir_blocks dir s) \<Longrightarrow> block_ok (seen t c)
       \<and> listed (seen t c) = (if c = b then f (listed (seen s b)) else listed (seen s c))"
proof -
  obtain b where b: "b \<in> set bs" "block_ok (seen t b)" "listed (seen t b) = f (listed (seen s b))"
    "\<And>c. off_journal s c \<Longrightarrow> c \<noteq> b \<Longrightarrow> seen t c = seen s c" "same_geometry s t"
    using assms(2) by (auto simp: changed_one_def)
  show ?thesis
  proof (rule that [OF b(1) geometry_blocks [OF b(5)]])
    fix c assume "c \<in> set (dir_blocks dir s)"
    then have c: "off_journal s c" "block_ok (seen s c)" using dir_okD(5) [OF assms(1)] by blast+
    show "block_ok (seen t c) \<and> listed (seen t c) = (if c = b then f (listed (seen s b)) else listed (seen s c))"
    proof (cases "c = b")
      case True
      then show ?thesis using b(2,3) by (simp only: if_True refl simp_thms)
    next
      case False
      then show ?thesis using c(2) unfolding b(4) [OF c(1) False] by (simp only: if_False simp_thms)
    qed
  qed
qed

lemma dir_ok_changed:
  assumes "dir_ok dir l s" "changed_one k bs f s t" "file_blocks dir t = file_blocks dir s"
    and "\<And>c. c \<in> set (dir_blocks dir s) \<Longrightarrow> block_ok (seen t c)"
    and "\<And>n c d. c \<in> set (dir_blocks dir s) \<Longrightarrow> d \<in> set (dir_blocks dir s) \<Longrightarrow>
      listed (seen t c) n \<noteq> None \<Longrightarrow> listed (seen t d) n \<noteq> None \<Longrightarrow> c = d"
  shows "dir_ok dir k t"
proof -
  have t: "store_ready k t" "off_journal t = off_journal s" using assms(2) by (simp_all add: changed_one_def same_geometry_def)
  have "dir_blocks_ok dir [0 ..< file_blocks dir s] t"
    using dir_okD(2) [OF assms(1)] assms(4) unfolding dir_blocks_ok_def t(2) by blast
  then show ?thesis using t(1) assms(5) unfolding dir_ok_def assms(3) by blast
qed

lemma first_of_cong: "(\<And>b. b \<in> set bs \<Longrightarrow> g b n = h b n) \<Longrightarrow> first_of (map g bs) n = first_of (map h bs) n"
  by (induction bs) (auto split: option.splits)

lemma first_of_only: "\<exists>b \<in> set bs. g b n = Some i \<Longrightarrow> \<forall>b \<in> set bs. g b n \<noteq> None \<longrightarrow> g b n = Some i \<Longrightarrow> first_of (map g bs) n = Some i"
  by (induction bs) (auto split: option.splits)

lemma added_names:
  assumes "dir_ok dir l s" "changed_one k (dir_blocks dir s) (\<lambda>m. m(name \<mapsto> ino)) s t" "dir_names dir s name = None"
  shows "dir_ok dir k t \<and> dir_names dir t = (dir_names dir s)(name \<mapsto> ino)"
proof -
  have none: "listed (seen s c) name = None" if "c \<in> set (dir_blocks dir s)" for c
    using assms(3) that by (auto simp: first_of_None)
  obtain b where b: "b \<in> set (dir_blocks dir s)" "file_blocks dir t = file_blocks dir s"
    "\<And>c. c \<in> set (dir_blocks dir s) \<Longrightarrow> block_ok (seen t c)
       \<and> listed (seen t c) = (if c = b then (listed (seen s b))(name \<mapsto> ino) else listed (seen s c))"
    using changed_listed [OF assms(1,2)] by blast
  have l: "listed (seen t c) n = (if n = name then if c = b then Some ino else None else listed (seen s c) n)"
    if "c \<in> set (dir_blocks dir s)" for c n using b(3) [OF that] none that by auto
  have "dir_ok dir k t"
    by (rule dir_ok_changed [OF assms(1,2) b(2)]) (use b(3) dir_okD(4) [OF assms(1)] l in \<open>auto split: if_splits\<close>)
  moreover have "dir_names dir t n = ((dir_names dir s)(name \<mapsto> ino)) n" for n
  proof (cases "n = name")
    case True
    then show ?thesis unfolding b(2) by (simp, intro first_of_only) (use b(1) l in auto)
  next
    case False
    then show ?thesis unfolding b(2) by (simp, intro first_of_cong) (use l in auto)
  qed
  ultimately show ?thesis by blast
qed

lemma removed_names:
  assumes "dir_ok dir l s" "b \<in> set (dir_blocks dir s)" "changed_one k [b] (erase name) s t" "listed (seen s b) name \<noteq> None"
  shows "dir_ok dir k t \<and> dir_names dir t = (dir_names dir s)(name := None)"
proof -
  have "set [b] \<subseteq> set (dir_blocks dir s)" using assms(2) by simp
  then obtain b' where b': "b' \<in> set [b]" "file_blocks dir t = file_blocks dir s"
    "\<And>c. c \<in> set (dir_blocks dir s) \<Longrightarrow> block_ok (seen t c)
       \<and> listed (seen t c) = (if c = b' then erase name (listed (seen s b')) else listed (seen s c))"
    using changed_listed [OF assms(1,3)] by blast
  have "b' = b" using b'(1) by simp
  note f = b'(2) and g = b'(3) [unfolded this]
  have l: "listed (seen t c) n = (if n = name then None else listed (seen s c) n)" if "c \<in> set (dir_blocks dir s)" for c n
  proof (cases "c = b")
    case True
    then have "listed (seen t c) = erase name (listed (seen s c))" using g [OF that] by (simp only: if_True refl)
    then show ?thesis by (simp only: erase_def fun_upd_apply)
  next
    case False
    then have "listed (seen t c) = listed (seen s c)" using g [OF that] by (simp only: if_False)
    moreover have "listed (seen s c) name = None" using dir_okD(4) [OF assms(1,2) that assms(4)] False by blast
    ultimately show ?thesis by (cases "n = name") (simp_all only: if_True if_False refl)
  qed
  have "dir_ok dir k t"
  proof (rule dir_ok_changed [OF assms(1,3) f])
    fix n c d assume c: "c \<in> set (dir_blocks dir s)" "d \<in> set (dir_blocks dir s)"
    assume "listed (seen t c) n \<noteq> None" "listed (seen t d) n \<noteq> None"
    then have "listed (seen s c) n \<noteq> None" "listed (seen s d) n \<noteq> None"
      unfolding l [OF c(1)] l [OF c(2)] by (cases "n = name"; simp)+
    then show "c = d" by (rule dir_okD(4) [OF assms(1) c])
  qed (use g in blast)
  moreover have "dir_names dir t n = ((dir_names dir s)(name := None)) n" for n
  proof (cases "n = name")
    case True
    then show ?thesis unfolding f using l by (simp add: first_of_None)
  next
    case False
    then show ?thesis unfolding f by (simp, intro first_of_cong) (use l in auto)
  qed
  ultimately show ?thesis by blast
qed

text \<open>The three operations of the server, read as operations of a store of names.\<close>

definition look_up :: "inode \<Rightarrow> bytes \<Rightarrow> vfs \<Rightarrow> (nat option \<times> vfs) option" where
  "look_up dir name s = map_option (\<lambda>(ino, t). (if ino = 0 then None else Some ino, t)) (dir_search dir name s)"

definition insert_name :: "inode \<Rightarrow> nat \<Rightarrow> nat \<Rightarrow> bytes \<Rightarrow> nat \<Rightarrow> vfs \<Rightarrow> (bool \<times> vfs) option" where
  "insert_name dir dir_ino ty name ino s = map_option (\<lambda>((ok, _), t). (ok, t)) (dir_add dir dir_ino name ino ty s)"

definition take_name :: "inode \<Rightarrow> bytes \<Rightarrow> vfs \<Rightarrow> (nat option \<times> vfs) option" where
  "take_name dir name s = map_option (\<lambda>((_, taken), t). (taken, t)) (dir_remove dir name s)"

lemma dir_search_names:
  assumes "dir_ok dir k s"
  shows "\<exists>t. dir_search dir name s = Some (case dir_names dir s name of None \<Rightarrow> 0 | Some i \<Rightarrow> i, t)
    \<and> dir_ok dir k t \<and> dir_names dir t = dir_names dir s"
proof -
  note d = dir_okD [OF assms]
  have "inline_root dir" "\<forall>b \<in> set (dir_blocks dir s). block_ok (seen s b)" using d(2,5) by (auto simp: dir_blocks_ok_def)
  from dir_find_in_seen [OF this(1) d(1) this(2), of name] obtain t where
    "dir_find_in dir name [0 ..< file_blocks dir s] s = Some (case dir_names dir s name of None \<Rightarrow> 0 | Some i \<Rightarrow> i, t)"
    "same_view k s t" by blast
  moreover from this(2) have "dir_ok dir k t \<and> dir_names dir t = dir_names dir s" by (rule dir_ok_view [OF assms])
  ultimately show ?thesis using d(3) by (simp add: dir_search_def)
qed

lemma dir_add_names:
  assumes "dir_ok dir (Suc k) s" "nameable name ino" "dir_names dir s name = None" "dir_fits dir [0 ..< file_blocks dir s] name s"
  shows "\<exists>t. dir_add dir dir_ino name ino ty s = Some ((True, dir), t)
    \<and> dir_ok dir k t \<and> dir_names dir t = (dir_names dir s)(name \<mapsto> ino)"
proof -
  note d = dir_okD [OF assms(1)]
  have "\<forall>b \<in> set (dir_blocks dir s). listed (seen s b) name = None" using assms(3) by (auto simp: first_of_None)
  from dir_add_in_seen [OF d(1,2) assms(2,4) this, of dir_ino ty] obtain t where
    "dir_add_in dir dir_ino name ino ty [0 ..< file_blocks dir s] s = Some ((True, dir), t)"
    "changed_one k (dir_blocks dir s) (\<lambda>m. m(name \<mapsto> ino)) s t" by blast
  with added_names [OF assms(1) this(2) assms(3)] d(3) show ?thesis unfolding dir_add_def by auto
qed

lemma dir_remove_names:
  assumes "dir_ok dir (Suc k) s"
  shows "\<exists>t. dir_remove dir name s = Some ((dir_names dir s name \<noteq> None, dir_names dir s name), t)
    \<and> dir_ok dir k t \<and> dir_names dir t = (dir_names dir s)(name := None)"
proof -
  note d = dir_okD [OF assms]
  note r = dir_remove_in_seen [OF d(1,2), of name]
  have def: "dir_remove dir name s = dir_remove_in dir name [0 ..< file_blocks dir s] s" using d(3) by (simp add: dir_remove_def)
  show ?thesis
  proof (cases "dir_names dir s name = None")
    case True
    obtain t where t: "dir_remove_in dir name [0 ..< file_blocks dir s] s = Some ((False, None), t)" "same_view (Suc k) s t"
      using r unfolding if_P [OF True] by blast
    have "dir_ok dir k t" "dir_names dir t = dir_names dir s" using dir_ok_view [OF assms t(2)] dir_ok_less by blast+
    with t(1) True show ?thesis unfolding def by (simp add: fun_upd_idem)
  next
    case False
    obtain t b where t: "dir_remove_in dir name [0 ..< file_blocks dir s] s = Some ((True, listed (seen s b) name), t)"
      "listed (seen s b) name = dir_names dir s name" "changed_one k [b] (erase name) s t" "b \<in> set (dir_blocks dir s)"
      using r unfolding if_not_P [OF False] by blast
    have "listed (seen s b) name \<noteq> None" using t(2) False by simp
    from removed_names [OF assms t(4,3) this] t(1,2) False show ?thesis unfolding def by auto
  qed
qed

interpretation dd: name_store "dir_ok dir" "dir_names dir" "\<lambda>n s. dir_fits dir [0 ..< file_blocks dir s] n s" nameable
    "look_up dir" "insert_name dir dir_ino ty" "take_name dir" for dir dir_ino ty
proof unfold_locales
  fix k s n i
  show "\<exists>t. look_up dir n s = Some (dir_names dir s n, t) \<and> dir_ok dir k t \<and> dir_names dir t = dir_names dir s"
    if "dir_ok dir k s"
    using dir_search_names [OF that, of n] names_in_pos [of s "dir_blocks dir s" n]
    by (cases "dir_names dir s n") (auto simp: look_up_def)
  show "\<exists>t. insert_name dir dir_ino ty n i s = Some (True, t) \<and> dir_ok dir k t \<and> dir_names dir t = (dir_names dir s)(n \<mapsto> i)"
    if "dir_ok dir (Suc k) s" "nameable n i" "dir_names dir s n = None" "dir_fits dir [0 ..< file_blocks dir s] n s"
    using dir_add_names [OF that, of dir_ino ty] by (auto simp: insert_name_def)
  show "\<exists>t. take_name dir n s = Some (dir_names dir s n, t) \<and> dir_ok dir k t \<and> dir_names dir t = (dir_names dir s)(n := None)"
    if "dir_ok dir (Suc k) s"
    using dir_remove_names [OF that, of n] by (auto simp: take_name_def)
qed

text \<open>
  C3. A directory on the journalled disk keeps the names it is given. Inside a transaction, on a directory
  whose blocks are well formed, a new name for which a block has room is added; every search after that,
  through the cache, the batch and the commits a full batch causes, answers with the inode of the new
  name, and for any other name what it would have answered before; and removing the name hands its
  inode back and leaves the names that were there.
\<close>

theorem directory_keeps_names:
  assumes "dir_ok dir (Suc (Suc k)) s" "nameable name ino" "dir_names dir s name = None"
    and "dir_fits dir [0 ..< file_blocks dir s] name s"
  shows "\<exists>t u v. dir_add dir dir_ino name ino ty s = Some ((True, dir), t)
    \<and> dir_search dir m t = Some (if m = name then ino else case dir_names dir s m of None \<Rightarrow> 0 | Some i \<Rightarrow> i, u)
    \<and> dir_remove dir name u = Some ((True, Some ino), v) \<and> dir_ok dir k v \<and> dir_names dir v = dir_names dir s"
proof -
  obtain t where t: "dir_add dir dir_ino name ino ty s = Some ((True, dir), t)" "dir_ok dir (Suc k) t"
    "dir_names dir t = (dir_names dir s)(name \<mapsto> ino)" using dir_add_names [OF assms] by blast
  obtain u where u: "dir_search dir m t = Some (case dir_names dir t m of None \<Rightarrow> 0 | Some i \<Rightarrow> i, u)"
    "dir_ok dir (Suc k) u" "dir_names dir u = dir_names dir t" using dir_search_names [OF t(2)] by blast
  obtain v where v: "dir_remove dir name u = Some ((dir_names dir u name \<noteq> None, dir_names dir u name), v)"
    "dir_ok dir k v" "dir_names dir v = (dir_names dir u)(name := None)" using dir_remove_names [OF u(2)] by blast
  have "dir_names dir u name = Some ino" "dir_names dir v = dir_names dir s"
    unfolding v(3) u(3) t(3) using assms(3) by (simp_all add: fun_upd_idem)
  moreover have "(case dir_names dir t m of None \<Rightarrow> 0 | Some i \<Rightarrow> i)
      = (if m = name then ino else case dir_names dir s m of None \<Rightarrow> 0 | Some i \<Rightarrow> i)" unfolding t(3) by simp
  ultimately show ?thesis using t(1) u(1) v(1,2) by (intro exI [of _ t] exI [of _ u] exI [of _ v]) simp
qed

subsection \<open>A directory on the concrete disk\<close>

definition demo_dir :: inode where
  "demo_dir = \<lparr>i_mode = 0x41ED, i_uid = 0, i_gid = 0, i_size = 1024, i_atime = 0, i_ctime = 0, i_mtime = 0,
     i_block = [0x0A, 0xF3, 1, 0, 4, 0, 0, 0, 0, 0, 0, 0, 0, 0, 0, 0, 1, 0, 0, 0, 50, 0, 0, 0] @ replicate 36 0\<rparr>"

definition demo_names :: bytes where
  "demo_names = [2, 0, 0, 0, 0, 4, 1, 2, 46] @ replicate 1015 0"

definition demo_dir_state :: vfs where
  "demo_dir_state = demo_vfs [(50, demo_names)] True"

lemma demo_names_reads:
  "length demo_names = 1024" "entry_offsets demo_names 0 = [0]" "listing demo_names [0] = [([46], 2)]" "block_ok demo_names"
  "block_fits [97] demo_names"
proof -
  have n: "rd16 demo_names 4 = 1024" "rd32 demo_names 0 = 2" "byte_at demo_names 6 = 1" "byte_at demo_names 8 = 46"
    by (simp_all add: demo_names_def rd16_def rd32_def byte_at_def)
  show len: "length demo_names = 1024" by (simp add: demo_names_def)
  have r: "roomy demo_names 0" by (simp add: roomy_def n entry_need_def)
  then show o: "entry_offsets demo_names 0 = [0]" by (intro walk_offsets) (simp add: n len)
  show l: "listing demo_names [0] = [([46], 2)]" by (simp add: holds_name_def name_of_def slice_def n)
  show "block_ok demo_names" using r by (intro block_okI [of _ "[0]"]) (simp_all add: n l len del: listing_simps)
  show "block_fits [97] demo_names" by (simp add: block_fits_def o room_def n entry_need_def)
qed

lemma demo_dir_reads:
  "file_blocks demo_dir demo_dir_state = 1" "blocks_of demo_dir [0] = [50]" "inline_root demo_dir"
  "seen demo_dir_state 50 = demo_names" "off_journal demo_dir_state 50"
proof -
  show "file_blocks demo_dir demo_dir_state = 1" by (simp add: file_blocks_def demo_dir_def demo_dir_state_def demo_on_def demo_fs_def)
  have "inline_map demo_dir 0 = 50"
    by (simp add: inline_map_def demo_dir_def rd16_def rd32_def byte_at_def Let_def)
  then show "blocks_of demo_dir [0] = [50]" by simp
  show "inline_root demo_dir" by (simp add: inline_root_def demo_dir_def rd16_def byte_at_def)
  show "seen demo_dir_state 50 = demo_names" by (simp add: seen_def demo_dir_state_def demo_on_def)
  show "off_journal demo_dir_state 50" by (auto simp: off_journal_def demo_dir_state_def demo_on_def demo_fs_def demo_inline_map)
qed

lemma demo_dir_ok: "dir_ok demo_dir 2 demo_dir_state"
proof -
  have "commit_ready 1024 demo_dir_state"
    unfolding demo_dir_state_def using demo_journal_ok demo_fresh by (simp add: commit_ready_def txn_wf_def demo_names_reads)
      (auto simp: demo_dir_state_def demo_on_def demo_fs_def TXN_MAX_def demo_inline_map demo_names_reads)
  then have "store_ready 2 demo_dir_state" by (simp add: store_ready_def) (simp add: demo_dir_state_def demo_on_def demo_fs_def TXN_MAX_def)
  then show ?thesis unfolding dir_ok_def dir_blocks_ok_def using demo_dir_reads demo_names_reads by simp
qed

theorem directory_keeps_names_witness:
  "\<exists>t u v. dir_add demo_dir 2 [97] 12 1 demo_dir_state = Some ((True, demo_dir), t)
    \<and> dir_search demo_dir [97] t = Some (12, u) \<and> dir_remove demo_dir [97] u = Some ((True, Some 12), v)"
proof -
  have "nameable [97] 12" by (simp add: nameable_def)
  moreover have "dir_names demo_dir demo_dir_state [97] = None" "dir_fits demo_dir [0 ..< file_blocks demo_dir demo_dir_state] [97] demo_dir_state"
    by (simp_all add: demo_dir_reads demo_names_reads dir_fits_def del: listing_simps blocks_of_simps)
  ultimately show ?thesis
    using directory_keeps_names [of demo_dir 0 demo_dir_state "[97]" 12 2 1 "[97]"] demo_dir_ok
    by (simp add: numeral_2_eq_2 del: listing_simps) blast
qed

end
