(* ===== verification/Vfs_Path.thy ===== *)
theory Vfs_Path
  imports Vfs_Dir
begin

text \<open>
  Paths of \<^verbatim>\<open>user/vfsd.c\<close>: which mount a path belongs to (\<^verbatim>\<open>route\<close>), symbolic links, the resolver
  \<^verbatim>\<open>lookup_deep\<close>, and the operations that make names (\<^verbatim>\<open>create_node\<close>, \<^verbatim>\<open>link_node\<close>).

  Paths are byte lists without the terminating zero; \<open>47\<close> is the slash. \<^verbatim>\<open>snprintf\<close> into a buffer
  of 512 bytes keeps the first 511.
\<close>

definition MODE_KIND :: "nat \<Rightarrow> nat" where "MODE_KIND m = m AND 0xF000"
definition MODE_DIR :: nat where "MODE_DIR = 0x4000"
definition MODE_LINK :: nat where "MODE_LINK = 0xA000"
definition MODE_FILE :: nat where "MODE_FILE = 0x8000"
definition MODE_FIFO :: nat where "MODE_FIFO = 0x1000"
definition MODE_CHR :: nat where "MODE_CHR = 0x2000"
definition MODE_BLK :: nat where "MODE_BLK = 0x6000"

lemmas mode_defs = MODE_DIR_def MODE_LINK_def MODE_FILE_def MODE_FIFO_def MODE_CHR_def MODE_BLK_def

definition ROOT_INODE :: nat where "ROOT_INODE = 2"
definition MAX_LINK_DEPTH :: nat where "MAX_LINK_DEPTH = 16"

section \<open>Mount points\<close>

definition under_mount :: "bytes \<Rightarrow> bytes \<Rightarrow> bool" where
  "under_mount path at =
     (take (length at) path = at
      \<and> (length path = length at \<or> length at < length path \<and> path ! length at = 47))"

fun route_best :: "bytes \<Rightarrow> (nat \<times> fs) list \<Rightarrow> nat \<times> nat \<Rightarrow> nat \<times> nat" where
  "route_best path [] best = best"
| "route_best path ((i, f) # fs) (best, best_len) =
     (let n = length (fs_at f) in
      if fs_used f \<and> n \<noteq> 1 \<and> under_mount path (fs_at f) \<and> n > best_len
      then route_best path fs (i, n) else route_best path fs (best, best_len))"

definition route :: "bytes \<Rightarrow> vfs \<Rightarrow> (bytes \<times> vfs) option" where
  "route path s =
     (let (best, best_len) = route_best path (enumerate 0 (g_fs s)) (0, 0) in do {
        s \<leftarrow> (if best \<noteq> g_cur s \<and> g_txn_open s then do {
                (_, s) \<leftarrow> txn_flush s;
                Some (s\<lparr>g_txn_started := now_ms s\<rparr>) }
              else Some s);
        Some (if best_len = 0 then path
              else if length path = best_len then [47] else drop best_len path,
              s\<lparr>g_cur := best\<rparr>) })"

section \<open>Symbolic links and devices\<close>

definition node_rdev :: "inode \<Rightarrow> nat" where
  "node_rdev i =
     (if MODE_KIND (i_mode i) \<noteq> MODE_CHR \<and> MODE_KIND (i_mode i) \<noteq> MODE_BLK then 0
      else rd32 (i_block i) 0)"

definition cstr :: "bytes \<Rightarrow> bytes" where
  "cstr b = takeWhile (\<lambda>c. c \<noteq> 0) b"

text \<open>The target, as the C string that was left in the caller's buffer of \<open>max\<close> bytes.\<close>

definition read_link :: "inode \<Rightarrow> nat \<Rightarrow> vfs \<Rightarrow> (bytes option \<times> vfs) option" where
  "read_link i mx s =
     (if i_size i = 0 \<or> i_size i \<ge> mx then Some (None, s)
      else if i_size i < 60 then Some (Some (cstr (slice (i_block i) 0 (i_size i))), s)
      else do {
        (phys, s) \<leftarrow> map_block i 0 s;
        if phys = 0 then Some (None, s)
        else do {
          (got, s) \<leftarrow> read_block phys s;
          (case got of
             None \<Rightarrow> Some (None, s)
           | Some b \<Rightarrow>
               if i_size i > bsize s then None
               else Some (Some (cstr (slice b 0 (i_size i))), s)) }})"

section \<open>Resolving a path\<close>

definition link_path :: "bytes \<Rightarrow> nat \<Rightarrow> bytes \<Rightarrow> bytes \<Rightarrow> bytes" where
  "link_path path start target rest =
     (let tail = (if rest = [] then [] else 47 # rest) in
      if target \<noteq> [] \<and> hd target = 47 then take 511 (target @ tail)
      else let cut = length (rev (dropWhile (\<lambda>c. c = 47) (rev (take start path))))
           in take 511 (take cut path @ 47 # target @ tail))"

text \<open>
  The loop of \<^verbatim>\<open>lookup_deep\<close> from position \<open>at\<close> of the path. \<open>again\<close> is the recursive call for the
  path a symbolic link leads to. The answer carries the inode left in \<^verbatim>\<open>*out\<close>.
\<close>

lemma path_part_nonempty:
  "at + length (takeWhile (\<lambda>c. c = 47) (drop at path)) < length path \<Longrightarrow>
   0 < length (take 63 (takeWhile (\<lambda>c. c \<noteq> (47 :: byte))
     (drop (at + length (takeWhile (\<lambda>c. c = 47) (drop at path))) path)))"
proof -
  let ?k = "length (takeWhile (\<lambda>c. c = 47) (drop at path))"
  assume "at + ?k < length path"
  then have lt: "?k < length (drop at path)" by simp
  have "drop (at + ?k) path = dropWhile (\<lambda>c. c = 47) (drop at path)"
    by (simp add: dropWhile_eq_drop add.commute)
  moreover have "\<not> hd (dropWhile (\<lambda>c. c = 47) (drop at path)) = 47"
    by (rule hd_dropWhile) (use lt in \<open>auto simp: dropWhile_eq_drop\<close>)
  moreover have "dropWhile (\<lambda>c. c = 47) (drop at path) \<noteq> []" using lt by (simp add: dropWhile_eq_drop)
  ultimately show ?thesis
    by (cases "dropWhile (\<lambda>c. c = 47) (drop at path)") simp_all
qed

lemma path_step:
  assumes "\<not> length path \<le> at + length (takeWhile (\<lambda>c. c = 47) (drop at path))"
  shows "length path - (at + length (takeWhile (\<lambda>c. c = 47) (drop at path)) +
      length (take 63 (takeWhile (\<lambda>c. c \<noteq> (47 :: byte))
        (drop (at + length (takeWhile (\<lambda>c. c = 47) (drop at path))) path)))) < length path - at"
proof -
  have "at + length (takeWhile (\<lambda>c. c = 47) (drop at path)) < length path" using assms by (rule not_le_imp_less)
  from this path_part_nonempty [OF this] show ?thesis by linarith
qed

function walk_path :: "(bytes \<Rightarrow> vfs \<Rightarrow> ((nat \<times> inode option) \<times> vfs) option) \<Rightarrow> bool \<Rightarrow> bytes \<Rightarrow> nat
    \<Rightarrow> nat \<Rightarrow> inode \<Rightarrow> vfs \<Rightarrow> ((nat \<times> inode option) \<times> vfs) option" where
  "walk_path again follow_last path at ino out s =
     (let start = at + length (takeWhile (\<lambda>c. c = 47) (drop at path)) in
      if start \<ge> length path then Some ((ino, Some out), s)
      else let part = take 63 (takeWhile (\<lambda>c. c \<noteq> 47) (drop start path));
               at' = start + length part;
               rest = dropWhile (\<lambda>c. c = 47) (drop at' path) in do {
        (found, s) \<leftarrow> dir_search out part s;
        if found = 0 then Some ((0, Some out), s)
        else do {
          (got, s) \<leftarrow> read_inode found s;
          (case got of
             None \<Rightarrow> Some ((0, Some out), s)
           | Some out \<Rightarrow>
               if MODE_KIND (i_mode out) = MODE_LINK \<and> (rest \<noteq> [] \<or> follow_last) then do {
                 (target, s) \<leftarrow> read_link out 512 s;
                 (case target of
                    None \<Rightarrow> Some ((0, Some out), s)
                  | Some target \<Rightarrow> again (link_path path start target rest) s) }
               else walk_path again follow_last path at' found out s) }})"
  by pat_completeness auto
termination
  apply (relation "measure (\<lambda>(_, _, path, at, _, _, _). length path - at)")
   apply simp
  apply (simp only: in_measure split_conv)
  apply (erule path_step)
  done

declare walk_path.simps [simp del]

text \<open>
  The first argument counts the links that may still be followed: it is \<open>17\<close> minus the C depth, so
  that zero is \<^verbatim>\<open>depth > MAX_LINK_DEPTH\<close>.
\<close>

fun lookup_deep :: "nat \<Rightarrow> bool \<Rightarrow> bytes \<Rightarrow> vfs \<Rightarrow> ((nat \<times> inode option) \<times> vfs) option" where
  "lookup_deep 0 follow_last path s = do {
     (_, s) \<leftarrow> route path s;
     Some ((0, None), s) }"
| "lookup_deep (Suc d) follow_last path s = do {
     (path, s) \<leftarrow> route path s;
     (got, s) \<leftarrow> read_inode ROOT_INODE s;
     (case got of
        None \<Rightarrow> Some ((0, None), s)
      | Some out \<Rightarrow> walk_path (lookup_deep d follow_last) follow_last path 0 ROOT_INODE out s) }"

definition lookup :: "bytes \<Rightarrow> vfs \<Rightarrow> ((nat \<times> inode option) \<times> vfs) option" where
  "lookup path s = lookup_deep (MAX_LINK_DEPTH + 1) True path s"

definition lookup_nofollow :: "bytes \<Rightarrow> vfs \<Rightarrow> ((nat \<times> inode option) \<times> vfs) option" where
  "lookup_nofollow path s = lookup_deep (MAX_LINK_DEPTH + 1) False path s"

text \<open>Parent directory and last component; the parent's buffer holds 256 bytes.\<close>

definition split_path :: "bytes \<Rightarrow> (bytes \<times> bytes) option option" where
  "split_path path =
     (if 47 \<notin> set path then Some None
      else let last_part = rev (takeWhile (\<lambda>c. c \<noteq> 47) (rev path));
               cut = length path - length last_part - 1
           in if last_part = [] \<or> length last_part > 63 then Some None
              else if cut > 255 then None
              else Some (Some (if cut = 0 then [47] else take cut path, last_part)))"

section \<open>Making names\<close>

datatype make = MAKE_FILE | MAKE_DIR | MAKE_FIFO | MAKE_CHR | MAKE_BLK

definition empty_root :: bytes where
  "empty_root = wr16w (wr16w (wr16w (wr16w (replicate 60 0) 0 0xF30A) 2 0) 4 4) 6 0"

definition fresh_inode :: "make \<Rightarrow> bool \<Rightarrow> vfs \<Rightarrow> inode" where
  "fresh_inode kind is_link s =
     touch_inode \<lparr>i_mode = (case kind of MAKE_DIR \<Rightarrow> 0x41ED | MAKE_FIFO \<Rightarrow> 0x11A4
         | MAKE_CHR \<Rightarrow> MODE_CHR OR 0x1B6 | MAKE_BLK \<Rightarrow> MODE_BLK OR 0x1B0
         | MAKE_FILE \<Rightarrow> if is_link then 0xA1FF else 0x81A4),
       i_uid = 0, i_gid = 0, i_size = 0, i_atime = 0, i_ctime = 0, i_mtime = 0, i_block = empty_root\<rparr> True s"

text \<open>One more link, written straight into the inode.\<close>

definition bump_links :: "nat \<Rightarrow> vfs \<Rightarrow> (unit \<times> vfs) option" where
  "bump_links ino s = do {
     (loc, s) \<leftarrow> inode_location ino s;
     (case loc of
        None \<Rightarrow> Some ((), s)
      | Some (block, at) \<Rightarrow> do {
          (got, s) \<leftarrow> read_block block s;
          (case got of
             None \<Rightarrow> Some ((), s)
           | Some b \<Rightarrow>
               if at + 28 > bsize s then None
               else do {
                 (_, s) \<leftarrow> write_block block (wr16w b (at + 26) (rd16 b (at + 26) + 1)) s;
                 Some ((), s) }) }) }"

definition add_name :: "inode \<Rightarrow> nat \<Rightarrow> bytes \<Rightarrow> nat \<Rightarrow> nat \<Rightarrow> vfs \<Rightarrow> (int \<times> vfs) option" where
  "add_name dir dir_ino name ino t s = do {
     ((ok, _), s) \<leftarrow> dir_add dir dir_ino name ino t s;
     Some (if ok then 0 else - EIO, s) }"

text \<open>The part of \<^verbatim>\<open>create_node\<close> that makes a symbolic link.\<close>

definition make_link :: "inode \<Rightarrow> nat \<Rightarrow> bytes \<Rightarrow> nat \<Rightarrow> inode \<Rightarrow> bytes \<Rightarrow> vfs \<Rightarrow> (int \<times> vfs) option" where
  "make_link dir dir_ino name ino fresh link_to s =
     (let len = length link_to; fresh = fresh\<lparr>i_size := len\<rparr> in
      if len < 60 then do {
        (ok, s) \<leftarrow> write_inode ino (fresh\<lparr>i_block := overlay (replicate 60 0) 0 link_to\<rparr>) 1 s;
        if \<not> ok then Some (- EIO, s) else add_name dir dir_ino name ino 7 s }
      else do {
        (ok, s) \<leftarrow> write_inode ino fresh 1 s;
        if \<not> ok then Some (- EIO, s)
        else do {
          ((phys, fresh), s) \<leftarrow> extend_file fresh s;
          if phys = 0 then Some (- ENOSPC, s)
          else do {
            (ok, s) \<leftarrow> write_block phys (overlay (zero_block s) 0 (take (bsize s) link_to)) s;
            if \<not> ok then Some (- EIO, s)
            else do {
              (ok, s) \<leftarrow> write_inode ino fresh 1 s;
              if \<not> ok then Some (- EIO, s) else add_name dir dir_ino name ino 7 s }}}})"

definition dot_block :: "nat \<Rightarrow> nat \<Rightarrow> nat \<Rightarrow> bytes" where
  "dot_block bs ino dir_ino =
     (let b = wr16w (wr32w (replicate bs 0) 0 ino) 4 12;
          b = b[6 := 1, 7 := 2, 8 := 46];
          b = wr16w (wr32w b 12 dir_ino) 16 (sub32 bs 12)
      in b[18 := 2, 19 := 2, 20 := 46, 21 := 46])"

text \<open>A directory is not empty on disk: it holds itself and its parent.\<close>

definition make_dir :: "inode \<Rightarrow> nat \<Rightarrow> bytes \<Rightarrow> nat \<Rightarrow> inode \<Rightarrow> vfs \<Rightarrow> (int \<times> vfs) option" where
  "make_dir dir dir_ino name ino fresh s = do {
     ((phys, fresh), s) \<leftarrow> extend_file fresh s;
     if phys = 0 then Some (- EIO, s)
     else let fresh = fresh\<lparr>i_size := bsize s\<rparr> in do {
       (ok, s) \<leftarrow> write_block phys (dot_block (bsize s) ino dir_ino) s;
       if \<not> ok then Some (- EIO, s)
       else do {
         (ok, s) \<leftarrow> write_inode ino fresh 2 s;
         if \<not> ok then Some (- EIO, s)
         else do {
           (r, s) \<leftarrow> add_name dir dir_ino name ino 2 s;
           if r \<noteq> 0 then Some (r, s)
           else do {
             (_, s) \<leftarrow> bump_links dir_ino s;
             Some (0, s) }}}}}"

definition rdev_block :: "nat \<Rightarrow> bytes" where
  "rdev_block rdev = wr32w (replicate 60 0) 0 rdev"

text \<open>Everything after the parent has been found and the name is known to be free.\<close>

definition make_node :: "inode \<Rightarrow> nat \<Rightarrow> bytes \<Rightarrow> make \<Rightarrow> bytes option \<Rightarrow> nat \<Rightarrow> vfs \<Rightarrow> (int \<times> vfs) option" where
  "make_node dir dir_ino name kind link_to rdev s = do {
     (ino, s) \<leftarrow> alloc_inode (kind = MAKE_DIR) s;
     if ino = 0 then Some (- ENOSPC, s)
     else let fresh = fresh_inode kind (link_to \<noteq> None) s in
       (case link_to of
          Some target \<Rightarrow> make_link dir dir_ino name ino fresh target s
        | None \<Rightarrow> do {
            (ok, s) \<leftarrow> write_inode ino fresh (if kind = MAKE_DIR then 2 else 1) s;
            if \<not> ok then Some (- EIO, s)
            else (case kind of
                MAKE_FIFO \<Rightarrow> add_name dir dir_ino name ino 5 s
              | MAKE_DIR \<Rightarrow> make_dir dir dir_ino name ino fresh s
              | MAKE_FILE \<Rightarrow> add_name dir dir_ino name ino 1 s
              | _ \<Rightarrow> do {
                  (ok, s) \<leftarrow> write_inode ino (fresh\<lparr>i_block := rdev_block rdev\<rparr>) 1 s;
                  if \<not> ok then Some (- EIO, s)
                  else add_name dir dir_ino name ino (if kind = MAKE_CHR then 3 else 4) s }) }) }"

definition create_node :: "bytes \<Rightarrow> make \<Rightarrow> bytes option \<Rightarrow> nat \<Rightarrow> vfs \<Rightarrow> (int \<times> vfs) option" where
  "create_node path kind link_to rdev s = do {
     parts \<leftarrow> split_path path;
     (case parts of
        None \<Rightarrow> Some (- EINVAL, s)
      | Some (parent, name) \<Rightarrow> do {
          ((dir_ino, out), s) \<leftarrow> lookup parent s;
          if dir_ino = 0 then Some (- ENOENT, s)
          else do {
            dir \<leftarrow> out;
            if MODE_KIND (i_mode dir) \<noteq> MODE_DIR then Some (- ENOTDIR, s)
            else do {
              (there, s) \<leftarrow> dir_search dir name s;
              if there \<noteq> 0 then Some (- EEXIST, s)
              else make_node dir dir_ino name kind link_to rdev s }} }) }"

definition create_file :: "bytes \<Rightarrow> bool \<Rightarrow> vfs \<Rightarrow> (int \<times> vfs) option" where
  "create_file path is_dir s = create_node path (if is_dir then MAKE_DIR else MAKE_FILE) None 0 s"

definition link_node :: "bytes \<Rightarrow> bytes \<Rightarrow> vfs \<Rightarrow> (int \<times> vfs) option" where
  "link_node existing path s = do {
     ((ino, out), s) \<leftarrow> lookup_nofollow existing s;
     if ino = 0 then Some (- ENOENT, s)
     else do {
       target \<leftarrow> out;
       if MODE_KIND (i_mode target) = MODE_DIR then Some (- EPERM, s)
       else do {
         parts \<leftarrow> split_path path;
         (case parts of
            None \<Rightarrow> Some (- EINVAL, s)
          | Some (parent, name) \<Rightarrow> do {
              ((dir_ino, out), s) \<leftarrow> lookup parent s;
              if dir_ino = 0 then Some (- ENOENT, s)
              else do {
                dir \<leftarrow> out;
                if MODE_KIND (i_mode dir) \<noteq> MODE_DIR then Some (- ENOTDIR, s)
                else do {
                  (there, s) \<leftarrow> dir_search dir name s;
                  if there \<noteq> 0 then Some (- EEXIST, s)
                  else do {
                    (r, s) \<leftarrow> add_name dir dir_ino name ino
                      (if MODE_KIND (i_mode target) = MODE_LINK then 7 else 1) s;
                    if r \<noteq> 0 then Some (r, s)
                    else do {
                      (_, s) \<leftarrow> bump_links ino s;
                      Some (0, s) }}}}}) }}}"

end
