(* ===== verification/Vfs_Mount.thy ===== *)
theory Vfs_Mount
  imports Vfs_Path
begin

text \<open>
  Mounting, from \<^verbatim>\<open>user/vfsd.c\<close>: \<^verbatim>\<open>journal_open\<close>, \<^verbatim>\<open>mount_read_sb\<close>, \<^verbatim>\<open>mount_at\<close>,
  \<^verbatim>\<open>root_label_matches\<close> and \<^verbatim>\<open>mount\<close>. Messages printed to the console are left out.

  \<^verbatim>\<open>1024u << n\<close> is undefined for \<open>n\<close> of 32 or more (\<open>None\<close>) and drops the high bits otherwise.
\<close>

definition no_fs :: fs where
  "no_fs = \<lparr>fs_used = False, fs_at = [], fs_dev = 0, block_size = 0, inodes_per_group = 0,
     inode_size = 0, desc_size = 0, first_data_block = 0, blocks_per_group = 0, group_count = 0,
     gd_block = 0, fs_sb = replicate 1024 0, fs_mounted = False, has_journal = False,
     jrnl_first = 0, jrnl_maxlen = 0, jrnl_seq = 0, jrnl_start = 0\<rparr>"

definition journal_open :: "bytes \<Rightarrow> vfs \<Rightarrow> vfs option" where
  "journal_open sb s =
     (let s = upd_fs (\<lambda>f. f\<lparr>has_journal := False\<rparr>) s in
      if rd32 sb 92 AND 4 = 0 then Some s
      else let inum = rd32 sb 224 in
        if inum = 0 then Some s
        else do {
          (got, s) \<leftarrow> read_inode inum s;
          (case got of
             None \<Rightarrow> Some s
           | Some i \<Rightarrow>
               let s = s\<lparr>journal_inode := (journal_inode s)(g_cur s := i)\<rparr> in do {
               (phys, s) \<leftarrow> map_block i 0 s;
               if phys = 0 then Some s
               else do {
                 (got, s) \<leftarrow> read_block phys s;
                 (case got of
                    None \<Rightarrow> Some s
                  | Some b \<Rightarrow>
                      if rd32be b 0 \<noteq> JBD2_MAGIC then Some s
                      else if rd32be b 12 \<noteq> bsize s then Some s
                      else
                        let s = upd_fs (\<lambda>f. f\<lparr>jrnl_maxlen := rd32be b 16, jrnl_first := rd32be b 20,
                                  jrnl_seq := rd32be b 24, jrnl_start := rd32be b 28\<rparr>) s
                        in if jrnl_maxlen (gfs s) = 0 \<or> jrnl_first (gfs s) = 0 then Some s
                           else Some (upd_fs (\<lambda>f. f\<lparr>has_journal := True\<rparr>) s)) }}) })"

text \<open>What the superblock says about the shape of the filesystem.\<close>

definition fs_of_sb :: "bytes \<Rightarrow> nat \<Rightarrow> fs \<Rightarrow> fs" where
  "fs_of_sb sb bs f =
     (let ipg = rd32 sb 40; isize = rd16 sb 88; dsize = (if rd32 sb 96 AND 0x80 \<noteq> 0 then rd16 sb 254 else 32);
          first = rd32 sb 20
      in f\<lparr>block_size := bs, inodes_per_group := ipg, first_data_block := first,
           inode_size := (if isize = 0 then 128 else isize),
           desc_size := (if dsize < 32 then 32 else dsize),
           blocks_per_group := rd32 sb 32,
           group_count := (if ipg \<noteq> 0 then u32 (rd32 sb 0 + ipg - 1) div ipg else 0),
           gd_block := u32 (first + 1), fs_sb := sb\<rparr>)"

definition mount_read_sb :: "vfs \<Rightarrow> (bool \<times> vfs) option" where
  "mount_read_sb s =
     (let (got, s) = disk_read 0 8 (fs_dev (gfs s)) s in
      case got of
        None \<Rightarrow> Some (False, s)
      | Some data \<Rightarrow>
          let sb = slice data 1024 1024 in
          if rd16 sb 56 \<noteq> 0xEF53 then Some (False, s)
          else if rd32 sb 24 \<ge> 32 then None
          else let bs = u32 (1024 * 2 ^ rd32 sb 24) in
            if bs > 8192 then Some (False, upd_fs (\<lambda>f. f\<lparr>block_size := bs\<rparr>) s)
            else do {
              s \<leftarrow> journal_open sb (cache_init (upd_fs (fs_of_sb sb bs) s));
              (_, s) \<leftarrow> journal_replay s;
              Some (True, upd_fs (\<lambda>f. f\<lparr>fs_mounted := True\<rparr>) s) })"

text \<open>The first free slot, unless the mount point or the disk is taken already.\<close>

fun find_slot :: "nat \<Rightarrow> bytes \<Rightarrow> nat option \<Rightarrow> (nat \<times> fs) list \<Rightarrow> nat option option" where
  "find_slot d at slot [] = Some slot"
| "find_slot d at slot ((i, f) # fs) =
     (if fs_used f \<and> (fs_at f = at \<or> fs_dev f = d) then None
      else find_slot d at (if \<not> fs_used f \<and> slot = None then Some i else slot) fs)"

definition mount_at :: "nat \<Rightarrow> bytes \<Rightarrow> vfs \<Rightarrow> (int \<times> vfs) option" where
  "mount_at d at s =
     (case find_slot d at None (enumerate 0 (g_fs s)) of
        None \<Rightarrow> Some (- EBUSY, s)
      | Some None \<Rightarrow> Some (- ENOSPC, s)
      | Some (Some i) \<Rightarrow>
          if length at \<ge> 64 then Some (- ENAMETOOLONG, s)
          else let was = g_cur s;
                   s = s\<lparr>g_cur := i, g_fs := (g_fs s)[i := no_fs\<lparr>fs_dev := d, block_size := 1024,
                         inode_size := 128, desc_size := 32\<rparr>]\<rparr> in do {
            (ok, s) \<leftarrow> mount_read_sb s;
            if \<not> ok then Some (- EIO, s\<lparr>g_fs := (g_fs s)[i := no_fs], g_cur := was\<rparr>)
            else Some (0, s\<lparr>g_fs := (g_fs s)[i := (g_fs s ! i)\<lparr>fs_at := at, fs_used := True\<rparr>]\<rparr>) })"

definition root_label :: bytes where
  "root_label = [108, 101, 97, 104, 114, 111, 111, 116]"

fun label_from :: "bytes \<Rightarrow> bytes \<Rightarrow> nat \<Rightarrow> nat \<Rightarrow> bool" where
  "label_from sb want at 0 = True"
| "label_from sb want at (Suc n) =
     (case want of
        [] \<Rightarrow> byte_at sb at = 0
      | c # cs \<Rightarrow> if byte_at sb at \<noteq> c then False else label_from sb cs (at + 1) n)"

definition root_label_matches :: "vfs \<Rightarrow> bool" where
  "root_label_matches s = label_from (fs_sb (gfs s)) root_label 120 16"

fun mount_in :: "nat list \<Rightarrow> vfs \<Rightarrow> (bool \<times> vfs) option" where
  "mount_in [] s = Some (False, s)"
| "mount_in (d # ds) s = do {
     (r, s) \<leftarrow> mount_at d [47] s;
     if r \<noteq> 0 then mount_in ds s
     else if root_label_matches s then Some (True, s)
     else mount_in ds (s\<lparr>g_fs := (g_fs s)[0 := no_fs], g_cur := 0\<rparr>) }"

definition mount_root :: "vfs \<Rightarrow> (bool \<times> vfs) option" where
  "mount_root s = mount_in [BLK_AHCI_BASE, BLK_AHCI_BASE + 1, 0, 1, 2, 3] s"

end
