(* ===== verification/Vfs_Proc.thy ===== *)
theory Vfs_Proc
  imports Vfs_Path
begin

text \<open>
  The generated files under \<^verbatim>\<open>/proc\<close> of \<^verbatim>\<open>user/vfsd.c\<close>: \<^verbatim>\<open>is_proc\<close>, \<^verbatim>\<open>proc_pid_of\<close>,
  \<^verbatim>\<open>state_word\<close>, \<^verbatim>\<open>proc_contents\<close>, \<^verbatim>\<open>proc_kind\<close>, \<^verbatim>\<open>proc_entry\<close>. What the kernel reports about
  tasks, memory, processors and load is the record \<open>kernel_view\<close>. \<^verbatim>\<open>snprintf\<close> answers with the length
  of the whole text whatever the size of the buffer, so the functions here return the whole text.
\<close>

record proc_info =
  p_pid :: nat
  p_tgid :: nat
  p_parent :: nat
  p_uid :: nat
  p_state :: nat
  p_pgid :: nat
  p_sid :: nat
  p_ticks :: nat
  p_bytes :: nat
  p_name :: bytes

record kernel_view =
  k_tasks :: "proc_info list"
  k_mem :: "(nat \<times> nat \<times> nat) option"
  k_cpus :: "(nat \<times> nat) list"
  k_load :: "nat \<times> nat \<times> nat"

section \<open>Text\<close>

definition str :: "string \<Rightarrow> bytes" where
  "str cs = map of_char cs"

fun dec :: "nat \<Rightarrow> bytes" where
  "dec n = (if n < 10 then [48 + of_nat n] else dec (n div 10) @ [48 + of_nat (n mod 10)])"

declare dec.simps [simp del]

definition dec_pad :: "nat \<Rightarrow> nat \<Rightarrow> bytes" where
  "dec_pad w n = (let d = dec n in replicate (w - length d) 48 @ d)"

section \<open>Names\<close>

definition is_proc :: "bytes \<Rightarrow> bool" where
  "is_proc path =
     (take 5 path = str ''/proc'' \<and> (length path = 5 \<or> length path > 5 \<and> path ! 5 = 47))"

definition is_digit :: "byte \<Rightarrow> bool" where
  "is_digit c = (48 \<le> c \<and> c \<le> 57)"

text \<open>The process a path names, with what follows the number; zero for none.\<close>

definition proc_pid_of :: "bytes \<Rightarrow> nat \<times> bytes" where
  "proc_pid_of path =
     (let at = dropWhile (\<lambda>c. c = 47) (drop 5 path);
          digits = takeWhile is_digit at;
          pid = fold (\<lambda>c n. u32 (n * 10 + (unat c - 48))) digits 0;
          at = drop (length digits) at
      in if digits = [] \<or> at \<noteq> [] \<and> hd at \<noteq> 47 then (0, [])
         else (pid, dropWhile (\<lambda>c. c = 47) at))"

definition state_word :: "nat \<Rightarrow> bytes" where
  "state_word st =
     (if st = 1 then str ''ready'' else if st = 2 then str ''running'' else if st = 3 then str ''waiting''
      else if st = 4 then str ''stopped'' else if st = 5 then str ''zombie'' else str ''dead'')"

section \<open>Contents\<close>

definition field :: "string \<Rightarrow> bytes \<Rightarrow> bytes" where
  "field name v = str name @ [9] @ v @ [10]"

definition status_text :: "proc_info \<Rightarrow> bytes" where
  "status_text t =
     field ''name'' (p_name t) @ field ''pid'' (dec (p_pid t)) @ field ''ppid'' (dec (p_parent t))
     @ field ''pgid'' (dec (p_pgid t)) @ field ''sid'' (dec (p_sid t)) @ field ''uid'' (dec (p_uid t))
     @ field ''state'' (state_word (p_state t)) @ field ''ticks'' (dec (p_ticks t))
     @ field ''memory'' (dec (p_bytes t div 1024) @ str '' kB'')"

fun mounts_text :: "fs list \<Rightarrow> bytes" where
  "mounts_text [] = []"
| "mounts_text (f # fs) =
     (if fs_used f
      then str ''/dev/sda'' @ dec (u32 (fs_dev f + 2)) @ [32] @ fs_at f @ str '' ext4 rw'' @ [10] else [])
     @ mounts_text fs"

definition hundredths :: "nat \<Rightarrow> bytes" where
  "hundredths n = dec (n div 100) @ [46] @ dec_pad 2 (n mod 100)"

definition proc_contents :: "kernel_view \<Rightarrow> bytes \<Rightarrow> vfs \<Rightarrow> bytes option" where
  "proc_contents k path s =
     (let (pid, rest) = proc_pid_of path in
      if pid \<noteq> 0 then
        (case find (\<lambda>t. p_pid t = pid) (k_tasks k) of
           None \<Rightarrow> None
         | Some t \<Rightarrow> if rest \<noteq> str ''status'' then None else Some (status_text t))
      else if path = str ''/proc/meminfo'' then
        map_option (\<lambda>(usable, used, free).
          field ''total'' (dec (usable div 1024) @ str '' kB'') @ field ''used'' (dec (used div 1024) @ str '' kB'')
          @ field ''free'' (dec (free div 1024) @ str '' kB'')) (k_mem k)
      else if path = str ''/proc/uptime'' then
        Some (dec (now_ms s div 1000) @ [46] @ dec_pad 3 (now_ms s mod 1000) @ [10])
      else if path = str ''/proc/mounts'' then
        Some (mounts_text (g_fs s) @ str ''procfs /proc procfs ro'' @ [10])
      else if path = str ''/proc/cpuinfo'' then
        Some (field ''processors'' (dec (length (k_cpus k)))
          @ concat (map (\<lambda>(i, busy, idle). str ''cpu'' @ dec i @ [9] @ str ''busy '' @ dec busy
              @ str '' idle '' @ dec idle @ [10]) (enumerate 0 (k_cpus k))))
      else if path = str ''/proc/loadavg'' then
        (case k_load k of (a, b, c) \<Rightarrow>
           Some (hundredths a @ [32] @ hundredths b @ [32] @ hundredths c @ [10]))
      else if path = str ''/proc/version'' then Some (str ''leahOS x86-64'' @ [10])
      else None)"

definition proc_files :: "bytes list" where
  "proc_files = map str [''cpuinfo'', ''loadavg'', ''meminfo'', ''mounts'', ''uptime'', ''version'']"

definition is_proc_root :: "bytes \<Rightarrow> bool" where
  "is_proc_root path = (path = str ''/proc'' \<or> path = str ''/proc/'')"

text \<open>Kind and size of a path under \<^verbatim>\<open>/proc\<close>.\<close>

definition proc_kind :: "kernel_view \<Rightarrow> bytes \<Rightarrow> vfs \<Rightarrow> (nat \<times> nat) option" where
  "proc_kind k path s =
     (if is_proc_root path then Some (VFS_KIND_DIR, 0)
      else let (pid, rest) = proc_pid_of path in
        if pid \<noteq> 0 \<and> rest = [] then
          (if pid \<in> p_pid ` set (k_tasks k) then Some (VFS_KIND_DIR, 0) else None)
        else map_option (\<lambda>text. (VFS_KIND_FILE, length text)) (proc_contents k path s))"

fun nth_task :: "nat \<Rightarrow> nat \<Rightarrow> proc_info list \<Rightarrow> proc_info option" where
  "nth_task want seen [] = None"
| "nth_task want seen (t # ts) =
     (if p_pid t \<noteq> p_tgid t then nth_task want seen ts
      else if seen = want then Some t else nth_task want (seen + 1) ts)"

definition proc_entry :: "kernel_view \<Rightarrow> bytes \<Rightarrow> nat \<Rightarrow> vfs \<Rightarrow> (bytes \<times> nat \<times> nat) option" where
  "proc_entry k path index s =
     (if is_proc_root path then
        (if index < 6 then
           Some (proc_files ! index, VFS_KIND_FILE,
             (case proc_contents k (str ''/proc/'' @ proc_files ! index) s of None \<Rightarrow> 0 | Some t \<Rightarrow> length t))
         else map_option (\<lambda>t. (dec (p_pid t), VFS_KIND_DIR, 0)) (nth_task (index - 6) 0 (k_tasks k)))
      else let (pid, rest) = proc_pid_of path in
        if pid \<noteq> 0 \<and> rest = [] \<and> index = 0 then
          map_option (\<lambda>text. (str ''status'', VFS_KIND_FILE, length text))
            (proc_contents k (str ''/proc/'' @ dec pid @ str ''/status'') s)
        else None)"

end
