(* ===== verification/Vfs_Fsck.thy ===== *)
theory Vfs_Fsck
  imports Vfs_Proc
begin

text \<open>
  The filesystem check of \<^verbatim>\<open>user/vfsd.c\<close>: the two maps of what is reachable (\<^verbatim>\<open>fsck_mark\<close>,
  \<^verbatim>\<open>fsck_test\<close>, \<^verbatim>\<open>fsck_claim_inode\<close>, \<^verbatim>\<open>fsck_walk\<close>), the report (\<^verbatim>\<open>fsck_say\<close>,
  \<^verbatim>\<open>fsck_say_num\<close>) and \<^verbatim>\<open>fsck_run\<close> itself. The loop over the entries of a directory has no bound of
  its own in the C code and is a \<^theory_text>\<open>partial_function\<close>; the recursion into subdirectories is
  bounded by the depth.
\<close>

definition FSCK_MAX_BLOCKS :: nat where "FSCK_MAX_BLOCKS = 262144"
definition FSCK_MAX_INODES :: nat where "FSCK_MAX_INODES = 65536"

record fsck_state =
  seen_block :: bytes
  seen_inode :: bytes
  n_files :: nat
  n_dirs :: nat

definition fsck_mark :: "bytes \<Rightarrow> nat \<Rightarrow> nat \<Rightarrow> bytes" where
  "fsck_mark m n mx = (if n < mx then set_bit_at m n else m)"

definition fsck_test :: "bytes \<Rightarrow> nat \<Rightarrow> nat \<Rightarrow> bool" where
  "fsck_test m n mx = (n < mx \<and> bit_set m n)"

definition mark_block :: "nat \<Rightarrow> nat \<Rightarrow> fsck_state \<Rightarrow> fsck_state" where
  "mark_block nblocks b st = st\<lparr>seen_block := fsck_mark (seen_block st) b nblocks\<rparr>"

fun claim_blocks :: "inode \<Rightarrow> nat \<Rightarrow> nat list \<Rightarrow> fsck_state \<Rightarrow> vfs \<Rightarrow> (fsck_state \<times> vfs) option" where
  "claim_blocks i nblocks [] st s = Some (st, s)"
| "claim_blocks i nblocks (fb # fbs) st s = do {
     (phys, s) \<leftarrow> map_block i fb s;
     claim_blocks i nblocks fbs (if phys \<noteq> 0 then mark_block nblocks phys st else st) s }"

definition fsck_claim_inode :: "inode \<Rightarrow> nat \<Rightarrow> fsck_state \<Rightarrow> vfs \<Rightarrow> (fsck_state \<times> vfs) option" where
  "fsck_claim_inode i nblocks st s =
     (if bsize s = 0 then None else claim_blocks i nblocks [0 ..< file_blocks i s] st s)"

section \<open>Walking the tree\<close>

partial_function (option) walk_entries ::
    "(nat \<Rightarrow> fsck_state \<Rightarrow> vfs \<Rightarrow> (fsck_state \<times> vfs) option) \<Rightarrow> nat \<Rightarrow> nat \<Rightarrow> nat \<Rightarrow> fsck_state \<Rightarrow> vfs
     \<Rightarrow> (fsck_state \<times> vfs) option" where
  "walk_entries walk ino inodes want st s = do {
     (got, s) \<leftarrow> read_inode ino s;
     (case got of
        None \<Rightarrow> Some (st, s)
      | Some dir \<Rightarrow> do {
          (entry, s) \<leftarrow> dir_nth dir want s;
          (case entry of
             None \<Rightarrow> Some (st, s)
           | Some (child, _, _) \<Rightarrow>
               if child = 0 then Some (st, s)
               else if fsck_test (seen_inode st) child inodes
               then walk_entries walk ino inodes (u32 (want + 1)) st s
               else do {
                 (st, s) \<leftarrow> walk child st s;
                 walk_entries walk ino inodes (u32 (want + 1)) st s }) }) }"

declare walk_entries.simps [code]

text \<open>The first argument is \<open>25\<close> minus the depth of the C recursion.\<close>

fun fsck_walk :: "nat \<Rightarrow> nat \<Rightarrow> nat \<Rightarrow> nat \<Rightarrow> fsck_state \<Rightarrow> vfs \<Rightarrow> (fsck_state \<times> vfs) option" where
  "fsck_walk 0 nblocks inodes ino st s = Some (st, s)"
| "fsck_walk (Suc d) nblocks inodes ino st s = do {
     (got, s) \<leftarrow> read_inode ino s;
     (case got of
        None \<Rightarrow> Some (st, s)
      | Some i \<Rightarrow> do {
          (st, s) \<leftarrow> fsck_claim_inode i nblocks (st\<lparr>seen_inode := fsck_mark (seen_inode st) ino inodes\<rparr>) s;
          if MODE_KIND (i_mode i) \<noteq> MODE_DIR then Some (st\<lparr>n_files := u32 (n_files st + 1)\<rparr>, s)
          else walk_entries (fsck_walk d nblocks inodes) ino inodes 0
            (st\<lparr>n_dirs := u32 (n_dirs st + 1)\<rparr>) s }) }"

section \<open>The report\<close>

definition fsck_say :: "nat \<Rightarrow> bytes \<Rightarrow> bytes \<Rightarrow> bytes" where
  "fsck_say mx out txt =
     (let out = out @ take (mx - 1 - length out) txt
      in if length out + 1 < mx then out @ [10] else out)"

definition fsck_say_num :: "nat \<Rightarrow> bytes \<Rightarrow> bytes \<Rightarrow> nat \<Rightarrow> bytes \<Rightarrow> bytes" where
  "fsck_say_num mx out lead n trail = fsck_say mx out (take 127 (lead @ dec n @ trail))"

section \<open>The metadata nothing points at\<close>

function climb :: "nat \<Rightarrow> nat \<Rightarrow> nat \<Rightarrow> nat" where
  "climb base n g = (if 1 < base \<and> 0 < n \<and> n < g then climb base (n * base) g else n)"
  by pat_completeness auto
termination by (relation "measure (\<lambda>(base, n, g). g - n)") (auto intro: diff_less_mono2)

declare climb.simps [simp del]

definition is_backup :: "nat \<Rightarrow> bool" where
  "is_backup g = (g = 1 \<or> climb 3 3 g = g \<or> climb 5 5 g = g \<or> climb 7 7 g = g)"

definition mark_range :: "nat \<Rightarrow> nat \<Rightarrow> nat \<Rightarrow> fsck_state \<Rightarrow> fsck_state" where
  "mark_range nblocks from count st = fold (mark_block nblocks) [from ..< from + count] st"

definition mark_backups :: "fs \<Rightarrow> nat \<Rightarrow> nat \<Rightarrow> fsck_state \<Rightarrow> fsck_state" where
  "mark_backups f nblocks count st =
     fold (\<lambda>g st. if is_backup g
                  then mark_range nblocks (first_data_block f + g * blocks_per_group f) (count + 1) st else st)
       [1 ..< group_count f] st"

fun mark_groups :: "nat \<Rightarrow> nat \<Rightarrow> nat list \<Rightarrow> fsck_state \<Rightarrow> vfs \<Rightarrow> (fsck_state \<times> vfs) option" where
  "mark_groups nblocks itable [] st s = Some (st, s)"
| "mark_groups nblocks itable (g # gs) st s = do {
     (got, s) \<leftarrow> read_group_desc g s;
     (case got of
        None \<Rightarrow> mark_groups nblocks itable gs st s
      | Some desc \<Rightarrow>
          mark_groups nblocks itable gs
            (mark_range nblocks (rd32 desc 8) itable
              (mark_block nblocks (rd32 desc 4) (mark_block nblocks (rd32 desc 0) st))) s) }"

fun mark_reserved :: "nat \<Rightarrow> nat \<Rightarrow> nat list \<Rightarrow> fsck_state \<Rightarrow> vfs \<Rightarrow> (fsck_state \<times> vfs) option" where
  "mark_reserved nblocks inodes [] st s = Some (st, s)"
| "mark_reserved nblocks inodes (ino # is) st s =
     (if ino > inodes then Some (st, s)
      else do {
        (got, s) \<leftarrow> read_inode ino s;
        (case got of
           None \<Rightarrow> mark_reserved nblocks inodes is st s
         | Some i \<Rightarrow> do {
             let st = st\<lparr>seen_inode := fsck_mark (seen_inode st) ino inodes\<rparr>;
             (st, s) \<leftarrow> (if ino \<noteq> 2 then fsck_claim_inode i nblocks st s else Some (st, s));
             mark_reserved nblocks inodes is st s }) })"

section \<open>The two accounts, block by block\<close>

record fsck_count =
  in_use :: nat
  unmarked :: nat
  lost :: nat
  n_fixed :: nat

text \<open>One bitmap against the map of what is reachable; the bitmap may be repaired on the way.\<close>

fun check_bits :: "bool \<Rightarrow> bytes \<Rightarrow> nat \<Rightarrow> nat \<Rightarrow> nat list \<Rightarrow> bytes \<Rightarrow> fsck_count \<Rightarrow> (bytes \<times> fsck_count) option" where
  "check_bits repair seen nblocks base [] bm c = Some (bm, c)"
| "check_bits repair seen nblocks base (i # is) bm c =
     (if base + i \<ge> nblocks then Some (bm, c)
      else if i div 8 \<ge> length bm then None
      else let marked = bit_set bm i; wanted = fsck_test seen (base + i) nblocks;
               c = (if marked then c\<lparr>in_use := in_use c + 1\<rparr> else c)
           in if wanted \<and> \<not> marked then
                (if repair
                 then check_bits repair seen nblocks base is (set_bit_at bm i)
                   (c\<lparr>unmarked := unmarked c + 1, n_fixed := n_fixed c + 1, in_use := in_use c + 1\<rparr>)
                 else check_bits repair seen nblocks base is bm (c\<lparr>unmarked := unmarked c + 1\<rparr>))
              else if marked \<and> \<not> wanted
              then check_bits repair seen nblocks base is bm (c\<lparr>lost := lost c + 1\<rparr>)
              else check_bits repair seen nblocks base is bm c)"

fun check_groups :: "bool \<Rightarrow> bytes \<Rightarrow> nat \<Rightarrow> nat list \<Rightarrow> fsck_count \<Rightarrow> vfs \<Rightarrow> (fsck_count \<times> vfs) option" where
  "check_groups repair seen nblocks [] c s = Some (c, s)"
| "check_groups repair seen nblocks (g # gs) c s = do {
     (got, s) \<leftarrow> read_group_desc g s;
     (case got of
        None \<Rightarrow> check_groups repair seen nblocks gs c s
      | Some desc \<Rightarrow> do {
          (got, s) \<leftarrow> read_block (rd32 desc 0) s;
          (case got of
             None \<Rightarrow> check_groups repair seen nblocks gs c s
           | Some bm \<Rightarrow> do {
               (bm', c') \<leftarrow> check_bits repair seen nblocks
                 (first_data_block (gfs s) + g * blocks_per_group (gfs s))
                 [0 ..< blocks_per_group (gfs s)] bm c;
               (_, s) \<leftarrow> (if n_fixed c' \<noteq> n_fixed c then write_block (rd32 desc 0) bm' s else Some (True, s));
               check_groups repair seen nblocks gs c' s }) }) }"

definition fsck_verdict :: "bool \<Rightarrow> nat \<Rightarrow> bytes \<Rightarrow> nat \<Rightarrow> fsck_count \<Rightarrow> vfs \<Rightarrow> (int \<times> nat \<times> bytes) \<times> vfs" where
  "fsck_verdict repair mx out nblocks c s =
     (let problems = (if unmarked c \<noteq> 0 then int (unmarked c) else 0);
          out = (if unmarked c \<noteq> 0
                 then fsck_say_num mx out (str ''PROBLEM: '') (unmarked c)
                   (if repair then str '' blocks were in a file but marked free (fixed)''
                    else str '' blocks are in a file but marked free'')
                 else out);
          out = (if lost c \<noteq> 0
                 then fsck_say_num mx out (str ''note: '') (lost c)
                   (str '' blocks are marked used but reachable from nothing'')
                 else out);
          free_now = sub64 nblocks (in_use c);
          free_said = rd32 (fs_sb (gfs s)) 12
      in if free_now \<noteq> free_said then
           (let out = fsck_say_num mx out (str ''PROBLEM: the superblock says '') free_said (str '' free blocks'');
                out = fsck_say_num mx out (str ''         the bitmaps say '') free_now []
            in if repair
               then ((problems + 1, n_fixed c + 1, fsck_say mx out (str ''         corrected'')),
                     upd_sb (\<lambda>sb. wr32w sb 12 (u32 free_now)) s)
               else ((problems + 1, n_fixed c, out), s))
         else ((problems, n_fixed c, if problems = 0 then fsck_say mx out (str ''clean'') else out), s))"

definition fsck_run :: "bool \<Rightarrow> nat \<Rightarrow> vfs \<Rightarrow> ((int \<times> nat \<times> bytes) \<times> vfs) option" where
  "fsck_run repair mx s =
     (let nblocks = rd32 (fs_sb (gfs s)) 4; inodes = rd32 (fs_sb (gfs s)) 0 in
      if nblocks > FSCK_MAX_BLOCKS \<or> inodes > FSCK_MAX_INODES
      then Some ((- 1, 0, fsck_say mx [] (str ''fsck: this filesystem is larger than the checker can hold a map of'')), s)
      else if bsize s = 0 then None
      else let f = gfs s;
               gd_blocks = (group_count f * desc_size f + block_size f - 1) div block_size f;
               reserved_gdt = rd16 (fs_sb f) 206;
               itable = (inodes_per_group f * inode_size f + block_size f - 1) div block_size f;
               st = \<lparr>seen_block = replicate 32768 0, seen_inode = replicate 8192 0, n_files = 0, n_dirs = 0\<rparr>;
               st = mark_range nblocks 0 (gd_block f + gd_blocks + reserved_gdt) st;
               st = mark_backups f nblocks (gd_blocks + reserved_gdt) st
           in do {
             (st, s) \<leftarrow> mark_groups nblocks itable [0 ..< group_count f] st s;
             (st, s) \<leftarrow> mark_reserved nblocks inodes [1 ..< 12] st s;
             (st, s) \<leftarrow> fsck_walk 25 nblocks inodes 2 st s;
             let out = fsck_say_num mx [] (str ''reachable: '') (n_dirs st) (str '' directories'');
             let out = fsck_say_num mx out (str ''reachable: '') (n_files st) (str '' files'');
             (c, s) \<leftarrow> check_groups repair (seen_block st) nblocks [0 ..< group_count f]
               \<lparr>in_use = 0, unmarked = 0, lost = 0, n_fixed = 0\<rparr> s;
             Some (fsck_verdict repair mx out nblocks c s) })"

end
