(* ===== verification/Vfs_Server.thy ===== *)
theory Vfs_Server
  imports Vfs_Mount Vfs_Fsck
begin

text \<open>
  The requests of \<^verbatim>\<open>user/vfsd.c\<close>: who may do what (\<^verbatim>\<open>may_access\<close>, \<^verbatim>\<open>may_execute\<close>), the body of each
  branch of \<^verbatim>\<open>main\<close>'s loop as one definition, the dispatch between them and the transaction around
  a request (\<open>serve\<close>).

  A request carries the tag, two words, the 256 bytes of inline data, the process the kernel
  reports as the sender and the contents of the shared segment it offers. The kernel's answers to
  the image and handle calls of \<^verbatim>\<open>VFS_EXECIMAGE\<close> are the record \<open>kernel_calls\<close>. Reading an object
  that was never filled in is \<open>None\<close>, like reading outside one.
\<close>

definition VFS_CHUNK :: nat where "VFS_CHUNK = 8192"

record vfs_request =
  rq_tag :: nat
  rq_w1 :: int
  rq_w2 :: int
  rq_data :: bytes
  rq_from :: nat
  rq_buf :: bytes

record vfs_reply =
  rp_w0 :: int
  rp_w1 :: int
  rp_w2 :: int
  rp_w3 :: int
  rp_data :: bytes
  rp_handle :: "int option"
  rp_buf :: bytes

record kernel_calls =
  image_find :: "bytes \<Rightarrow> nat \<Rightarrow> int"
  image_create :: "bytes \<Rightarrow> nat \<Rightarrow> bytes \<Rightarrow> int"
  handle_dup :: "int \<Rightarrow> nat \<Rightarrow> int"

text \<open>Conversions between \<^verbatim>\<open>long\<close> and the unsigned types, and the result of a 0 / -1 function.\<close>

definition as_u64 :: "int \<Rightarrow> nat" where "as_u64 i = nat (i mod 18446744073709551616)"
definition as_u32 :: "int \<Rightarrow> nat" where "as_u32 i = nat (i mod 4294967296)"
definition as_long :: "nat \<Rightarrow> int" where
  "as_long n = (if u64 n < 9223372036854775808 then int (u64 n) else int (u64 n) - 18446744073709551616)"
definition rc :: "bool \<Rightarrow> int" where "rc ok = (if ok then 0 else - 1)"

text \<open>The string that starts at \<open>off\<close> in the inline data; without a terminator it runs out of it.\<close>

definition str_at :: "bytes \<Rightarrow> nat \<Rightarrow> bytes option" where
  "str_at d off = (if 0 \<in> set (drop off d) then Some (cstr (drop off d)) else None)"

section \<open>Permissions\<close>

definition may_access :: "inode \<Rightarrow> nat \<Rightarrow> bool \<Rightarrow> vfs \<Rightarrow> bool" where
  "may_access i caller want_write s =
     (let (uid, gid) = creds s caller in
      if uid = 0 then True
      else let (read_bit, write_bit) =
             (if i_uid i = uid then (256, 128) else if i_gid i = gid then (32, 16) else (4, 2))
           in i_mode i AND (if want_write then write_bit else read_bit) \<noteq> 0)"

definition may_execute :: "inode \<Rightarrow> nat \<Rightarrow> vfs \<Rightarrow> bool" where
  "may_execute i caller s =
     (let (uid, gid) = creds s caller in
      if uid = 0 then i_mode i AND 73 \<noteq> 0
      else let b = (if i_uid i = uid then 64 else if i_gid i = gid then 8 else 1)
           in i_mode i AND b \<noteq> 0)"

definition caller_uid :: "nat \<Rightarrow> vfs \<Rightarrow> nat" where
  "caller_uid caller s = fst (creds s caller)"

section \<open>Moving bytes\<close>

lemma chunk_decreases:
  assumes "0 < (bs :: nat)" "\<not> want \<le> (d :: nat)"
  shows "want - (d + min (bs - p mod bs) (want - d)) < want - d"
proof -
  have "p mod bs < bs" using assms(1) by simp
  then show ?thesis using assms(2) by (auto simp: min_def)
qed

text \<open>
  The copy loop of \<^verbatim>\<open>VFS_READ\<close> and of \<^verbatim>\<open>read_whole\<close>: block by block from \<open>offset\<close>, a hole reads as
  zeros. The flag says whether the loop ended because a block could not be read.
\<close>

function read_loop :: "inode \<Rightarrow> nat \<Rightarrow> nat \<Rightarrow> bytes \<Rightarrow> vfs \<Rightarrow> ((bytes \<times> bool) \<times> vfs) option" where
  "read_loop i offset want acc s =
     (if length acc \<ge> want then Some ((acc, False), s)
      else if bsize s = 0 then None
      else let pos = offset + length acc; fb = pos div bsize s; within = pos mod bsize s;
               n = min (bsize s - within) (want - length acc) in do {
        (phys, s) \<leftarrow> map_block i fb s;
        if phys = 0 then read_loop i offset want (acc @ replicate n 0) s
        else do {
          (got, s) \<leftarrow> read_block phys s;
          (case got of
             None \<Rightarrow> Some ((acc, True), s)
           | Some b \<Rightarrow> read_loop i offset want (acc @ slice b within n) s) }})"
  by pat_completeness auto
termination
  by (relation "measure (\<lambda>(i, offset, want, acc, s). want - length acc)") (auto simp: chunk_decreases)

declare read_loop.simps [simp del]

definition read_whole :: "inode \<Rightarrow> nat \<Rightarrow> vfs \<Rightarrow> (bytes option \<times> vfs) option" where
  "read_whole i mx s =
     (if i_size i > mx then Some (None, s)
      else do {
        ((data, failed), s) \<leftarrow> read_loop i 0 (i_size i) [] s;
        Some (if failed then None else Some data, s) })"

text \<open>
  The copy loop of \<^verbatim>\<open>VFS_WRITE\<close>. A block that is not there yet is added by \<^verbatim>\<open>extend\<close> while the size
  of the inode is set to where that block begins.
\<close>

definition grow :: "inode \<Rightarrow> nat \<Rightarrow> vfs \<Rightarrow> ((nat \<times> inode) \<times> vfs) option" where
  "grow i fb s = do {
     (phys, s) \<leftarrow> map_block i fb s;
     if phys \<noteq> 0 then Some ((phys, i), s)
     else do {
       ((phys, i'), s) \<leftarrow> extend_file (i\<lparr>i_size := u64 (fb * bsize s)\<rparr>) s;
       Some ((phys, i'\<lparr>i_size := i_size i\<rparr>), s) }}"

function write_loop :: "nat \<Rightarrow> nat \<Rightarrow> bytes \<Rightarrow> nat \<Rightarrow> inode \<Rightarrow> vfs \<Rightarrow> ((nat \<times> inode) \<times> vfs) option" where
  "write_loop offset want data fin i s =
     (if fin \<ge> want then Some ((fin, i), s)
      else if bsize s = 0 then None
      else let pos = u64 (offset + fin); fb = pos div bsize s; within = pos mod bsize s;
               n = min (bsize s - within) (want - fin) in do {
        ((phys, i), s) \<leftarrow> grow i fb s;
        if phys = 0 then Some ((fin, i), s)
        else do {
          (got, s) \<leftarrow> read_block phys s;
          (case got of
             None \<Rightarrow> Some ((fin, i), s)
           | Some b \<Rightarrow> do {
               (ok, s) \<leftarrow> write_block phys (overlay b within (slice data fin n)) s;
               if \<not> ok then Some ((fin, i), s)
               else let upto = u64 (offset + (fin + n));
                        i = (if upto > i_size i then i\<lparr>i_size := upto\<rparr> else i)
                    in write_loop offset want data (fin + n) i s }) }})"
  by pat_completeness auto
termination
  apply (relation "measure (\<lambda>(offset, want, data, fin, i, s). want - fin)")
   apply simp
  apply (simp only: in_measure split_conv)
  apply (rule chunk_decreases; assumption?)
  apply (erule neq0_conv [THEN iffD1])
  done

declare write_loop.simps [simp del]

section \<open>Questions\<close>

abbreviation error_reply :: "int \<Rightarrow> vfs_reply" where
  "error_reply e \<equiv> \<lparr>rp_w0 = e, rp_w1 = 0, rp_w2 = 0, rp_w3 = 0, rp_data = [], rp_handle = None, rp_buf = []\<rparr>"

definition kind_of_mode :: "nat \<Rightarrow> nat" where
  "kind_of_mode m =
     (let k = MODE_KIND m in
      if k = MODE_DIR then VFS_KIND_DIR else if k = MODE_LINK then VFS_KIND_LINK
      else if k = MODE_FIFO then VFS_KIND_FIFO else if k = MODE_CHR then VFS_KIND_CHR
      else if k = MODE_BLK then VFS_KIND_BLK else VFS_KIND_FILE)"

definition le32 :: "nat \<Rightarrow> bytes" where
  "le32 n = wr32w (replicate 4 0) 0 n"

definition do_stat :: "bool \<Rightarrow> bytes \<Rightarrow> vfs \<Rightarrow> (vfs_reply \<times> vfs) option" where
  "do_stat follow path s = do {
     ((ino, out), s) \<leftarrow> (if follow then lookup path s else lookup_nofollow path s);
     if ino = 0 then Some (error_reply (- ENOENT), s)
     else do {
       i \<leftarrow> out;
       Some ((error_reply (as_long (i_size i)))\<lparr>
         rp_w1 := int (kind_of_mode (i_mode i)), rp_w2 := int (i_mode i AND 0x1FF),
         rp_w3 := int (u32 (i_uid i * 65536) OR i_gid i),
         rp_data := concat (map le32 [i_mtime i, i_ctime i, i_atime i, ino, node_rdev i])\<rparr>, s) }}"

definition do_readlink :: "bytes \<Rightarrow> vfs \<Rightarrow> (vfs_reply \<times> vfs) option" where
  "do_readlink path s = do {
     ((ino, out), s) \<leftarrow> lookup_nofollow path s;
     if ino = 0 then Some (error_reply (- ENOENT), s)
     else do {
       i \<leftarrow> out;
       if MODE_KIND (i_mode i) \<noteq> MODE_LINK then Some (error_reply (- EINVAL), s)
       else do {
         (target, s) \<leftarrow> read_link i 512 s;
         (case target of
            None \<Rightarrow> Some (error_reply (- EIO), s)
          | Some t \<Rightarrow> let t = take 255 t in
              Some ((error_reply (int (length t)))\<lparr>rp_data := t\<rparr>, s)) }}}"

definition do_list :: "bytes \<Rightarrow> nat \<Rightarrow> vfs \<Rightarrow> (vfs_reply \<times> vfs) option" where
  "do_list path index s = do {
     ((ino, out), s) \<leftarrow> lookup path s;
     if ino = 0 then Some (error_reply (- EIO), s)
     else do {
       i \<leftarrow> out;
       (entry, s) \<leftarrow> dir_nth i index s;
       (case entry of
          None \<Rightarrow> Some (error_reply (- EIO), s)
        | Some (child, name, kind) \<Rightarrow> do {
            (got, s) \<leftarrow> read_inode child s;
            ci \<leftarrow> got;
            Some ((error_reply (int kind))\<lparr>rp_w1 := as_long (i_size ci),
              rp_w2 := int (i_mode ci AND 0x1FF), rp_w3 := int (i_mtime ci), rp_data := cstr name\<rparr>, s) }) }}"

definition do_read :: "bytes \<Rightarrow> nat \<Rightarrow> nat \<Rightarrow> nat \<Rightarrow> vfs \<Rightarrow> (vfs_reply \<times> vfs) option" where
  "do_read path from offset want s = do {
     ((ino, out), s) \<leftarrow> lookup path s;
     if ino = 0 then Some (error_reply (- ENOENT), s)
     else do {
       i \<leftarrow> out;
       if MODE_KIND (i_mode i) = MODE_DIR then Some (error_reply (- EISDIR), s)
       else if \<not> may_access i from False s then Some (error_reply (- EACCES), s)
       else if offset \<ge> i_size i then Some (error_reply 0, s)
       else let want = min (min want (i_size i - offset)) VFS_CHUNK in do {
         ((data, _), s) \<leftarrow> read_loop i offset want [] s;
         Some ((error_reply (int (length data)))\<lparr>rp_buf := data\<rparr>, s) }}}"

definition do_statfs :: "bytes \<Rightarrow> vfs \<Rightarrow> vfs_reply" where
  "do_statfs p s =
     (let sized = (\<not> is_proc p \<and> \<not> (take 4 p = str ''/dev'' \<and> (length p = 4 \<or> length p > 4 \<and> p ! 4 = 47)))
      in (error_reply (int (bsize s)))\<lparr>rp_w1 := (if sized then int (rd32 (fs_sb (gfs s)) 4) else 0),
           rp_w2 := (if sized then int (rd32 (fs_sb (gfs s)) 12) else 0)\<rparr>)"

text \<open>The requests under \<^verbatim>\<open>/proc\<close>.\<close>

definition proc_mode :: "nat \<Rightarrow> int" where
  "proc_mode kind = (if kind = VFS_KIND_DIR then 0x16D else 0x124)"

definition proc_stat :: "kernel_view \<Rightarrow> bytes \<Rightarrow> vfs \<Rightarrow> vfs_reply" where
  "proc_stat k path s =
     (case proc_kind k path s of
        None \<Rightarrow> error_reply (- ENOENT)
      | Some (kind, len) \<Rightarrow> (error_reply (int len))\<lparr>rp_w1 := int kind, rp_w2 := proc_mode kind\<rparr>)"

definition proc_listing :: "kernel_view \<Rightarrow> bytes \<Rightarrow> nat \<Rightarrow> vfs \<Rightarrow> vfs_reply" where
  "proc_listing k path index s =
     (case proc_entry k path index s of
        None \<Rightarrow> error_reply (- ENOENT)
      | Some (name, kind, len) \<Rightarrow>
          (error_reply (int kind))\<lparr>rp_w1 := int len, rp_w2 := proc_mode kind, rp_data := name\<rparr>)"

definition proc_read :: "kernel_view \<Rightarrow> bytes \<Rightarrow> nat \<Rightarrow> nat \<Rightarrow> vfs \<Rightarrow> vfs_reply option" where
  "proc_read k path offset want s =
     (case proc_contents k path s of
        None \<Rightarrow> Some (error_reply (- ENOENT))
      | Some txt \<Rightarrow>
          if length txt \<ge> 4096 then None
          else if offset \<ge> length txt then Some (error_reply 0)
          else let want = min (min want (length txt - offset)) VFS_CHUNK
               in Some ((error_reply (int want))\<lparr>rp_buf := slice txt offset want\<rparr>))"

section \<open>Changes\<close>

definition do_write :: "bytes \<Rightarrow> nat \<Rightarrow> nat \<Rightarrow> nat \<Rightarrow> bytes \<Rightarrow> vfs \<Rightarrow> (vfs_reply \<times> vfs) option" where
  "do_write path from offset want data s = do {
     ((ino, out), s) \<leftarrow> lookup path s;
     if ino = 0 then Some (error_reply (- ENOENT), s)
     else do {
       i \<leftarrow> out;
       if \<not> may_access i from True s
       then Some (error_reply (if MODE_KIND (i_mode i) = MODE_DIR then - EISDIR else - EACCES), s)
       else do {
         ((fin, i), s) \<leftarrow> write_loop offset (min want VFS_CHUNK) data 0 i s;
         let i = touch_inode i True s;
         (links, s) \<leftarrow> inode_links ino s;
         (_, s) \<leftarrow> write_inode ino i links s;
         Some (error_reply (int fin), s) }}}"

definition do_chmod :: "bool \<Rightarrow> bytes \<Rightarrow> nat \<Rightarrow> int \<Rightarrow> int \<Rightarrow> vfs \<Rightarrow> (vfs_reply \<times> vfs) option" where
  "do_chmod is_chmod path from w1 w2 s = do {
     ((ino, out), s) \<leftarrow> lookup path s;
     if ino = 0 then Some (error_reply (- ENOENT), s)
     else do {
       i \<leftarrow> out;
       let who = caller_uid from s;
       let allowed = (if is_chmod then who = 0 \<or> i_uid i = who else who = 0);
       if \<not> allowed then Some (error_reply (- EPERM), s)
       else do {
         let i = (if is_chmod then i\<lparr>i_mode := (i_mode i AND 0xF000) OR (as_u32 w1 AND 0x1FF)\<rparr>
                  else i\<lparr>i_uid := as_u32 w1, i_gid := as_u32 w2\<rparr>);
         (links, s) \<leftarrow> inode_links ino s;
         (ok, s) \<leftarrow> write_inode ino i links s;
         Some (error_reply (rc ok), s) }}}"

text \<open>The blocks of a file go back.\<close>

fun free_blocks :: "inode \<Rightarrow> nat list \<Rightarrow> vfs \<Rightarrow> (unit \<times> vfs) option" where
  "free_blocks i [] s = Some ((), s)"
| "free_blocks i (fb # fbs) s = do {
     (phys, s) \<leftarrow> map_block i fb s;
     (_, s) \<leftarrow> (if phys \<noteq> 0 then free_block phys s else Some ((), s));
     free_blocks i fbs s }"

definition do_trunc :: "bytes \<Rightarrow> nat \<Rightarrow> vfs \<Rightarrow> (vfs_reply \<times> vfs) option" where
  "do_trunc path from s = do {
     ((ino, out), s) \<leftarrow> lookup path s;
     if ino = 0 then Some (error_reply (- ENOENT), s)
     else do {
       i \<leftarrow> out;
       if \<not> may_access i from True s then Some (error_reply (- EACCES), s)
       else if bsize s = 0 then None
       else do {
         (_, s) \<leftarrow> free_blocks i [0 ..< file_blocks i s] s;
         let i = (touch_inode i True s)\<lparr>i_block := empty_root, i_size := 0\<rparr>;
         (links, s) \<leftarrow> inode_links ino s;
         (ok, s) \<leftarrow> write_inode ino i links s;
         Some (error_reply (rc ok), s) }}}"

section \<open>Removing a name\<close>

text \<open>Stores a field of an inode in place, if it can be found.\<close>

definition patch_inode :: "nat \<Rightarrow> nat \<Rightarrow> (bytes \<Rightarrow> nat \<Rightarrow> bytes) \<Rightarrow> vfs \<Rightarrow> (unit \<times> vfs) option" where
  "patch_inode ino room f s = do {
     (loc, s) \<leftarrow> inode_location ino s;
     (case loc of
        None \<Rightarrow> Some ((), s)
      | Some (block, at) \<Rightarrow> do {
          (got, s) \<leftarrow> read_block block s;
          (case got of
             None \<Rightarrow> Some ((), s)
           | Some b \<Rightarrow>
               if at + room > bsize s then None
               else do {
                 (_, s) \<leftarrow> write_block block (f b at) s;
                 Some ((), s) }) }) }"

definition free_inode_bit :: "nat \<Rightarrow> vfs \<Rightarrow> (unit \<times> vfs) option" where
  "free_inode_bit ino s =
     (if inodes_per_group (gfs s) = 0 then None
      else let g = (ino - 1) div inodes_per_group (gfs s); i = (ino - 1) mod inodes_per_group (gfs s) in do {
        (got, s) \<leftarrow> read_group_desc g s;
        (case got of
           None \<Rightarrow> Some ((), s)
         | Some desc \<Rightarrow> do {
             (got, s) \<leftarrow> read_block (rd32 desc 4) s;
             (case got of
                None \<Rightarrow> Some ((), s)
              | Some bm \<Rightarrow>
                  if i div 8 \<ge> length bm then None
                  else if \<not> bit_set bm i then Some ((), s)
                  else do {
                    (_, s) \<leftarrow> write_block (rd32 desc 4) (clear_bit_at bm i) s;
                    (_, s) \<leftarrow> write_group_desc g (wr16w desc 14 (rd16 desc 14 + 1)) s;
                    let s = upd_sb (\<lambda>sb. wr32w sb 16 (u32 (rd32 sb 16 + 1))) s;
                    (_, s) \<leftarrow> write_superblock s;
                    Some ((), s) }) }) })"

definition zero_inode :: inode where
  "zero_inode = \<lparr>i_mode = 0, i_uid = 0, i_gid = 0, i_size = 0, i_atime = 0, i_ctime = 0, i_mtime = 0,
     i_block = replicate 60 0\<rparr>"

text \<open>The last name is gone: blocks, inode, deletion time, bitmap.\<close>

definition release_inode :: "nat \<Rightarrow> vfs \<Rightarrow> (unit \<times> vfs) option" where
  "release_inode ino s = do {
     (got, s) \<leftarrow> read_inode ino s;
     (case got of
        None \<Rightarrow> Some ((), s)
      | Some victim \<Rightarrow>
          let inline_link = (MODE_KIND (i_mode victim) = MODE_LINK \<and> i_size victim < 60) in
          if \<not> inline_link \<and> bsize s = 0 then None
          else do {
            (_, s) \<leftarrow> free_blocks victim (if inline_link then [] else [0 ..< file_blocks victim s]) s;
            (_, s) \<leftarrow> write_inode ino zero_inode 0 s;
            (_, s) \<leftarrow> patch_inode ino 24 (\<lambda>b at. wr32w b (at + 20) 0x60000000) s;
            free_inode_bit ino s }) }"

definition uncount_directory :: "nat \<Rightarrow> nat \<Rightarrow> vfs \<Rightarrow> (unit \<times> vfs) option" where
  "uncount_directory dir_ino ino s = do {
     (_, s) \<leftarrow> patch_inode dir_ino 28
       (\<lambda>b at. let links = rd16 b (at + 26) in if links > 0 then wr16w b (at + 26) (links - 1) else b) s;
     if inodes_per_group (gfs s) = 0 then None
     else let g = (ino - 1) div inodes_per_group (gfs s) in do {
       (got, s) \<leftarrow> read_group_desc g s;
       (case got of
          None \<Rightarrow> Some ((), s)
        | Some gd \<Rightarrow>
            if rd16 gd 16 > 0 then do {
              (_, s) \<leftarrow> write_group_desc g (wr16w gd 16 (rd16 gd 16 - 1)) s;
              Some ((), s) }
            else Some ((), s)) }}"

definition remove_name :: "inode \<Rightarrow> nat \<Rightarrow> bytes \<Rightarrow> bool \<Rightarrow> nat \<Rightarrow> vfs \<Rightarrow> (int \<times> vfs) option" where
  "remove_name dir dir_ino name removing_dir had s = do {
     ((ok, taken), s) \<leftarrow> dir_remove dir name s;
     (case (ok, taken) of
        (True, Some ino) \<Rightarrow>
          if ino = 0 then Some (- ENOENT, s)
          else if \<not> removing_dir \<and> had > 1 then do {
            (_, s) \<leftarrow> patch_inode ino 28 (\<lambda>b at. wr16w b (at + 26) (had - 1)) s;
            Some (0, s) }
          else do {
            (_, s) \<leftarrow> release_inode ino s;
            (_, s) \<leftarrow> (if removing_dir then uncount_directory dir_ino ino s else Some ((), s));
            Some (0, s) }
      | _ \<Rightarrow> Some (- ENOENT, s)) }"

definition do_unlink :: "bytes \<Rightarrow> vfs \<Rightarrow> (int \<times> vfs) option" where
  "do_unlink path s = do {
     parts \<leftarrow> split_path path;
     (case parts of
        None \<Rightarrow> Some (- EINVAL, s)
      | Some (parent, name) \<Rightarrow> do {
          ((dir_ino, out), s) \<leftarrow> lookup parent s;
          if dir_ino = 0 then Some (- ENOENT, s)
          else do {
            dir \<leftarrow> out;
            ((pino, out), s) \<leftarrow> lookup_nofollow path s;
            if pino = 0 then Some (- ENOENT, s)
            else do {
              probe \<leftarrow> out;
              let removing_dir = (MODE_KIND (i_mode probe) = MODE_DIR);
              (allowed, s) \<leftarrow> (if removing_dir then dir_is_empty probe s else Some (True, s));
              if \<not> allowed then Some (- ENOTEMPTY, s)
              else do {
                (had, s) \<leftarrow> inode_links pino s;
                remove_name dir dir_ino name removing_dir had s }}}}) }"

section \<open>Renaming\<close>

definition move_entry :: "inode \<Rightarrow> nat \<Rightarrow> bytes \<Rightarrow> inode \<Rightarrow> nat \<Rightarrow> bytes \<Rightarrow> nat \<Rightarrow> vfs \<Rightarrow> (int \<times> vfs) option" where
  "move_entry from_dir from_ino oldn to_dir to_ino newn t s = do {
     ((ok, taken), s) \<leftarrow> dir_remove from_dir oldn s;
     (case (ok, taken) of
        (True, Some ino) \<Rightarrow>
          if ino = 0 then Some (- EIO, s)
          else if from_ino = to_ino then do {
            ((ok, from_dir), s) \<leftarrow> dir_add from_dir from_ino newn ino t s;
            if \<not> ok then Some (- EIO, s)
            else do {
              (links, s) \<leftarrow> dir_links from_ino s;
              (ok, s) \<leftarrow> write_inode from_ino from_dir links s;
              Some (rc ok, s) }}
          else do {
            ((ok, to_dir), s) \<leftarrow> dir_add to_dir to_ino newn ino t s;
            if \<not> ok then Some (- EIO, s)
            else do {
              (links, s) \<leftarrow> dir_links to_ino s;
              (ok, s) \<leftarrow> write_inode to_ino to_dir links s;
              if \<not> ok then Some (- EIO, s)
              else do {
                (links, s) \<leftarrow> dir_links from_ino s;
                (ok, s) \<leftarrow> write_inode from_ino from_dir links s;
                Some (rc ok, s) }}}
      | _ \<Rightarrow> Some (- EIO, s)) }"

definition do_rename :: "bytes \<Rightarrow> bytes \<Rightarrow> nat \<Rightarrow> vfs \<Rightarrow> (int \<times> vfs) option" where
  "do_rename old_path new_path from s = do {
     parts \<leftarrow> split_path old_path;
     (case parts of
        None \<Rightarrow> Some (- EIO, s)
      | Some (oldp, oldn) \<Rightarrow> do {
          parts \<leftarrow> split_path new_path;
          (case parts of
             None \<Rightarrow> Some (- EIO, s)
           | Some (newp, newn) \<Rightarrow> do {
               ((from_ino, from_out), s) \<leftarrow> lookup oldp s;
               if from_ino = 0 then Some (- EIO, s)
               else do {
                 from_dir \<leftarrow> from_out;
                 ((to_ino, to_out), s) \<leftarrow> lookup newp s;
                 if to_ino = 0 then Some (- EIO, s)
                 else do {
                   to_dir \<leftarrow> to_out;
                   ((v_ino, v_out), s) \<leftarrow> lookup old_path s;
                   if v_ino = 0 then Some (- EIO, s)
                   else do {
                     victim \<leftarrow> v_out;
                     if \<not> may_access victim from True s then Some (- EIO, s)
                     else do {
                       (there, s) \<leftarrow> dir_search to_dir newn s;
                       if there \<noteq> 0 then Some (- EIO, s)
                       else move_entry from_dir from_ino oldn to_dir to_ino newn
                         (if MODE_KIND (i_mode victim) = MODE_DIR then 2 else 1) s }}}}}) }) }"

section \<open>Mounts, images\<close>

definition do_mount :: "nat \<Rightarrow> bytes \<Rightarrow> nat \<Rightarrow> vfs \<Rightarrow> (int \<times> vfs) option" where
  "do_mount from at d s =
     (if caller_uid from s \<noteq> 0 then Some (- EPERM, s)
      else do {
        (_, s) \<leftarrow> txn_flush s;
        let was = g_cur s;
        (r, s) \<leftarrow> mount_at d at s;
        Some (r, s\<lparr>g_cur := was\<rparr>) })"

definition do_umount :: "nat \<Rightarrow> bytes \<Rightarrow> vfs \<Rightarrow> (int \<times> vfs) option" where
  "do_umount from at s =
     (if caller_uid from s \<noteq> 0 then Some (- EPERM, s)
      else (case find (\<lambda>i. fs_used (g_fs s ! i) \<and> fs_at (g_fs s ! i) = at) [1 ..< length (g_fs s)] of
        None \<Rightarrow> Some (- EINVAL, s)
      | Some i \<Rightarrow> do {
          let was = g_cur s;
          (_, s) \<leftarrow> txn_flush (s\<lparr>g_cur := i\<rparr>);
          Some (0, s\<lparr>g_fs := (g_fs s)[i := no_fs], g_cur := (if was = i then 0 else was)\<rparr>) }))"

definition do_execimage :: "kernel_calls \<Rightarrow> bytes \<Rightarrow> nat \<Rightarrow> bool \<Rightarrow> vfs \<Rightarrow> (vfs_reply \<times> vfs) option" where
  "do_execimage k path from running s = do {
     ((ino, out), s) \<leftarrow> lookup path s;
     if ino = 0 then Some (error_reply (- ENOENT), s)
     else do {
       i \<leftarrow> out;
       if MODE_KIND (i_mode i) \<noteq> MODE_FILE then Some (error_reply (- EACCES), s)
       else if \<not> may_access i from False s \<or> (running \<and> \<not> may_execute i from s)
       then Some (error_reply (- EACCES), s)
       else if i_size i = 0 \<or> i_size i > 4194304 then Some (error_reply (- E2BIG), s)
       else do {
         let version = u64 (i_size i * 16777216) XOR i_mtime i;
         let h = image_find k path version;
         (h, s) \<leftarrow> (if h < 0 then do {
             (data, s) \<leftarrow> read_whole i 4194304 s;
             Some (case data of Some d \<Rightarrow> image_create k path version d | None \<Rightarrow> h, s) }
           else Some (h, s));
         if h < 0 then Some (error_reply (- EIO), s)
         else let narrow = handle_dup k h (if running then 13 else 9) in
           if narrow < 0 then Some (error_reply (- EIO), s)
           else Some ((error_reply (as_long (i_size i)))\<lparr>rp_handle := Some narrow\<rparr>, s) }}}"

section \<open>Dispatch\<close>

abbreviation no_body :: "(int \<times> vfs) option \<Rightarrow> (vfs_reply \<times> vfs) option" where
  "no_body r \<equiv> map_option (\<lambda>(e, s). (error_reply e, s)) r"

text \<open>
  \<open>rest\<close> is the string after the first one, for the requests that carry two. The tags are those of
  \<^verbatim>\<open>user/libc/include/vfsd.h\<close>, in the order of the tests in \<^verbatim>\<open>main\<close>.
\<close>

definition uses_path :: "nat \<Rightarrow> bool" where
  "uses_path tag = (1 \<le> tag \<and> tag \<le> 24 \<and> tag \<noteq> 4 \<and> tag \<noteq> 9 \<and> tag \<noteq> 21)"

definition dispatch :: "kernel_view \<Rightarrow> kernel_calls \<Rightarrow> vfs_request \<Rightarrow> vfs \<Rightarrow> (vfs_reply \<times> vfs) option" where
  "dispatch kv kc m s = do {
     let path = cstr (rq_data m);
     _ \<leftarrow> (if uses_path (rq_tag m) then str_at (rq_data m) 0 else Some path);
     let rest = str_at (rq_data m) (length path + 1);
     let tag = rq_tag m;
     let from = rq_from m;
     let w1 = rq_w1 m;
     let w2 = rq_w2 m;
     if is_proc path \<and> (tag = 1 \<or> tag = 16) then Some (proc_stat kv path s, s)
     else if is_proc path \<and> tag = 3 then Some (proc_listing kv path (as_u32 w1) s, s)
     else if is_proc path \<and> tag = 2 then do { r \<leftarrow> proc_read kv path (as_u64 w1) (as_u64 w2) s; Some (r, s) }
     else if tag = 17 then Some (do_statfs path s, s)
     else if tag = 4 then Some ((error_reply (if fs_mounted (gfs s) then 1 else 0))\<lparr>rp_w1 := int (bsize s)\<rparr>, s)
     else if tag = 15 then do_readlink path s
     else if tag = 19 then no_body (create_node path MAKE_FIFO None 0 s)
     else if tag = 21 then
       (if w1 \<noteq> 0 \<and> caller_uid from s \<noteq> 0 then Some (error_reply (- EPERM), s)
        else do {
          ((problems, fixed, txt), s) \<leftarrow> fsck_run (w1 \<noteq> 0) 256 s;
          Some ((error_reply problems)\<lparr>rp_w1 := int fixed, rp_data := txt\<rparr>, s) })
     else if tag = 22 then no_body (do_mount from path (as_u32 w1) s)
     else if tag = 23 then no_body (do_umount from path s)
     else if tag = 20 then
       (if caller_uid from s \<noteq> 0 then Some (error_reply (- EPERM), s)
        else no_body (create_node path (if w1 = int VFS_KIND_BLK then MAKE_BLK else MAKE_CHR) None (as_u32 w2) s))
     else if tag = 18 then do { where' \<leftarrow> rest; no_body (link_node path where' s) }
     else if tag = 14 then do { where' \<leftarrow> rest; no_body (create_node where' MAKE_FILE (Some path) 0 s) }
     else if tag = 1 then do_stat True path s
     else if tag = 16 then do_stat False path s
     else if tag = 3 then do_list path (as_u32 w1) s
     else if tag = 2 then do_read path from (as_u64 w1) (as_u64 w2) s
     else if tag = 24 then do_execimage kc path from (w1 \<noteq> 0) s
     else if tag = 5 then no_body (create_file path False s)
     else if tag = 7 then no_body (create_file path True s)
     else if tag = 8 then no_body (do_unlink path s)
     else if tag = 6 then do_write path from (as_u64 w1) (as_u64 w2) (rq_buf m) s
     else if tag = 10 then do_chmod True path from w1 w2 s
     else if tag = 11 then do_chmod False path from w1 w2 s
     else if tag = 12 then do_trunc path from s
     else if tag = 13 then do { where' \<leftarrow> rest; no_body (do_rename path where' from s) }
     else if tag = 9 then do { (ok, s) \<leftarrow> write_superblock s; Some (error_reply (rc ok), s) }
     else Some (error_reply (- EIO), s) }"

text \<open>One turn of the loop: every request is a transaction.\<close>

definition serve :: "kernel_view \<Rightarrow> kernel_calls \<Rightarrow> vfs_request \<Rightarrow> vfs \<Rightarrow> (vfs_reply \<times> vfs) option" where
  "serve kv kc m s = do {
     (r, s) \<leftarrow> dispatch kv kc m (txn_begin s);
     (ok, s) \<leftarrow> txn_end (rq_tag m = 9) s;
     Some (if \<not> ok \<and> rp_w0 r \<ge> 0 then r\<lparr>rp_w0 := - EIO\<rparr> else r, s) }"

end
