(* ===== verification/Libc_Inflate.thy ===== *)
theory Libc_Inflate
  imports Leah_Prelude
begin

text \<open>
  \<^verbatim>\<open>user/libc/inflate.c\<close>: the decompressor for deflate streams and its zlib and gzip wrappers. An
  array access outside the array is \<open>None\<close>; the \<open>-1\<close> of the C functions is the inner \<open>None\<close> or
  \<open>False\<close>. The output buffer is the list of the bytes written so far, with its capacity.
\<close>

definition MAX_BITS :: nat where "MAX_BITS = 15"
definition MAX_SYMS :: nat where "MAX_SYMS = 288"
definition FAST_BITS :: nat where "FAST_BITS = 9"
definition FAST_SIZE :: nat where "FAST_SIZE = 512"

record stream =
  st_in :: bytes
  in_at :: nat
  bitbuf :: nat
  bitcount :: nat
  st_out :: bytes
  out_cap :: nat
  failed :: bool

record huffman =
  h_count :: "nat list"
  h_symbol :: "nat list"
  h_fast :: "nat list"

definition get :: "'a list \<Rightarrow> nat \<Rightarrow> 'a option" where
  "get xs i = (if i < length xs then Some (xs ! i) else None)"

section \<open>Reading bits\<close>

definition take_byte :: "stream \<Rightarrow> stream" where
  "take_byte s =
     s\<lparr>bitbuf := bitbuf s OR push_bit (bitcount s) (unat (st_in s ! in_at s)),
       in_at := in_at s + 1, bitcount := bitcount s + 8\<rparr>"

function fill_bits :: "nat \<Rightarrow> stream \<Rightarrow> stream" where
  "fill_bits need s =
     (if bitcount s < need then
        (if in_at s \<ge> length (st_in s) then s\<lparr>failed := True\<rparr> else fill_bits need (take_byte s))
      else s)"
  by pat_completeness auto
termination by (relation "measure (\<lambda>(need, s). need - bitcount s)") (auto simp: take_byte_def)

declare fill_bits.simps [simp del]

definition bits :: "nat \<Rightarrow> stream \<Rightarrow> nat \<times> stream" where
  "bits need s =
     (let s = fill_bits need s in
      if bitcount s < need then (0, s)
      else (take_bit need (bitbuf s),
            s\<lparr>bitbuf := drop_bit need (bitbuf s), bitcount := bitcount s - need\<rparr>))"

section \<open>Building a code\<close>

fun count_lengths :: "nat list \<Rightarrow> nat list \<Rightarrow> nat list option" where
  "count_lengths cs [] = Some cs"
| "count_lengths cs (l # ls) = do { c \<leftarrow> get cs l; count_lengths (cs[l := c + 1]) ls }"

fun over_subscribed :: "int \<Rightarrow> nat list \<Rightarrow> bool" where
  "over_subscribed left [] = False"
| "over_subscribed left (c # cs) =
     (let left = 2 * left - int c in if left < 0 then True else over_subscribed left cs)"

text \<open>\<^verbatim>\<open>offset[len]\<close> is where the symbols of that length start; entry 0 is unused.\<close>

fun offsets_from :: "nat \<Rightarrow> nat list \<Rightarrow> nat list" where
  "offsets_from off [] = []"
| "offsets_from off (c # cs) = off # offsets_from (off + c) cs"

fun place_symbols :: "nat list \<Rightarrow> nat list \<Rightarrow> (nat \<times> nat) list \<Rightarrow> nat list option" where
  "place_symbols offs syms [] = Some syms"
| "place_symbols offs syms ((i, l) # ls) =
     (if l = 0 then place_symbols offs syms ls
      else do {
        at \<leftarrow> get offs l;
        _ \<leftarrow> get syms at;
        place_symbols (offs[l := at + 1]) (syms[at := i]) ls })"

definition rev_bits :: "nat \<Rightarrow> nat \<Rightarrow> nat" where
  "rev_bits len code = fold (\<lambda>b r. r OR push_bit (len - 1 - b) (take_bit 1 (drop_bit b code))) [0 ..< len] 0"

function fill_stride :: "nat \<Rightarrow> nat \<Rightarrow> nat \<Rightarrow> nat list \<Rightarrow> nat list" where
  "fill_stride at step entry fast =
     (if at < FAST_SIZE \<and> 0 < step then fill_stride (at + step) step entry (fast[at := entry]) else fast)"
  by pat_completeness auto
termination by (relation "measure (\<lambda>(at, step, entry, fast). FAST_SIZE - at)") (auto simp: FAST_SIZE_def)

declare fill_stride.simps [simp del]

fun fill_codes :: "nat list \<Rightarrow> nat \<Rightarrow> nat \<Rightarrow> nat \<Rightarrow> nat list \<Rightarrow> nat list \<Rightarrow> nat list option" where
  "fill_codes syms len first index [] fast = Some fast"
| "fill_codes syms len first index (i # is) fast = do {
     v \<leftarrow> get syms (index + i);
     fill_codes syms len first index is
       (fill_stride (rev_bits len (first + i)) (2 ^ len) (push_bit 12 len OR v) fast) }"

fun fill_fast :: "nat list \<Rightarrow> nat \<Rightarrow> nat \<Rightarrow> nat \<Rightarrow> nat list \<Rightarrow> nat list \<Rightarrow> nat list option" where
  "fill_fast syms len first index [] fast = Some fast"
| "fill_fast syms len first index (c # cs) fast = do {
     fast \<leftarrow> (if len \<le> FAST_BITS then fill_codes syms len first index [0 ..< c] fast else Some fast);
     fill_fast syms (len + 1) (2 * (first + c)) (index + c) cs fast }"

text \<open>A code that is refused leaves the counts of the new one beside the tables of the old one.\<close>

definition build :: "huffman \<Rightarrow> nat list \<Rightarrow> (bool \<times> huffman) option" where
  "build h lengths = do {
     cs \<leftarrow> count_lengths (replicate (MAX_BITS + 1) 0) lengths;
     let h = h\<lparr>h_count := cs\<rparr>;
     if hd cs = length lengths then Some (False, h)
     else if over_subscribed 1 (tl cs) then Some (False, h)
     else do {
       syms \<leftarrow> place_symbols (0 # offsets_from 0 (tl cs)) (h_symbol h) (enumerate 0 lengths);
       fast \<leftarrow> fill_fast syms 1 0 0 (tl cs) (replicate FAST_SIZE 0);
       Some (True, h\<lparr>h_symbol := syms, h_fast := fast\<rparr>) }}"

section \<open>Decoding a symbol\<close>

function top_up :: "stream \<Rightarrow> stream" where
  "top_up s = (if bitcount s < FAST_BITS \<and> in_at s < length (st_in s) then top_up (take_byte s) else s)"
  by pat_completeness auto
termination by (relation "measure (\<lambda>s. length (st_in s) - in_at s)") (auto simp: take_byte_def)

declare top_up.simps [simp del]

text \<open>The walk, one bit at a time; the answer \<open>None\<close> is \<open>-1\<close>.\<close>

fun walk_code :: "nat list \<Rightarrow> nat \<Rightarrow> nat \<Rightarrow> nat \<Rightarrow> nat list \<Rightarrow> stream \<Rightarrow> (nat option \<times> stream) option" where
  "walk_code syms code first index [] s = Some (None, s)"
| "walk_code syms code first index (c # cs) s =
     (let (b, s) = bits 1 s; code = code OR b in
      if failed s then Some (None, s)
      else if code < first + c then do { v \<leftarrow> get syms (index + (code - first)); Some (Some v, s) }
      else walk_code syms (2 * code) (2 * (first + c)) (index + c) cs s)"

definition decode_slow :: "huffman \<Rightarrow> stream \<Rightarrow> (nat option \<times> stream) option" where
  "decode_slow h s = walk_code (h_symbol h) 0 0 0 (tl (h_count h)) s"

definition decode :: "huffman \<Rightarrow> stream \<Rightarrow> (nat option \<times> stream) option" where
  "decode h s =
     (let s = top_up s in do {
        entry \<leftarrow> get (h_fast h) (take_bit FAST_BITS (bitbuf s));
        let len = drop_bit 12 entry;
        if entry \<noteq> 0 \<and> len \<le> bitcount s
        then Some (Some (take_bit 12 entry),
                   s\<lparr>bitbuf := drop_bit len (bitbuf s), bitcount := bitcount s - len\<rparr>)
        else decode_slow h s })"

section \<open>Blocks\<close>

definition stored_block :: "stream \<Rightarrow> bool \<times> stream" where
  "stored_block s =
     (let s = s\<lparr>bitbuf := 0, bitcount := 0\<rparr> in
      if in_at s + 4 > length (st_in s) then (False, s)
      else let at = in_at s;
               len = unat (st_in s ! at) + 256 * unat (st_in s ! (at + 1));
               nlen = unat (st_in s ! (at + 2)) + 256 * unat (st_in s ! (at + 3));
               s = s\<lparr>in_at := at + 4\<rparr>
           in if len XOR 0xFFFF \<noteq> nlen then (False, s)
              else if in_at s + len > length (st_in s) \<or> length (st_out s) + len > out_cap s then (False, s)
              else (True, s\<lparr>st_out := st_out s @ take len (drop (in_at s) (st_in s)), in_at := in_at s + len\<rparr>))"

definition len_base :: "nat list" where
  "len_base = [3, 4, 5, 6, 7, 8, 9, 10, 11, 13, 15, 17, 19, 23, 27, 31, 35, 43, 51, 59,
     67, 83, 99, 115, 131, 163, 195, 227, 258]"
definition len_extra :: "nat list" where
  "len_extra = [0, 0, 0, 0, 0, 0, 0, 0, 1, 1, 1, 1, 2, 2, 2, 2, 3, 3, 3, 3, 4, 4, 4, 4, 5, 5, 5, 5, 0]"
definition dist_base :: "nat list" where
  "dist_base = [1, 2, 3, 4, 5, 7, 9, 13, 17, 25, 33, 49, 65, 97, 129, 193, 257, 385, 513,
     769, 1025, 1537, 2049, 3073, 4097, 6145, 8193, 12289, 16385, 24577]"
definition dist_extra :: "nat list" where
  "dist_extra = [0, 0, 0, 0, 1, 1, 2, 2, 3, 3, 4, 4, 5, 5, 6, 6, 7, 7, 8, 8, 9, 9, 10, 10, 11, 11, 12, 12, 13, 13]"

text \<open>The copy of a back-reference, a byte at a time because it may overlap its own source.\<close>

fun copy_back :: "nat \<Rightarrow> nat \<Rightarrow> bytes \<Rightarrow> bytes option" where
  "copy_back from 0 out = Some out"
| "copy_back from (Suc n) out = do { b \<leftarrow> get out from; copy_back (from + 1) n (out @ [b]) }"

datatype step = Stop bool | More

text \<open>One turn of the loop of \<^verbatim>\<open>coded_block\<close>.\<close>

definition back_reference :: "huffman \<Rightarrow> nat \<Rightarrow> stream \<Rightarrow> (step \<times> stream) option" where
  "back_reference dist len_sym s = do {
     base \<leftarrow> get len_base len_sym;
     extra \<leftarrow> get len_extra len_sym;
     let (b, s) = bits extra s;
     let len = base + b;
     (ds, s) \<leftarrow> decode dist s;
     (case ds of
        None \<Rightarrow> Some (Stop False, s)
      | Some dist_sym \<Rightarrow>
          if dist_sym \<ge> 30 then Some (Stop False, s)
          else do {
            dbase \<leftarrow> get dist_base dist_sym;
            dextra \<leftarrow> get dist_extra dist_sym;
            let (b, s) = bits dextra s;
            let distance = dbase + b;
            if failed s then Some (Stop False, s)
            else if distance > length (st_out s) then Some (Stop False, s)
            else if length (st_out s) + len > out_cap s then Some (Stop False, s)
            else do {
              out \<leftarrow> copy_back (length (st_out s) - distance) len (st_out s);
              Some (More, s\<lparr>st_out := out\<rparr>) }}) }"

definition coded_step :: "huffman \<Rightarrow> huffman \<Rightarrow> stream \<Rightarrow> (step \<times> stream) option" where
  "coded_step lit dist s = do {
     (sy, s) \<leftarrow> decode lit s;
     (case sy of
        None \<Rightarrow> Some (Stop False, s)
      | Some symbol \<Rightarrow>
          if symbol < 256 then
            (if length (st_out s) \<ge> out_cap s then Some (Stop False, s)
             else Some (More, s\<lparr>st_out := st_out s @ [of_nat symbol]\<rparr>))
          else if symbol = 256 then Some (Stop True, s)
          else if symbol - 257 \<ge> 29 then Some (Stop False, s)
          else back_reference dist (symbol - 257) s) }"

section \<open>What the bit reader leaves alone\<close>

definition bits_left :: "stream \<Rightarrow> nat" where
  "bits_left s = 8 * (length (st_in s) - in_at s) + bitcount s"

text \<open>The input, the output and the capacity stay, and no bit is read twice.\<close>

definition reads :: "stream \<Rightarrow> stream \<Rightarrow> bool" where
  "reads s s' \<longleftrightarrow> st_in s' = st_in s \<and> st_out s' = st_out s \<and> out_cap s' = out_cap s
     \<and> bits_left s' \<le> bits_left s \<and> (failed s \<longrightarrow> failed s')"

lemma reads_refl [simp]: "reads s s"
  by (simp add: reads_def)

lemma reads_trans: "reads s t \<Longrightarrow> reads t u \<Longrightarrow> reads s u"
  by (auto simp: reads_def)

lemma reads_fields [frame_simps]:
  assumes "reads s s'"
  shows "st_in s' = st_in s" "st_out s' = st_out s" "out_cap s' = out_cap s"
  using assms by (simp_all add: reads_def)

lemma reads_take_byte: "in_at s < length (st_in s) \<Longrightarrow> reads s (take_byte s)"
  by (simp add: reads_def take_byte_def bits_left_def)

lemma reads_fill_bits: "reads s (fill_bits need s)"
proof (induction need s rule: fill_bits.induct)
  case (1 need s)
  show ?case
  proof (cases "bitcount s < need \<and> in_at s < length (st_in s)")
    case True
    then have "reads (take_byte s) (fill_bits need (take_byte s))" by (intro 1) simp_all
    then show ?thesis using True reads_trans [OF reads_take_byte] by (subst fill_bits.simps) auto
  qed (subst fill_bits.simps, auto simp: reads_def bits_left_def)
qed

lemma reads_bits: "bits need s = (v, s') \<Longrightarrow> reads s s'"
  using reads_fill_bits [of s need]
  by (auto simp: bits_def Let_def reads_def bits_left_def split: if_splits)

lemma bits_progress:
  assumes "bits need s = (v, s')" "\<not> failed s'"
  shows "bits_left s' + need \<le> bits_left s"
proof -
  have f: "bitcount (fill_bits need s) < need \<longrightarrow> failed (fill_bits need s)"
    by (induction need s rule: fill_bits.induct) (subst (1 2) fill_bits.simps, auto)
  then show ?thesis using assms reads_fill_bits [of s need]
    by (auto simp: bits_def Let_def reads_def bits_left_def split: if_splits)
qed

lemma reads_top_up: "reads s (top_up s)"
proof (induction s rule: top_up.induct)
  case (1 s)
  show ?case
  proof (cases "bitcount s < FAST_BITS \<and> in_at s < length (st_in s)")
    case True
    then show ?thesis using 1 reads_trans [OF reads_take_byte] by (subst top_up.simps) auto
  qed (subst top_up.simps, auto)
qed

lemma reads_walk_code: "walk_code syms code first index cs s = Some (r, s') \<Longrightarrow> reads s s'"
proof (induction syms code first index cs s rule: walk_code.induct)
  case (2 syms code first index c cs s)
  obtain b t where t: "bits 1 s = (b, t)" by (cases "bits 1 s")
  then show ?case using 2 reads_bits [OF t] reads_trans
    by (auto simp: Let_def bind_eq_Some_conv split: if_splits)
qed simp

lemma reads_consume: "reads s (s\<lparr>bitbuf := x, bitcount := bitcount s - n\<rparr>)"
  by (simp add: reads_def bits_left_def)

lemma reads_decode:
  assumes "decode h s = Some (r, s')"
  shows "reads s s'"
proof (rule reads_trans [OF reads_top_up])
  show "reads (top_up s) s'"
    using assms reads_consume [of "top_up s"] reads_walk_code
    by (auto simp: decode_def decode_slow_def Let_def bind_eq_Some_conv split: if_splits)
qed

section \<open>The loops\<close>

lemma copy_back_length: "copy_back p n out = Some out' \<Longrightarrow> length out' = length out + n"
  by (induction p n out rule: copy_back.induct) (auto simp: bind_eq_Some_conv)

lemma len_base_ge: "get len_base i = Some b \<Longrightarrow> 3 \<le> b"
  by (auto simp: get_def len_base_def nth_Cons split: nat.splits if_splits)

text \<open>A turn of the loop only consumes input, and one that goes on has added to the output.\<close>

definition turn :: "stream \<Rightarrow> step \<Rightarrow> stream \<Rightarrow> bool" where
  "turn s r s' \<longleftrightarrow> st_in s' = st_in s \<and> out_cap s' = out_cap s \<and> bits_left s' \<le> bits_left s
     \<and> (failed s \<longrightarrow> failed s')
     \<and> (case r of Stop ok \<Rightarrow> st_out s' = st_out s
        | More \<Rightarrow> length (st_out s) < length (st_out s') \<and> length (st_out s') \<le> out_cap s)"

lemma turn_Stop: "reads s s' \<Longrightarrow> turn s (Stop ok) s'"
  by (simp add: turn_def reads_def)

lemma turn_More:
  "reads s s' \<Longrightarrow> length (st_out s) < length out \<Longrightarrow> length out \<le> out_cap s \<Longrightarrow> turn s More (s'\<lparr>st_out := out\<rparr>)"
  by (auto simp: turn_def reads_def bits_left_def)

lemma back_reference_turn:
  assumes "back_reference dist ls s = Some (r, s')"
  shows "turn s r s'"
proof -
  obtain base extra b1 s1 where 1: "get len_base ls = Some base" "get len_extra ls = Some extra" "bits extra s = (b1, s1)"
    using assms by (auto simp: back_reference_def Let_def bind_eq_Some_conv) (metis surj_pair)
  then obtain ds s2 where 2: "decode dist s1 = Some (ds, s2)"
    using assms by (auto simp: back_reference_def Let_def bind_eq_Some_conv)
  have r12: "reads s s2" using reads_trans [OF reads_bits [OF 1(3)] reads_decode [OF 2]] .
  show ?thesis
  proof (cases "ds = None \<or> (\<exists>d. ds = Some d \<and> d \<ge> 30)")
    case True
    then have "r = Stop False" "s' = s2" using assms 1 2 by (auto simp: back_reference_def Let_def)
    then show ?thesis using turn_Stop [OF r12] by simp
  next
    case False
    then obtain d where d: "ds = Some d" "d < 30" by auto
    then obtain dbase dextra b3 s3 where 3: "get dist_base d = Some dbase" "get dist_extra d = Some dextra"
      "bits dextra s2 = (b3, s3)"
      using assms 1 2 by (auto simp: back_reference_def Let_def bind_eq_Some_conv) (metis surj_pair)
    have r13: "reads s s3" by (rule reads_trans [OF r12 reads_bits [OF 3(3)]])
    consider "r = Stop False" "s' = s3" | out where "r = More" "s' = s3\<lparr>st_out := out\<rparr>"
      "copy_back (length (st_out s3) - (dbase + b3)) (base + b1) (st_out s3) = Some out"
      "length (st_out s3) + (base + b1) \<le> out_cap s3"
      using assms 1 2 3 d by (auto simp: back_reference_def Let_def bind_eq_Some_conv split: if_splits)
    then show ?thesis
    proof cases
      case 1
      then show ?thesis using turn_Stop [OF r13] by simp
    next
      case 2
      then show ?thesis using turn_More [OF r13, of out] copy_back_length [OF 2(3)] len_base_ge [OF 1(1)]
          reads_fields [OF r13] by simp
    qed
  qed
qed

lemma coded_step_turn:
  assumes "coded_step lit dist s = Some (r, s')"
  shows "turn s r s'"
proof -
  obtain sy t where t: "decode lit s = Some (sy, t)"
    using assms by (auto simp: coded_step_def bind_eq_Some_conv)
  note rt = reads_decode [OF t]
  show ?thesis
  proof (cases "\<exists>v. sy = Some v \<and> 256 < v \<and> v - 257 < 29")
    case True
    then obtain v where "sy = Some v" "256 < v" "v - 257 < 29" by auto
    then have "turn t r s'" using assms t back_reference_turn by (auto simp: coded_step_def)
    then show ?thesis using rt by (cases r) (auto simp: turn_def reads_def)
  next
    case False
    then show ?thesis using assms t rt turn_Stop [OF rt] turn_More [OF rt] reads_fields [OF rt]
      by (auto simp: coded_step_def split: option.splits if_splits)
  qed
qed

function coded_block :: "huffman \<Rightarrow> huffman \<Rightarrow> stream \<Rightarrow> (bool \<times> stream) option" where
  "coded_block lit dist s =
     (case coded_step lit dist s of
        None \<Rightarrow> None
      | Some (Stop ok, s) \<Rightarrow> Some (ok, s)
      | Some (More, s) \<Rightarrow> coded_block lit dist s)"
  by pat_completeness auto
termination
  by (relation "measure (\<lambda>(lit, dist, s). out_cap s - length (st_out s))")
    (auto dest!: coded_step_turn simp: turn_def)

declare coded_block.simps [simp del]

text \<open>Reading a block consumes input, and its output stays within the capacity.\<close>

definition advances :: "stream \<Rightarrow> stream \<Rightarrow> bool" where
  "advances s s' \<longleftrightarrow> st_in s' = st_in s \<and> out_cap s' = out_cap s \<and> bits_left s' \<le> bits_left s
     \<and> (failed s \<longrightarrow> failed s') \<and> (length (st_out s) \<le> out_cap s \<longrightarrow> length (st_out s') \<le> out_cap s)"

lemma advances_trans: "advances s t \<Longrightarrow> advances t u \<Longrightarrow> advances s u"
  by (auto simp: advances_def)

lemma advances_reads: "reads s s' \<Longrightarrow> advances s s'"
  by (simp add: advances_def reads_def)

lemma advances_turn: "turn s r s' \<Longrightarrow> advances s s'"
  by (cases r) (auto simp: turn_def advances_def)

lemma advances_coded: "coded_block lit dist s = Some (ok, s') \<Longrightarrow> advances s s'"
proof (induction lit dist s rule: coded_block.induct)
  case (1 lit dist s)
  from 1(2) obtain r t where t: "coded_step lit dist s = Some (r, t)"
    by (subst (asm) coded_block.simps) (auto split: option.splits)
  note at = advances_turn [OF coded_step_turn [OF t]]
  show ?case
  proof (cases r)
    case (Stop ok')
    then have "s' = t" using 1(2) t by (subst (asm) coded_block.simps) simp
    then show ?thesis using at by simp
  next
    case More
    then have "coded_block lit dist t = Some (ok, s')" using 1(2) t by (subst (asm) coded_block.simps) simp
    then show ?thesis using 1(1) [OF t refl] More advances_trans [OF at] by simp
  qed
qed

section \<open>The codes of a block\<close>

text \<open>The pair of static codes \<^verbatim>\<open>g_lit\<close> and \<^verbatim>\<open>g_dist\<close>.\<close>

type_synonym codes = "huffman \<times> huffman"

definition fixed_lit_lengths :: "nat list" where
  "fixed_lit_lengths = replicate 144 8 @ replicate 112 9 @ replicate 24 7 @ replicate 8 8"

definition fixed_codes :: "codes \<Rightarrow> (bool \<times> codes) option" where
  "fixed_codes c = do {
     (ok, lit) \<leftarrow> build (fst c) fixed_lit_lengths;
     if \<not> ok then Some (False, (lit, snd c))
     else do {
       (ok, dist) \<leftarrow> build (snd c) (replicate 30 5);
       Some (ok, (lit, dist)) }}"

definition length_order :: "nat list" where
  "length_order = [16, 17, 18, 0, 8, 7, 9, 6, 10, 5, 11, 4, 12, 3, 13, 2, 14, 1, 15]"

fun read_code_lengths :: "nat list \<Rightarrow> nat list \<Rightarrow> stream \<Rightarrow> nat list \<times> stream" where
  "read_code_lengths lens [] s = (lens, s)"
| "read_code_lengths lens (at # ats) s =
     (let (v, s) = bits 3 s in read_code_lengths (lens[at := v]) ats s)"

text \<open>
  One turn of the loop that reads the lengths of the two codes: the symbol, and for the three that
  repeat, what and how often. \<open>None\<close> inside is the error return.
\<close>

definition length_step :: "huffman \<Rightarrow> nat list \<Rightarrow> stream \<Rightarrow> (nat list option \<times> stream) option" where
  "length_step cl lens s = do {
     (sy, s) \<leftarrow> decode cl s;
     (case sy of
        None \<Rightarrow> Some (None, s)
      | Some v \<Rightarrow>
          if v < 16 then Some (Some [v], s)
          else if v = 16 then
            (if lens = [] then Some (None, s)
             else let (b, s) = bits 2 s in Some (Some (replicate (3 + b) (last lens)), s))
          else if v = 17 then (let (b, s) = bits 3 s in Some (Some (replicate (3 + b) 0), s))
          else (let (b, s) = bits 7 s in Some (Some (replicate (11 + b) 0), s))) }"

lemma length_step_nonempty:
  assumes "length_step cl lens s = Some (Some xs, s')"
  shows "0 < length xs"
proof -
  obtain v t where t: "decode cl s = Some (Some v, t)"
    using assms by (cases "decode cl s") (auto simp: length_step_def split: option.splits)
  obtain b2 t2 b3 t3 b7 t7 where "bits 2 t = (b2, t2)" "bits 3 t = (b3, t3)" "bits 7 t = (b7, t7)"
    by (metis surj_pair)
  then show ?thesis using assms t by (simp add: length_step_def split: if_splits) auto
qed

function read_lengths :: "huffman \<Rightarrow> nat \<Rightarrow> nat list \<Rightarrow> stream \<Rightarrow> (nat list option \<times> stream) option" where
  "read_lengths cl n lens s =
     (if length lens \<ge> n then Some (Some lens, s)
      else (case length_step cl lens s of
          None \<Rightarrow> None
        | Some (None, s) \<Rightarrow> Some (None, s)
        | Some (Some xs, s) \<Rightarrow>
            if length xs \<noteq> 1 \<and> failed s \<or> length lens + length xs > n then Some (None, s)
            else read_lengths cl n (lens @ xs) s))"
  by pat_completeness auto
termination
  by (relation "measure (\<lambda>(cl, n, lens, s). n - length lens)")
    (auto dest!: length_step_nonempty intro!: diff_less_mono2)

declare read_lengths.simps [simp del]

definition empty_code :: huffman where
  "empty_code = \<lparr>h_count = replicate 16 0, h_symbol = replicate 288 0, h_fast = replicate 512 0\<rparr>"

text \<open>
  The code for the code lengths is a local variable: its symbol table starts out undefined, but only
  the entries \<^verbatim>\<open>build\<close> has written are ever read; it starts out as zeros here.
\<close>

definition dynamic_codes :: "codes \<Rightarrow> stream \<Rightarrow> (bool \<times> codes \<times> stream) option" where
  "dynamic_codes c s =
     (let (a, s) = bits 5 s; (b, s) = bits 5 s; (d, s) = bits 4 s;
          nlit = a + 257; ndist = b + 1; ncode = d + 4
      in if failed s \<or> nlit > 286 \<or> ndist > 30 then Some (False, c, s)
         else let (lens, s) = read_code_lengths (replicate 19 0) (take ncode length_order) s in
           if failed s then Some (False, c, s)
           else do {
             (ok, cl) \<leftarrow> build empty_code lens;
             if \<not> ok then Some (False, c, s)
             else do {
               (r, s) \<leftarrow> read_lengths cl (nlit + ndist) [] s;
               (case r of
                  None \<Rightarrow> Some (False, c, s)
                | Some lens \<Rightarrow> do {
                    eob \<leftarrow> get lens 256;
                    if eob = 0 then Some (False, c, s)
                    else do {
                      (ok, lit) \<leftarrow> build (fst c) (take nlit lens);
                      if \<not> ok then Some (False, (lit, snd c), s)
                      else do {
                        (_, dist) \<leftarrow> build (snd c) (drop nlit lens);
                        Some (True, (lit, dist), s) }}}) }})"

section \<open>The stream\<close>

definition inflate_block :: "nat \<Rightarrow> codes \<Rightarrow> stream \<Rightarrow> (bool \<times> codes \<times> stream) option" where
  "inflate_block t c s =
     (if t = 0 then (let (ok, s) = stored_block s in Some (ok, c, s))
      else if t = 1 then do {
        (ok, c) \<leftarrow> fixed_codes c;
        if \<not> ok then Some (False, c, s)
        else do { (ok, s) \<leftarrow> coded_block (fst c) (snd c) s; Some (ok, c, s) }}
      else if t = 2 then do {
        (ok, c, s) \<leftarrow> dynamic_codes c s;
        if \<not> ok then Some (False, c, s)
        else do { (ok, s) \<leftarrow> coded_block (fst c) (snd c) s; Some (ok, c, s) }}
      else Some (False, c, s))"

lemma advances_stored: "stored_block s = (ok, s') \<Longrightarrow> advances s s'"
  by (auto simp: stored_block_def Let_def advances_def bits_left_def split: if_splits)

lemma reads_code_lengths: "read_code_lengths lens ats s = (l, s') \<Longrightarrow> reads s s'"
proof (induction lens ats s rule: read_code_lengths.induct)
  case (2 lens at ats s)
  obtain v t where t: "bits 3 s = (v, t)" by (cases "bits 3 s")
  then show ?case using 2 reads_trans [OF reads_bits [OF t]] by simp
qed simp

lemma reads_length_step:
  assumes "length_step cl lens s = Some (r, s')"
  shows "reads s s'"
proof -
  obtain v t where t: "decode cl s = Some (v, t)"
    using assms by (cases "decode cl s") (auto simp: length_step_def)
  obtain b2 t2 b3 t3 b7 t7 where b: "bits 2 t = (b2, t2)" "bits 3 t = (b3, t3)" "bits 7 t = (b7, t7)"
    by (metis surj_pair)
  have "s' \<in> {t, t2, t3, t7}" using assms t b by (auto simp: length_step_def split: option.splits if_splits)
  then show ?thesis using reads_decode [OF t] b [THEN reads_bits] reads_trans by blast
qed

lemma reads_read_lengths: "read_lengths cl n lens s = Some (r, s') \<Longrightarrow> reads s s'"
proof (induction cl n lens s rule: read_lengths.induct)
  case (1 cl n lens s)
  show ?case
  proof (cases "length lens \<ge> n")
    case True
    then show ?thesis using 1(2) by (subst (asm) read_lengths.simps) simp
  next
    case False
    with 1(2) obtain x t where t: "length_step cl lens s = Some (x, t)"
      by (subst (asm) read_lengths.simps) (auto split: option.splits)
    note rt = reads_length_step [OF t]
    consider "s' = t" | xs where "x = Some xs" "read_lengths cl n (lens @ xs) t = Some (r, s')"
      "\<not> (length xs \<noteq> 1 \<and> failed t \<or> length lens + length xs > n)"
      using 1(2) False t by (subst (asm) read_lengths.simps) (auto split: option.splits if_splits)
    then show ?thesis
    proof cases
      case 2
      then show ?thesis using 1(1) [OF False t _ 2(1)] rt reads_trans by blast
    qed (simp add: rt)
  qed
qed

lemma reads_dynamic:
  assumes "dynamic_codes c s = Some (ok, c', s')"
  shows "reads s s'"
proof -
  obtain a s1 b s2 d s3 where b: "bits 5 s = (a, s1)" "bits 5 s1 = (b, s2)" "bits 4 s2 = (d, s3)"
    by (metis surj_pair)
  obtain lens s4 where l: "read_code_lengths (replicate 19 0) (take (d + 4) length_order) s3 = (lens, s4)"
    by (metis surj_pair)
  have r3: "reads s s3" using b [THEN reads_bits] reads_trans by blast
  have r4: "reads s s4" using r3 reads_code_lengths [OF l] by (rule reads_trans)
  consider "s' = s3" | "s' = s4" | cl r where "read_lengths cl (a + 257 + (b + 1)) [] s4 = Some (r, s')"
    using assms b l by (auto simp: dynamic_codes_def bind_eq_Some_conv Let_def split: if_splits option.splits)
  then show ?thesis using r3 r4 reads_read_lengths reads_trans by cases blast+
qed

lemma inflate_block_fixed:
  "inflate_block (Suc 0) c s = do {
     (ok, c) \<leftarrow> fixed_codes c;
     if \<not> ok then Some (False, c, s)
     else do { (ok, s) \<leftarrow> coded_block (fst c) (snd c) s; Some (ok, c, s) }}"
  by (simp add: inflate_block_def)

lemma inflate_block_dynamic:
  "inflate_block 2 c s = do {
     (ok, c, s) \<leftarrow> dynamic_codes c s;
     if \<not> ok then Some (False, c, s)
     else do { (ok, s) \<leftarrow> coded_block (fst c) (snd c) s; Some (ok, c, s) }}"
  by (simp add: inflate_block_def)

lemma advances_block:
  assumes "inflate_block t c s = Some (ok, c', s')"
  shows "advances s s'"
proof -
  consider "t = 0" | "t = 1" | "t = 2" | "t \<noteq> 0" "t \<noteq> 1" "t \<noteq> 2" by auto
  then show ?thesis
  proof cases
    case 1
    obtain ok1 s1 where "stored_block s = (ok1, s1)" by (cases "stored_block s")
    then show ?thesis using assms 1 advances_stored by (simp add: inflate_block_def)
  next
    case 2
    obtain ok1 c1 where "fixed_codes c = Some (ok1, c1)"
      using assms 2 by (cases "fixed_codes c") (auto simp: inflate_block_fixed)
    then show ?thesis using assms 2 advances_coded advances_reads [OF reads_refl, of s]
      by (cases ok1; cases "coded_block (fst c1) (snd c1) s") (auto simp: inflate_block_fixed)
  next
    case 3
    obtain ok1 c1 s1 where d: "dynamic_codes c s = Some (ok1, c1, s1)"
      using assms 3 by (cases "dynamic_codes c s") (auto simp: inflate_block_dynamic)
    note a = advances_reads [OF reads_dynamic [OF d]]
    then show ?thesis using assms 3 d advances_trans [OF a advances_coded]
      by (cases ok1; cases "coded_block (fst c1) (snd c1) s1") (auto simp: inflate_block_dynamic)
  next
    case 4
    then show ?thesis using assms advances_reads [OF reads_refl] by (simp add: inflate_block_def)
  qed
qed

text \<open>
  The blocks up to the final one. The two static codes outlive a call, so what an earlier stream left
  in them is an argument of the next.
\<close>

function inflate_blocks :: "codes \<Rightarrow> stream \<Rightarrow> (bytes option \<times> codes) option" where
  "inflate_blocks c s =
     (case bits 1 s of (final, s1) \<Rightarrow>
      case bits 2 s1 of (t, s2) \<Rightarrow>
      if failed s2 then Some (None, c)
      else (case inflate_block t c s2 of
          None \<Rightarrow> None
        | Some (ok, c, s3) \<Rightarrow>
            if \<not> ok \<or> failed s3 then Some (None, c)
            else if final \<noteq> 0 then Some (Some (st_out s3), c)
            else inflate_blocks c s3))"
  by pat_completeness auto
termination
proof (relation "measure (\<lambda>(c, s). bits_left s)")
  fix c s final s1 t s2 c' s3 r r' r'' ok
  assume a: "(final, s1) = bits 1 s" "(t, s2) = bits 2 s1" "\<not> failed s2"
    "inflate_block t c s2 = Some r" "(ok, r') = r" "(c', s3) = r'"
  then have "advances s2 s3" by (intro advances_block) auto
  then show "((c', s3), (c, s)) \<in> measure (\<lambda>(c, s). bits_left s)"
    using bits_progress [OF a(1) [symmetric]] bits_progress [OF a(2) [symmetric]]
      reads_bits [OF a(2) [symmetric]] a(3)
    by (auto simp: advances_def reads_def)
qed simp

declare inflate_blocks.simps [simp del]

definition inflate_raw :: "codes \<Rightarrow> bytes \<Rightarrow> nat \<Rightarrow> (bytes option \<times> codes) option" where
  "inflate_raw c input cap =
     inflate_blocks c
       \<lparr>st_in = input, in_at = 0, bitbuf = 0, bitcount = 0, st_out = [], out_cap = cap, failed = False\<rparr>"

section \<open>The zlib wrapper\<close>

fun adler_sums :: "nat \<Rightarrow> nat \<Rightarrow> bytes \<Rightarrow> nat \<times> nat" where
  "adler_sums a b [] = (a, b)"
| "adler_sums a b (x # xs) =
     (let a = a + unat x;
          a = (if a \<ge> 65521 then a - 65521 else a);
          b = b + a;
          b = (if b \<ge> 65521 then b - 65521 else b)
      in adler_sums a b xs)"

definition adler32_of :: "bytes \<Rightarrow> nat" where
  "adler32_of xs = (let (a, b) = adler_sums 1 0 xs in push_bit 16 b OR a)"

definition be32_at :: "bytes \<Rightarrow> nat \<Rightarrow> nat" where
  "be32_at p i = push_bit 24 (unat (byte_at p i)) OR push_bit 16 (unat (byte_at p (i + 1)))
     OR push_bit 8 (unat (byte_at p (i + 2))) OR unat (byte_at p (i + 3))"

definition inflate_zlib :: "codes \<Rightarrow> bytes \<Rightarrow> nat \<Rightarrow> (bytes option \<times> codes) option" where
  "inflate_zlib c input cap =
     (let n = length input; cmf = unat (byte_at input 0); flg = unat (byte_at input 1) in
      if n < 6 then Some (None, c)
      else if cmf AND 0x0F \<noteq> 8 then Some (None, c)
      else if drop_bit 4 cmf > 7 then Some (None, c)
      else if (push_bit 8 cmf OR flg) mod 31 \<noteq> 0 then Some (None, c)
      else if flg AND 0x20 \<noteq> 0 then Some (None, c)
      else do {
        (r, c) \<leftarrow> inflate_raw c (drop 2 input) cap;
        (case r of
           None \<Rightarrow> Some (None, c)
         | Some out \<Rightarrow>
             if adler32_of out \<noteq> be32_at input (n - 4) then Some (None, c) else Some (Some out, c)) })"

section \<open>The gzip wrapper\<close>

text \<open>The table is the same whenever it is built, so it is a constant of the model.\<close>

definition crc_shift :: "nat \<Rightarrow> nat" where
  "crc_shift c = (if c AND 1 \<noteq> 0 then 0xEDB88320 XOR drop_bit 1 c else drop_bit 1 c)"

definition crc_table :: "nat list" where
  "crc_table = map (\<lambda>n. (crc_shift ^^ 8) n) [0 ..< 256]"

definition crc_update :: "byte \<Rightarrow> nat \<Rightarrow> nat" where
  "crc_update x c = crc_table ! ((c XOR unat x) AND 0xFF) XOR drop_bit 8 c"

definition crc32_of :: "bytes \<Rightarrow> nat" where
  "crc32_of xs = (fold crc_update xs 0xFFFFFFFF XOR 0xFFFFFFFF) AND 0xFFFFFFFF"

text \<open>\<^verbatim>\<open>while (at < in_len && in[at] != 0) ++at; ++at;\<close>\<close>

definition skip_string :: "bytes \<Rightarrow> nat \<Rightarrow> nat" where
  "skip_string input at = at + length (takeWhile (\<lambda>x. x \<noteq> 0) (drop at input)) + 1"

definition gzip_body :: "bytes \<Rightarrow> nat" where
  "gzip_body input =
     (let n = length input in
      if n < 18 \<or> byte_at input 0 \<noteq> 0x1F \<or> byte_at input 1 \<noteq> 0x8B \<or> byte_at input 2 \<noteq> 8 then 0
      else
        let flags = unat (byte_at input 3);
            at = 10;
            at = (if flags AND 0x04 \<noteq> 0
                  then at + (2 + (unat (byte_at input at) OR push_bit 8 (unat (byte_at input (at + 1))))) else at);
            at = (if flags AND 0x08 \<noteq> 0 then skip_string input at else at);
            at = (if flags AND 0x10 \<noteq> 0 then skip_string input at else at);
            at = (if flags AND 0x02 \<noteq> 0 then at + 2 else at)
        in if at + 8 > n then 0 else at)"

definition le32_at :: "bytes \<Rightarrow> nat \<Rightarrow> nat" where
  "le32_at p i = unat (byte_at p i) OR push_bit 8 (unat (byte_at p (i + 1)))
     OR push_bit 16 (unat (byte_at p (i + 2))) OR push_bit 24 (unat (byte_at p (i + 3)))"

definition inflate_gzip_size :: "bytes \<Rightarrow> nat option" where
  "inflate_gzip_size input = (if gzip_body input = 0 then None else Some (le32_at input (length input - 4)))"

definition inflate_gzip :: "codes \<Rightarrow> bytes \<Rightarrow> nat \<Rightarrow> (bytes option \<times> codes) option" where
  "inflate_gzip c input cap =
     (let body = gzip_body input; n = length input in
      if body = 0 then Some (None, c)
      else do {
        (r, c) \<leftarrow> inflate_raw c (take (n - body - 8) (drop body input)) cap;
        (case r of
           None \<Rightarrow> Some (None, c)
         | Some out \<Rightarrow>
             if length out mod 2 ^ 32 \<noteq> le32_at input (n - 4) then Some (None, c)
             else if crc32_of out \<noteq> le32_at input (n - 8) then Some (None, c)
             else Some (Some out, c)) })"

end
