(* ===== verification/Libc_Image.thy ===== *)
theory Libc_Image
  imports Libc_Inflate
begin

text \<open>
  \<^verbatim>\<open>user/libc/image.c\<close>: the PNG and GIF writers, which encode into a growable buffer and write it
  out in one piece, and the PNG reader. A file is the list of its bytes. Whether \<^verbatim>\<open>malloc\<close> can find a
  number of bytes is the argument \<open>mem\<close>; an access outside an object is \<open>None\<close>, a failure the
  program reports is the inner \<open>None\<close>. Pixels are 32-bit words, \<^verbatim>\<open>0xAARRGGBB\<close>.
\<close>

type_synonym pixel = "32 word"

section \<open>The output buffer\<close>

text \<open>\<open>ob_data\<close> is \<^verbatim>\<open>g_out\<close> up to \<^verbatim>\<open>g_len\<close>.\<close>

record outbuf =
  ob_data :: bytes
  ob_cap :: nat
  ob_full :: bool

definition reserve :: "(nat \<Rightarrow> bool) \<Rightarrow> nat \<Rightarrow> outbuf \<Rightarrow> outbuf" where
  "reserve mem n ob =
     (let ob = ob\<lparr>ob_data := [], ob_full := False\<rparr> in
      if n \<le> ob_cap ob then ob
      else if \<not> mem n then ob\<lparr>ob_full := True\<rparr>
      else ob\<lparr>ob_cap := n\<rparr>)"

definition put :: "(nat \<Rightarrow> bool) \<Rightarrow> byte \<Rightarrow> outbuf \<Rightarrow> outbuf" where
  "put mem b ob =
     (if length (ob_data ob) \<ge> ob_cap ob then
        let bigger = (if ob_cap ob \<noteq> 0 then u64 (ob_cap ob * 2) else 65536) in
        if \<not> mem bigger then ob\<lparr>ob_full := True\<rparr>
        else ob\<lparr>ob_cap := bigger, ob_data := ob_data ob @ [b]\<rparr>
      else ob\<lparr>ob_data := ob_data ob @ [b]\<rparr>)"

definition put_all :: "(nat \<Rightarrow> bool) \<Rightarrow> bytes \<Rightarrow> outbuf \<Rightarrow> outbuf" where
  "put_all mem bs ob = fold (put mem) bs ob"

definition be32_bytes :: "nat \<Rightarrow> bytes" where
  "be32_bytes v = [of_nat (drop_bit 24 v), of_nat (drop_bit 16 v), of_nat (drop_bit 8 v), of_nat v]"

definition put_be32 :: "(nat \<Rightarrow> bool) \<Rightarrow> nat \<Rightarrow> outbuf \<Rightarrow> outbuf" where
  "put_be32 mem v ob = put_all mem (be32_bytes v) ob"

text \<open>What \<^verbatim>\<open>flush\<close> hands to the file in its single \<^verbatim>\<open>write\<close>.\<close>

definition flush :: "outbuf \<Rightarrow> bytes option" where
  "flush ob = (if ob_full ob \<or> ob_cap ob = 0 then None else Some (ob_data ob))"

section \<open>Writing a PNG\<close>

definition begin_chunk :: "(nat \<Rightarrow> bool) \<Rightarrow> bytes \<Rightarrow> outbuf \<Rightarrow> nat \<times> outbuf" where
  "begin_chunk mem type ob =
     (let ob = put_all mem [0, 0, 0, 0] ob; ob = put_all mem type ob in (length (ob_data ob), ob))"

text \<open>The length goes in eight bytes before the data; there is no such place in a buffer without room.\<close>

definition chunk :: "(nat \<Rightarrow> bool) \<Rightarrow> nat \<Rightarrow> outbuf \<Rightarrow> outbuf option" where
  "chunk mem data_start ob =
     (if data_start < 8 \<or> length (ob_data ob) < data_start then None
      else let data_len = length (ob_data ob) - data_start;
               lenpos = data_start - 8;
               ob = ob\<lparr>ob_data := overlay (ob_data ob) lenpos (be32_bytes data_len)\<rparr>
           in Some (put_be32 mem (crc32_of (slice (ob_data ob) (lenpos + 4) (data_len + 4))) ob))"

definition png_sig :: bytes where
  "png_sig = [137, 80, 78, 71, 13, 10, 26, 10]"

abbreviation IHDR :: bytes where "IHDR \<equiv> [73, 72, 68, 82]"
abbreviation IDAT :: bytes where "IDAT \<equiv> [73, 68, 65, 84]"
abbreviation IEND :: bytes where "IEND \<equiv> [73, 69, 78, 68]"
abbreviation PLTE :: bytes where "PLTE \<equiv> [80, 76, 84, 69]"
abbreviation tRNS :: bytes where "tRNS \<equiv> [116, 82, 78, 83]"

text \<open>The counters the scanline loop carries, and the two sums of the checksum.\<close>

record scan =
  sc_row :: nat
  sc_col :: nat
  sc_ch :: nat
  wrote_filter :: bool
  sum_a :: nat
  sum_b :: nat

definition sample :: "nat \<Rightarrow> pixel \<Rightarrow> byte" where
  "sample ch p = ucast (if ch = 0 then drop_bit 16 p else if ch = 1 then drop_bit 8 p else p)"

definition scan_byte :: "pixel list \<Rightarrow> nat \<Rightarrow> scan \<Rightarrow> (byte \<times> scan) option" where
  "scan_byte px width sc =
     (if \<not> wrote_filter sc then Some (0, sc\<lparr>wrote_filter := True, sc_ch := 0\<rparr>)
      else do {
        p \<leftarrow> get px (sc_row sc * width + sc_col sc);
        let b = sample (sc_ch sc) p;
        let sc = sc\<lparr>sc_ch := sc_ch sc + 1\<rparr>;
        if sc_ch sc = 3 then
          let sc = sc\<lparr>sc_ch := 0, sc_col := sc_col sc + 1\<rparr> in
          if sc_col sc = width then Some (b, sc\<lparr>sc_col := 0, sc_row := sc_row sc + 1, wrote_filter := False\<rparr>)
          else Some (b, sc)
        else Some (b, sc) })"

definition add_sums :: "byte \<Rightarrow> scan \<Rightarrow> scan" where
  "add_sums b sc =
     (let a = (sum_a sc + unat b) mod 65521 in sc\<lparr>sum_a := a, sum_b := (sum_b sc + a) mod 65521\<rparr>)"

fun scan_bytes :: "(nat \<Rightarrow> bool) \<Rightarrow> pixel list \<Rightarrow> nat \<Rightarrow> nat \<Rightarrow> scan \<Rightarrow> outbuf \<Rightarrow> (scan \<times> outbuf) option" where
  "scan_bytes mem px width 0 sc ob = Some (sc, ob)"
| "scan_bytes mem px width (Suc n) sc ob = do {
     (b, sc) \<leftarrow> scan_byte px width sc;
     scan_bytes mem px width n (add_sums b sc) (put mem b ob) }"

definition block_head :: "bool \<Rightarrow> nat \<Rightarrow> bytes" where
  "block_head final block =
     [if final then 1 else 0, of_nat (block AND 0xFF), of_nat (drop_bit 8 block),
      of_nat ((0xFFFFFFFF - block) AND 0xFF), of_nat (drop_bit 8 (0xFFFFFFFF - block) AND 0xFF)]"

function put_blocks :: "(nat \<Rightarrow> bool) \<Rightarrow> pixel list \<Rightarrow> nat \<Rightarrow> nat \<Rightarrow> nat \<Rightarrow> scan \<Rightarrow> outbuf \<Rightarrow> (scan \<times> outbuf) option" where
  "put_blocks mem px width raw_total pos sc ob =
     (if pos < raw_total then
        let left = raw_total - pos;
            block = (if left > 65535 then 65535 else left);
            final = (pos + block = raw_total)
        in (case scan_bytes mem px width block sc (put_all mem (block_head final block) ob) of
              None \<Rightarrow> None
            | Some (sc, ob) \<Rightarrow> put_blocks mem px width raw_total (pos + block) sc ob)
      else Some (sc, ob))"
  by pat_completeness auto
termination by (relation "measure (\<lambda>(mem, px, width, raw_total, pos, sc, ob). raw_total - pos)") auto

declare put_blocks.simps [simp del]

definition img_write_png :: "(nat \<Rightarrow> bool) \<Rightarrow> outbuf \<Rightarrow> pixel list \<Rightarrow> nat \<Rightarrow> nat \<Rightarrow> bytes option option" where
  "img_write_png mem ob px width height =
     (if width = 0 \<or> height = 0 then Some None
      else do {
        let raw = u64 ((1 + width * 3) * height);
        let ob = reserve mem (u64 (raw + raw div 4096 + 4096)) ob;
        let ob = put_all mem png_sig ob;
        let (at, ob) = begin_chunk mem IHDR ob;
        let ob = put_be32 mem width ob;
        let ob = put_be32 mem height ob;
        let ob = put_all mem [8, 2, 0, 0, 0] ob;
        ob \<leftarrow> chunk mem at ob;
        let (at, ob) = begin_chunk mem IDAT ob;
        let ob = put_all mem [0x78, 0x01] ob;
        (sc, ob) \<leftarrow> put_blocks mem px width (u64 ((1 + width * 3) * height)) 0
          \<lparr>sc_row = 0, sc_col = 0, sc_ch = 0, wrote_filter = False, sum_a = 1, sum_b = 0\<rparr> ob;
        let ob = put_be32 mem (push_bit 16 (sum_b sc) OR sum_a sc) ob;
        ob \<leftarrow> chunk mem at ob;
        let (at, ob) = begin_chunk mem IEND ob;
        ob \<leftarrow> chunk mem at ob;
        Some (flush ob) })"

section \<open>Reading a PNG\<close>

definition at_byte :: "(nat \<Rightarrow> byte \<Rightarrow> bytes \<Rightarrow> byte) \<Rightarrow> nat \<Rightarrow> bytes \<Rightarrow> bytes" where
  "at_byte f i row = row[i := f i (row ! i) row]"

definition filter_sub :: "nat \<Rightarrow> nat \<Rightarrow> byte \<Rightarrow> bytes \<Rightarrow> byte" where
  "filter_sub bpp i x row = x + row ! (i - bpp)"

definition filter_up :: "bytes \<Rightarrow> nat \<Rightarrow> byte \<Rightarrow> bytes \<Rightarrow> byte" where
  "filter_up up i x row = x + up ! i"

definition left_of :: "nat \<Rightarrow> bytes \<Rightarrow> nat \<Rightarrow> nat" where
  "left_of bpp row i = (if i \<ge> bpp then unat (row ! (i - bpp)) else 0)"

definition above_of :: "bytes option \<Rightarrow> nat \<Rightarrow> nat" where
  "above_of up i = (case up of None \<Rightarrow> 0 | Some row \<Rightarrow> unat (row ! i))"

definition filter_average :: "bytes option \<Rightarrow> nat \<Rightarrow> nat \<Rightarrow> byte \<Rightarrow> bytes \<Rightarrow> byte" where
  "filter_average up bpp i x row = x + of_nat ((left_of bpp row i + above_of up i) div 2)"

definition paeth :: "int \<Rightarrow> int \<Rightarrow> int \<Rightarrow> int" where
  "paeth a b c =
     (let estimate = a + b - c;
          pa = estimate - a; pb = estimate - b; pc = estimate - c;
          pa = (if pa < 0 then - pa else pa);
          pb = (if pb < 0 then - pb else pb);
          pc = (if pc < 0 then - pc else pc)
      in if pa \<le> pb \<and> pa \<le> pc then a else if pb \<le> pc then b else c)"

definition filter_paeth :: "bytes option \<Rightarrow> nat \<Rightarrow> nat \<Rightarrow> byte \<Rightarrow> bytes \<Rightarrow> byte" where
  "filter_paeth up bpp i x row =
     (let c = (if i \<ge> bpp then above_of up (i - bpp) else 0) in
      x + of_int (paeth (int (left_of bpp row i)) (int (above_of up i)) (int c)))"

text \<open>Undo the filter of a row in place, from the left; \<open>up\<close> is the finished row above it.\<close>

definition unfilter :: "bytes \<Rightarrow> bytes option \<Rightarrow> nat \<Rightarrow> byte \<Rightarrow> bytes option" where
  "unfilter row up bpp flt =
     (let all = [0 ..< length row] in
      if flt = 0 then Some row
      else if flt = 1 then Some (fold (at_byte (filter_sub bpp)) [bpp ..< length row] row)
      else if flt = 2 then
        Some (case up of None \<Rightarrow> row | Some prev \<Rightarrow> fold (at_byte (filter_up prev)) all row)
      else if flt = 3 then Some (fold (at_byte (filter_average up bpp)) all row)
      else if flt = 4 then Some (fold (at_byte (filter_paeth up bpp)) all row)
      else None)"

text \<open>
  What the loop over the chunks collects. A later piece of the stream is moved up against the one
  before it, towards the front of the file's buffer and never over bytes still to be read, so the
  pieces are simply joined here.
\<close>

record png_info =
  pi_w :: nat
  pi_h :: nat
  pi_depth :: nat
  pi_colour :: nat
  pi_interlace :: nat
  pi_palette :: bytes
  pi_alpha :: bytes
  pi_idat :: "bytes option"

definition take_chunk :: "bytes \<Rightarrow> bytes \<Rightarrow> png_info \<Rightarrow> png_info" where
  "take_chunk type data p =
     (if type = IHDR \<and> length data \<ge> 13 then
        p\<lparr>pi_w := be32_at data 0, pi_h := be32_at data 4, pi_depth := unat (data ! 8),
          pi_colour := unat (data ! 9), pi_interlace := unat (data ! 12)\<rparr>
      else if type = PLTE then p\<lparr>pi_palette := take 768 data\<rparr>
      else if type = tRNS \<and> pi_colour p = 3 then p\<lparr>pi_alpha := overlay (pi_alpha p) 0 (take 256 data)\<rparr>
      else if type = IDAT then
        p\<lparr>pi_idat := Some (case pi_idat p of None \<Rightarrow> data | Some ds \<Rightarrow> ds @ data)\<rparr>
      else p)"

function read_chunks :: "bytes \<Rightarrow> nat \<Rightarrow> png_info \<Rightarrow> png_info" where
  "read_chunks file i p =
     (if i + 12 \<le> length file then
        let clen = be32_at file i in
        if i + 12 + clen > length file then p
        else read_chunks file (i + 12 + clen) (take_chunk (slice file (i + 4) 4) (slice file (i + 8) clen) p)
      else p)"
  by pat_completeness auto
termination by (relation "measure (\<lambda>(file, i, p). length file - i)") auto

declare read_chunks.simps [simp del]

definition bytes_per_pixel :: "nat \<Rightarrow> nat" where
  "bytes_per_pixel colour =
     (if colour = 0 then 1 else if colour = 2 then 3 else if colour = 3 then 1 else if colour = 4 then 2 else 4)"

definition rgba :: "byte \<Rightarrow> byte \<Rightarrow> byte \<Rightarrow> byte \<Rightarrow> pixel" where
  "rgba a r g b = push_bit 24 (ucast a) OR push_bit 16 (ucast r) OR push_bit 8 (ucast g) OR ucast b"

definition png_pixel :: "png_info \<Rightarrow> bytes \<Rightarrow> nat \<Rightarrow> pixel" where
  "png_pixel p row x =
     (let at = x * bytes_per_pixel (pi_colour p); s = (\<lambda>k. row ! (at + k)) in
      if pi_colour p = 0 then rgba 0xFF (s 0) (s 0) (s 0)
      else if pi_colour p = 2 then rgba 0xFF (s 0) (s 1) (s 2)
      else if pi_colour p = 3 then
        let index = (if unat (s 0) < length (pi_palette p) div 3 then unat (s 0) else 0);
            q = (\<lambda>k. pi_palette p ! (index * 3 + k))
        in rgba (pi_alpha p ! unat (s 0)) (q 0) (q 1) (q 2)
      else if pi_colour p = 4 then rgba (s 1) (s 0) (s 0) (s 0)
      else rgba (s 3) (s 0) (s 1) (s 2))"

fun png_rows :: "png_info \<Rightarrow> bytes \<Rightarrow> nat \<Rightarrow> nat \<Rightarrow> bytes option \<Rightarrow> pixel list option" where
  "png_rows p raw stride 0 prev = Some []"
| "png_rows p raw stride (Suc n) prev =
     (case unfilter (take stride (tl raw)) prev (bytes_per_pixel (pi_colour p)) (hd raw) of
        None \<Rightarrow> None
      | Some row \<Rightarrow> map_option (\<lambda>ps. map (png_pixel p row) [0 ..< pi_w p] @ ps)
          (png_rows p (drop (stride + 1) raw) stride n (Some row)))"

definition no_info :: png_info where
  "no_info = \<lparr>pi_w = 0, pi_h = 0, pi_depth = 0, pi_colour = 0, pi_interlace = 0, pi_palette = [],
     pi_alpha = replicate 256 0xFF, pi_idat = None\<rparr>"

text \<open>The file's bytes arrive whole; a file that cannot be opened or read whole is refused before this.\<close>

definition img_read_png ::
  "(nat \<Rightarrow> bool) \<Rightarrow> codes \<Rightarrow> bytes \<Rightarrow> ((nat \<times> nat \<times> pixel list) option \<times> codes) option" where
  "img_read_png mem c file =
     (if length file < 8 \<or> \<not> mem (length file) then Some (None, c)
      else if take 8 file \<noteq> png_sig then Some (None, c)
      else
        let p = read_chunks file 8 no_info;
            bpp = bytes_per_pixel (pi_colour p);
            stride = pi_w p * bpp;
            raw_len = (stride + 1) * pi_h p
        in
        if pi_w p = 0 \<or> pi_h p = 0 \<or> pi_depth p \<noteq> 8 \<or> pi_interlace p \<noteq> 0 then Some (None, c)
        else if pi_colour p \<notin> {0, 2, 3, 4, 6} then Some (None, c)
        else if pi_colour p = 3 \<and> length (pi_palette p) div 3 = 0 then Some (None, c)
        else if pi_w p * pi_h p > 4 * 1024 * 1024 then Some (None, c)
        else (case pi_idat p of
            None \<Rightarrow> Some (None, c)
          | Some idat \<Rightarrow>
              if length idat < 6 \<or> \<not> mem raw_len then Some (None, c)
              else do {
                (r, c) \<leftarrow> inflate_zlib c idat raw_len;
                (case r of
                   None \<Rightarrow> Some (None, c)
                 | Some raw \<Rightarrow>
                     if length raw \<noteq> raw_len \<or> \<not> mem (pi_w p * pi_h p * 4) then Some (None, c)
                     else Some (map_option (\<lambda>px. (pi_w p, pi_h p, px)) (png_rows p raw stride (pi_h p) None), c)) }))"

end
