(* ===== verification/Libc_Inflate_Laws.thy ===== *)
theory Libc_Inflate_Laws
  imports Libc_Inflate
begin

text \<open>
  What the decompressor of \<^verbatim>\<open>user/libc/inflate.c\<close> guarantees. The unread part of a stream is a list
  of bits (\<open>rest\<close>); the walk over a code and the lookup table are both compared with a walk over that
  list, which gives that the table agrees with the walk. The second part shows that no input makes
  the decompressor read outside its tables.
\<close>

section \<open>The unread bits\<close>

definition bits_of :: "nat \<Rightarrow> nat \<Rightarrow> bool list" where
  "bits_of n v = map (bit v) [0 ..< n]"

definition rest :: "stream \<Rightarrow> bool list" where
  "rest s = bits_of (bitcount s) (bitbuf s) @ concat (map (\<lambda>x. bits_of 8 (unat x)) (drop (in_at s) (st_in s)))"

definition st_ok :: "stream \<Rightarrow> bool" where
  "st_ok s \<longleftrightarrow> bitbuf s < 2 ^ bitcount s"

lemma length_bits_of [simp]: "length (bits_of n v) = n"
  by (simp add: bits_of_def)

lemma nth_bits_of [simp]: "i < n \<Longrightarrow> bits_of n v ! i = bit v i"
  by (simp add: bits_of_def)

lemma bit_less_exp:
  assumes "(v::nat) < 2 ^ n" "bit v i"
  shows "i < n"
proof (rule ccontr)
  assume "\<not> i < n"
  moreover have "take_bit n v = v" using assms(1) by (simp add: take_bit_nat_eq_self)
  ultimately show False using assms(2) bit_take_bit_iff [of n v i] by simp
qed

lemma exp_if_bits:
  assumes "\<And>i. bit (v::nat) i \<Longrightarrow> i < n"
  shows "v < 2 ^ n"
proof -
  have "take_bit n v = v" using assms by (intro bit_eqI) (auto simp: bit_take_bit_iff)
  then show ?thesis using take_bit_nat_less_exp [of n v] by simp
qed

lemma bit_byte: "bit (unat (x::byte)) i \<Longrightarrow> i < 8"
  using bit_less_exp [of "unat x" 8 i] unsigned_less [of x] by simp

lemma bit_merge:
  assumes "(v::nat) < 2 ^ n"
  shows "bit (v OR push_bit n (unat (x::byte))) i \<longleftrightarrow> (if i < n then bit v i else bit (unat x) (i - n))"
  using bit_less_exp [OF assms] by (auto simp: bit_or_iff bit_push_bit_iff)

lemma bits_of_merge:
  assumes "v < 2 ^ n"
  shows "bits_of (n + 8) (v OR push_bit n (unat (x::byte))) = bits_of n v @ bits_of 8 (unat x)"
proof (rule nth_equalityI)
  fix i
  assume "i < length (bits_of (n + 8) (v OR push_bit n (unat x)))"
  then show "bits_of (n + 8) (v OR push_bit n (unat x)) ! i = (bits_of n v @ bits_of 8 (unat x)) ! i"
    using bit_merge [OF assms, of x i] by (cases "i < n") (simp_all add: nth_append)
qed simp

lemma merge_less:
  assumes "v < 2 ^ n"
  shows "v OR push_bit n (unat (x::byte)) < 2 ^ (n + 8)"
proof (rule exp_if_bits)
  fix i
  assume "bit (v OR push_bit n (unat x)) i"
  then show "i < n + 8" using bit_merge [OF assms, of x i] bit_byte [of x "i - n"] by (cases "i < n") auto
qed

lemma rest_take_byte:
  assumes "st_ok s" "in_at s < length (st_in s)"
  shows "rest (take_byte s) = rest s" "st_ok (take_byte s)" "failed (take_byte s) = failed s"
  using assms by (simp_all add: rest_def st_ok_def take_byte_def bits_of_merge merge_less flip: Cons_nth_drop_Suc)

lemma rest_failed [simp]: "rest (s\<lparr>failed := b\<rparr>) = rest s" "st_ok (s\<lparr>failed := b\<rparr>) = st_ok s"
  by (simp_all add: rest_def st_ok_def)

lemma rest_length:
  "bitcount s \<le> length (rest s)" "length (st_in s) \<le> in_at s \<Longrightarrow> length (rest s) = bitcount s"
  by (simp_all add: rest_def)

text \<open>What filling the bit buffer does.\<close>

definition filled :: "nat \<Rightarrow> stream \<Rightarrow> stream \<Rightarrow> bool" where
  "filled n s s' \<longleftrightarrow> rest s' = rest s \<and> st_ok s'
     \<and> (n \<le> length (rest s) \<longrightarrow> failed s' = failed s \<and> n \<le> bitcount s')
     \<and> (length (rest s) < n \<longrightarrow> failed s' \<and> bitcount s' < n)"

lemma fill_bits_filled: "st_ok s \<Longrightarrow> filled n s (fill_bits n s)"
proof (induction n s rule: fill_bits.induct)
  case (1 n s)
  show ?case
  proof (cases "bitcount s < n \<and> in_at s < length (st_in s)")
    case True
    then have "fill_bits n s = fill_bits n (take_byte s)" by (subst fill_bits.simps) simp
    moreover have "filled n (take_byte s) (fill_bits n (take_byte s))"
      using True 1 rest_take_byte [of s] by simp
    ultimately show ?thesis using True 1(2) rest_take_byte [of s] by (simp add: filled_def)
  next
    case False
    then show ?thesis using 1(2) rest_length [of s]
      by (subst fill_bits.simps) (auto simp: filled_def)
  qed
qed

lemma bits_of_drop: "n \<le> m \<Longrightarrow> drop n (bits_of m v) = bits_of (m - n) (drop_bit n v)"
  by (rule nth_equalityI) (simp_all add: bit_drop_bit_eq add.commute)

lemma bits_one:
  assumes "st_ok s"
  shows "rest s = [] \<Longrightarrow> failed (snd (bits (Suc 0) s))"
    "rest s = b # bs \<Longrightarrow> \<exists>t. bits (Suc 0) s = (of_bool b, t) \<and> rest t = bs \<and> st_ok t \<and> failed t = failed s"
proof -
  define t where "t = fill_bits (Suc 0) s"
  have f: "filled (Suc 0) s t" unfolding t_def by (rule fill_bits_filled [OF assms])
  have e: "bits (Suc 0) s = (if bitcount t < Suc 0 then (0, t)
    else (take_bit (Suc 0) (bitbuf t), t\<lparr>bitbuf := drop_bit (Suc 0) (bitbuf t), bitcount := bitcount t - Suc 0\<rparr>))"
    by (simp only: bits_def Let_def t_def)
  show "rest s = [] \<Longrightarrow> failed (snd (bits (Suc 0) s))"
    using f by (simp add: e filled_def)
  assume r: "rest s = b # bs"
  with f have t: "rest t = b # bs" "1 \<le> bitcount t" "st_ok t" "failed t = failed s" by (auto simp: filled_def)
  let ?u = "t\<lparr>bitbuf := drop_bit (Suc 0) (bitbuf t), bitcount := bitcount t - Suc 0\<rparr>"
  have "rest ?u = drop 1 (rest t)" using t(2) bits_of_drop [of "Suc 0" "bitcount t" "bitbuf t"] by (simp add: rest_def)
  moreover have "b = bit (bitbuf t) 0" using t(1,2) by (cases "bitcount t") (auto simp: rest_def bits_of_def upt_rec)
  moreover have "st_ok ?u" using t(2,3) by (cases "bitcount t") (auto simp: st_ok_def drop_bit_eq_div)
  ultimately show "\<exists>t. bits (Suc 0) s = (of_bool b, t) \<and> rest t = bs \<and> st_ok t \<and> failed t = failed s"
    using t by (intro exI [of _ ?u]) (simp add: e take_bit_Suc odd_iff_mod_2_eq_one bit_0)
qed

lemma top_up_rest:
  assumes "st_ok s"
  shows "rest (top_up s) = rest s \<and> st_ok (top_up s) \<and> failed (top_up s) = failed s
    \<and> (FAST_BITS \<le> bitcount (top_up s) \<or> bitcount (top_up s) = length (rest s))"
  using assms
proof (induction s rule: top_up.induct)
  case (1 s)
  show ?case
  proof (cases "bitcount s < FAST_BITS \<and> in_at s < length (st_in s)")
    case True
    then have "top_up s = top_up (take_byte s)" by (subst top_up.simps) simp
    then show ?thesis using True 1 rest_take_byte [of s] by simp
  next
    case False
    then have "top_up s = s" by (subst top_up.simps) auto
    then show ?thesis using False 1(2) rest_length [of s] by auto
  qed
qed

section \<open>The walk as a function of the bits\<close>

fun lwalk :: "nat list \<Rightarrow> nat \<Rightarrow> nat \<Rightarrow> nat \<Rightarrow> nat list \<Rightarrow> bool list \<Rightarrow> (nat \<times> bool list) option" where
  "lwalk syms code first index (c # cs) (b # bs) =
     (let code = code + of_bool b in
      if code < first + c then Some (syms ! (index + (code - first)), bs)
      else lwalk syms (2 * code) (2 * (first + c)) (index + c) cs bs)"
| "lwalk syms code first index cs bs = None"

definition good_walk :: "(nat \<times> bool list) option \<Rightarrow> (nat option \<times> stream) option \<Rightarrow> bool" where
  "good_walk w r \<longleftrightarrow> (\<exists>s'. r = Some (map_option fst w, s')
     \<and> (\<forall>v bs. w = Some (v, bs) \<longrightarrow> rest s' = bs \<and> st_ok s' \<and> \<not> failed s'))"

lemma good_walkI_None: "good_walk None (Some (None, s))"
  by (simp add: good_walk_def)

lemma even_or_bit: "even code \<Longrightarrow> code OR of_bool b = code + of_bool (b :: bool)" for code :: nat
  by (cases b) (auto simp: or_Suc_0_eq elim!: evenE)

lemma walk_code_lwalk:
  assumes "st_ok s" "\<not> failed s" "even code" "first \<le> code" "index + sum_list cs \<le> length syms"
  shows "good_walk (lwalk syms code first index cs (rest s)) (walk_code syms code first index cs s)"
  using assms
proof (induction cs arbitrary: code first index s)
  case (Cons c cs)
  note IH = Cons.IH and 2 = refl Cons.prems
  show ?case
  proof (cases "rest s")
    case Nil
    obtain b t where t: "bits (Suc 0) s = (b, t)" by (cases "bits (Suc 0) s")
    with Nil bits_one(1) [OF 2(2)] have "failed t" by simp
    then show ?thesis using Nil t by (simp add: Let_def good_walkI_None)
  next
    case (Cons b bs)
    then obtain t where t: "bits (Suc 0) s = (of_bool b, t)" "rest t = bs" "st_ok t" "\<not> failed t"
      using bits_one(2) [OF 2(2)] 2(3) by auto
    let ?code = "code + of_bool b"
    have ih: "\<not> ?code < first + c \<Longrightarrow>
      good_walk (lwalk syms (2 * ?code) (2 * (first + c)) (index + c) cs (rest t))
        (walk_code syms (2 * ?code) (2 * (first + c)) (index + c) cs t)"
      using 2 t by (intro IH) simp_all
    have hit: "?code < first + c \<Longrightarrow> index + (?code - first) < length syms"
      using 2(5,6) by simp
    show ?thesis using Cons t 2(4) ih hit
      by (cases "?code < first + c") (simp_all add: Let_def even_or_bit get_def good_walk_def)
  qed
qed (simp add: good_walkI_None)

section \<open>The lookup table\<close>

text \<open>The number that the first \<open>n\<close> bits of an index spell, high bit first.\<close>

fun spelt :: "nat \<Rightarrow> nat \<Rightarrow> nat" where
  "spelt 0 i = 0"
| "spelt (Suc n) i = 2 * spelt n i + of_bool (bit i n)"

lemma bit_spelt: "bit (spelt n i) j \<longleftrightarrow> j < n \<and> bit i (n - 1 - j)"
proof (induction n arbitrary: j)
  case (Suc n)
  have "bit (2 * spelt n i + of_bool (bit i n)) j \<longleftrightarrow> (if j = 0 then bit i n else bit (spelt n i) (j - 1))"
    by (cases j) (simp_all add: bit_0 bit_Suc)
  then show ?case using Suc [of "j - 1"] by (cases j) auto
qed simp

lemma bit_fold_or:
  "bit (fold (\<lambda>b r. r OR push_bit (f b) (take_bit 1 (drop_bit b v))) xs a) j
     \<longleftrightarrow> bit a j \<or> (\<exists>b \<in> set xs. f b = j \<and> bit (v::nat) b)" for a :: nat
  by (induction xs arbitrary: a)
    (auto simp: bit_or_iff bit_push_bit_iff bit_take_bit_iff bit_drop_bit_eq simp flip: bit_iff_odd_drop_bit)

lemma bit_rev_bits: "bit (rev_bits n v) j \<longleftrightarrow> j < n \<and> bit v (n - 1 - j)"
  unfolding rev_bits_def bit_fold_or by (auto intro!: bexI [of _ "n - 1 - j"])

lemma all_mirror: "(\<forall>j < n. P (n - 1 - j) j) \<longleftrightarrow> (\<forall>j < n. P j (n - 1 - j))" for n :: nat
proof -
  have "\<forall>j < n. P' j (n - 1 - j)" if a: "\<forall>j < n. P' (n - 1 - j) j" for P'
  proof (intro allI impI)
    fix j assume "j < n"
    then show "P' j (n - 1 - j)" using a [THEN spec, of "n - 1 - j"] by simp
  qed
  from this [of P] this [of "\<lambda>a b. P b a"] show ?thesis by blast
qed

lemma spelt_eq_iff:
  assumes "v < 2 ^ n"
  shows "spelt n i = v \<longleftrightarrow> i mod 2 ^ n = rev_bits n v"
proof -
  have "spelt n i = v \<longleftrightarrow> (\<forall>j < n. bit i (n - 1 - j) = bit v j)"
    using bit_less_exp [OF assms] by (auto simp: bit_eq_iff bit_spelt)
  also have "\<dots> \<longleftrightarrow> (\<forall>j < n. bit i j = bit v (n - 1 - j))"
    by (rule all_mirror)
  also have "\<dots> \<longleftrightarrow> take_bit n i = rev_bits n v"
    by (auto simp: bit_eq_iff bit_take_bit_iff bit_rev_bits)
  finally show ?thesis by (simp add: take_bit_eq_mod)
qed

lemma fill_stride_nth:
  assumes "0 < step" "length fast = FAST_SIZE"
  shows "length (fill_stride at step e fast) = FAST_SIZE"
    "i < FAST_SIZE \<Longrightarrow> fill_stride at step e fast ! i = (if at \<le> i \<and> step dvd (i - at) then e else fast ! i)"
proof -
  have "length (fill_stride at step e fast) = FAST_SIZE \<and> (i < FAST_SIZE \<longrightarrow>
    fill_stride at step e fast ! i = (if at \<le> i \<and> step dvd (i - at) then e else fast ! i))"
    using assms
  proof (induction at step e fast rule: fill_stride.induct)
    case (1 at step e fast)
    show ?case
    proof (cases "at < FAST_SIZE")
      case True
      then have f: "fill_stride at step e fast = fill_stride (at + step) step e (fast[at := e])"
        using 1(2) by (subst fill_stride.simps) simp
      have "(at \<le> i \<and> step dvd (i - at)) \<longleftrightarrow> i = at \<or> (at + step \<le> i \<and> step dvd (i - (at + step)))"
        using 1(2) dvd_minus_self [of step "i - at"] dvd_imp_le [of step "i - at"] by auto
      then show ?thesis using 1(1) [OF conjI [OF True 1(2)]] 1(2,3) by (auto simp: f)
    next
      case False
      then show ?thesis using 1(3) by (subst (1 2) fill_stride.simps) auto
    qed
  qed
  then show "length (fill_stride at step e fast) = FAST_SIZE"
    "i < FAST_SIZE \<Longrightarrow> fill_stride at step e fast ! i = (if at \<le> i \<and> step dvd (i - at) then e else fast ! i)"
    by simp_all
qed

lemma stride_iff: "at < (step::nat) \<Longrightarrow> at \<le> i \<and> step dvd (i - at) \<longleftrightarrow> i mod step = at"
  by (metis mod_eq_dvd_iff_nat mod_less mod_less_eq_dividend)

lemma rev_bits_less: "rev_bits n v < 2 ^ n"
  by (rule exp_if_bits) (simp add: bit_rev_bits)

lemma fill_codes_nth:
  assumes "\<forall>k \<in> set ks. first + k < 2 ^ len \<and> index + k < length syms" "length fast = FAST_SIZE"
  shows "\<exists>fast'. fill_codes syms len first index ks fast = Some fast' \<and> length fast' = FAST_SIZE
    \<and> (\<forall>i < FAST_SIZE. fast' ! i = (if first \<le> spelt len i \<and> spelt len i - first \<in> set ks
         then push_bit 12 len OR syms ! (index + (spelt len i - first)) else fast ! i))"
  using assms
proof (induction ks arbitrary: fast)
  case (Cons k ks)
  define fast1 where
    "fast1 = fill_stride (rev_bits len (first + k)) (2 ^ len) (push_bit 12 len OR syms ! (index + k)) fast"
  have l1: "length fast1 = FAST_SIZE" unfolding fast1_def by (rule fill_stride_nth) (simp_all add: Cons.prems)
  have n1: "fast1 ! i = (if spelt len i = first + k then push_bit 12 len OR syms ! (index + k) else fast ! i)"
    if "i < FAST_SIZE" for i
    unfolding fast1_def using Cons.prems that rev_bits_less spelt_eq_iff [of "first + k" len i]
    by (simp add: fill_stride_nth(2) stride_iff)
  obtain fast2 where 2: "fill_codes syms len first index ks fast1 = Some fast2" "length fast2 = FAST_SIZE"
    "\<forall>i < FAST_SIZE. fast2 ! i = (if first \<le> spelt len i \<and> spelt len i - first \<in> set ks
         then push_bit 12 len OR syms ! (index + (spelt len i - first)) else fast1 ! i)"
    using Cons.IH [OF _ l1] Cons.prems(1) by auto
  have "fast2 ! i = (if first \<le> spelt len i \<and> spelt len i - first \<in> set (k # ks)
         then push_bit 12 len OR syms ! (index + (spelt len i - first)) else fast ! i)" if "i < FAST_SIZE" for i
    using 2(3) [rule_format, OF that] n1 [OF that] by auto
  then show ?case using 2(1,2) Cons.prems(1) by (auto simp: get_def fast1_def)
qed simp

text \<open>Where the walk over an index ends, for the codes the table covers: the length and the place.\<close>

fun hit :: "nat \<Rightarrow> nat \<Rightarrow> nat \<Rightarrow> nat list \<Rightarrow> nat \<Rightarrow> (nat \<times> nat) option" where
  "hit len first index [] i = None"
| "hit len first index (c # cs) i =
     (if len \<le> FAST_BITS \<and> first \<le> spelt len i \<and> spelt len i < first + c
      then Some (len, index + (spelt len i - first))
      else hit (len + 1) (2 * (first + c)) (index + c) cs i)"

lemma hit_below: "spelt len i < first \<Longrightarrow> hit len first index cs i = None"
proof (induction len first index cs i rule: hit.induct)
  case (2 len first index c cs i)
  then have "spelt (len + 1) i < 2 * (first + c)" by (cases "bit i len") simp_all
  then show ?case using 2 by auto
qed simp

lemma fill_fast_nth:
  assumes "\<not> over_subscribed left cs" "int (2 ^ len) = 2 * left + int first" "0 < len"
    "index + sum_list cs \<le> length syms" "length fast = FAST_SIZE"
  shows "\<exists>fast'. fill_fast syms len first index cs fast = Some fast' \<and> length fast' = FAST_SIZE
    \<and> (\<forall>i < FAST_SIZE. fast' ! i = (case hit len first index cs i of
         Some (l, k) \<Rightarrow> push_bit 12 l OR syms ! k | None \<Rightarrow> fast ! i))"
  using assms
proof (induction cs arbitrary: left len first index fast)
  case (Cons c cs)
  have o: "2 * left - int c \<ge> 0" "\<not> over_subscribed (2 * left - int c) cs"
    using Cons.prems(1) by (auto simp: Let_def split: if_splits)
  have le: "first + c \<le> 2 ^ len"
  proof -
    have "int (first + c) \<le> int (2 ^ len)" using o(1) Cons.prems(2) by simp
    then show ?thesis by (simp only: of_nat_le_iff)
  qed
  obtain fast1 where 1: "(if len \<le> FAST_BITS then fill_codes syms len first index [0 ..< c] fast else Some fast) = Some fast1"
    "length fast1 = FAST_SIZE"
    "\<forall>i < FAST_SIZE. fast1 ! i = (if len \<le> FAST_BITS \<and> first \<le> spelt len i \<and> spelt len i < first + c
         then push_bit 12 len OR syms ! (index + (spelt len i - first)) else fast ! i)"
  proof (cases "len \<le> FAST_BITS")
    case True
    have "\<forall>k \<in> set [0 ..< c]. first + k < 2 ^ len \<and> index + k < length syms" using le Cons.prems(4) by auto
    from fill_codes_nth [OF this Cons.prems(5)] show ?thesis using that True by fastforce
  next
    case False
    then show ?thesis using that Cons.prems(5) by simp
  qed
  have s: "int (2 ^ (len + 1)) = 2 * (2 * left - int c) + int (2 * (first + c))" using Cons.prems(2) by simp
  have ix: "index + c + sum_list cs \<le> length syms" using Cons.prems(4) by simp
  obtain fast2 where 2: "fill_fast syms (len + 1) (2 * (first + c)) (index + c) cs fast1 = Some fast2"
    "length fast2 = FAST_SIZE"
    "\<forall>i < FAST_SIZE. fast2 ! i = (case hit (len + 1) (2 * (first + c)) (index + c) cs i of
         Some (l, k) \<Rightarrow> push_bit 12 l OR syms ! k | None \<Rightarrow> fast1 ! i)"
    using Cons.IH [OF o(2) s _ ix 1(2)] by auto
  have "hit (len + 1) (2 * (first + c)) (index + c) cs i = None" if "spelt len i < first + c" for i
  proof (rule hit_below)
    show "spelt (len + 1) i < 2 * (first + c)" using that by (cases "bit i len") simp_all
  qed
  then show ?case using 1 2 by (auto split: option.splits)
qed simp

lemma hit_bounds: "hit len first index cs i = Some (l, k) \<Longrightarrow> len \<le> l \<and> l \<le> FAST_BITS \<and> k < index + sum_list cs"
  by (induction len first index cs i rule: hit.induct) (fastforce split: if_splits)+

lemma hit_lwalk:
  assumes "hit (Suc m) first index cs i = Some (l, k)" "first \<le> 2 * spelt m i"
    "l \<le> length bs" "\<forall>j < l. bs ! j = bit i j"
  shows "lwalk syms (2 * spelt m i) first index cs (drop m bs) = Some (syms ! k, drop l bs)"
  using assms
proof (induction cs arbitrary: m first index)
  case (Cons c cs)
  note b = hit_bounds [OF Cons.prems(1)]
  then have d: "drop m bs = bit i m # drop (Suc m) bs"
    using Cons.prems(3,4) by (simp add: Cons_nth_drop_Suc flip: Cons_nth_drop_Suc)
  show ?case
  proof (cases "spelt (Suc m) i < first + c")
    case True
    then have "l = Suc m" "k = index + (spelt (Suc m) i - first)"
      using Cons.prems(1,2) b hit_below [of "Suc (Suc m)" i "2 * (first + c)"] by (auto split: if_splits)
    then show ?thesis using True d by (simp add: Let_def)
  next
    case False
    then have "hit (Suc (Suc m)) (2 * (first + c)) (index + c) cs i = Some (l, k)"
      using Cons.prems(1) by simp
    from Cons.IH [OF this _ Cons.prems(3,4)] show ?thesis using False d by (simp add: Let_def)
  qed
qed simp

lemma entry_parts:
  assumes "v < 4096"
  shows "drop_bit 12 (push_bit 12 l OR v) = l" "take_bit 12 (push_bit 12 l OR v) = (v::nat)"
proof -
  have b: "bit v j \<Longrightarrow> j < 12" for j using bit_less_exp [of v 12 j] assms by simp
  show "drop_bit 12 (push_bit 12 l OR v) = l" "take_bit 12 (push_bit 12 l OR v) = v"
    by (auto intro!: bit_eqI simp: bit_drop_bit_eq bit_take_bit_iff bit_or_iff bit_push_bit_iff dest: b)
qed

section \<open>Well-formed codes\<close>

text \<open>What holds of every code whose table \<^verbatim>\<open>build\<close> has filled in.\<close>

definition table_ok :: "huffman \<Rightarrow> bool" where
  "table_ok h \<longleftrightarrow> sum_list (tl (h_count h)) \<le> length (h_symbol h)
     \<and> (\<forall>v \<in> set (h_symbol h). v < MAX_SYMS) \<and> length (h_fast h) = FAST_SIZE
     \<and> (\<forall>i < FAST_SIZE. h_fast h ! i = (case hit 1 0 0 (tl (h_count h)) i of
          Some (l, k) \<Rightarrow> push_bit 12 l OR h_symbol h ! k | None \<Rightarrow> 0))"

lemma slow_lwalk:
  assumes "table_ok h" "st_ok s" "\<not> failed s"
  shows "good_walk (lwalk (h_symbol h) 0 0 0 (tl (h_count h)) (rest s)) (decode_slow h s)"
  unfolding decode_slow_def using assms by (intro walk_code_lwalk) (simp_all add: table_ok_def)

lemma decode_lwalk:
  assumes h: "table_ok h" and s: "st_ok s" "\<not> failed s"
  shows "good_walk (lwalk (h_symbol h) 0 0 0 (tl (h_count h)) (rest s)) (decode h s)"
proof -
  define t where "t = top_up s"
  have t: "rest t = rest s" "st_ok t" "\<not> failed t" "FAST_BITS \<le> bitcount t \<or> bitcount t = length (rest t)"
    using top_up_rest [OF s(1)] s(2) by (auto simp: t_def)
  define i where "i = take_bit FAST_BITS (bitbuf t)"
  have i: "i < FAST_SIZE" using take_bit_nat_less_exp [of 9 "bitbuf t"] by (simp add: i_def FAST_BITS_def FAST_SIZE_def)
  have d: "decode h s = (if h_fast h ! i \<noteq> 0 \<and> drop_bit 12 (h_fast h ! i) \<le> bitcount t
    then Some (Some (take_bit 12 (h_fast h ! i)),
      t\<lparr>bitbuf := drop_bit (drop_bit 12 (h_fast h ! i)) (bitbuf t), bitcount := bitcount t - drop_bit 12 (h_fast h ! i)\<rparr>)
    else decode_slow h t)"
    using i h by (simp add: decode_def Let_def get_def table_ok_def flip: t_def i_def)
  show ?thesis
  proof (cases "h_fast h ! i \<noteq> 0 \<and> drop_bit 12 (h_fast h ! i) \<le> bitcount t")
    case True
    then obtain l k where lk: "hit 1 0 0 (tl (h_count h)) i = Some (l, k)" "h_fast h ! i = push_bit 12 l OR h_symbol h ! k"
      using h i by (auto simp: table_ok_def split: option.splits)
    note b = hit_bounds [OF lk(1)]
    then have "h_symbol h ! k \<in> set (h_symbol h)" using h by (simp add: table_ok_def)
    then have v: "h_symbol h ! k < 4096" using h by (auto simp: table_ok_def MAX_SYMS_def)
    have e: "drop_bit 12 (h_fast h ! i) = l" "take_bit 12 (h_fast h ! i) = h_symbol h ! k"
      unfolding lk(2) by (rule entry_parts [OF v])+
    have lb: "l \<le> bitcount t" using True by (simp add: e)
    have "\<forall>j < l. rest t ! j = bit i j"
      using lb b by (auto simp: rest_def nth_append i_def bit_take_bit_iff)
    moreover have "l \<le> length (rest t)" using lb rest_length(1) [of t] by simp
    ultimately have w: "lwalk (h_symbol h) 0 0 0 (tl (h_count h)) (rest t) = Some (h_symbol h ! k, drop l (rest t))"
      using hit_lwalk [of 0 0 0 "tl (h_count h)" i l k "rest t" "h_symbol h"] lk(1) by simp
    have "rest (t\<lparr>bitbuf := drop_bit l (bitbuf t), bitcount := bitcount t - l\<rparr>) = drop l (rest t)"
      using lb bits_of_drop [OF lb] by (simp add: rest_def)
    moreover have "st_ok (t\<lparr>bitbuf := drop_bit l (bitbuf t), bitcount := bitcount t - l\<rparr>)"
      using t(2) lb by (simp add: st_ok_def drop_bit_eq_div less_mult_imp_div_less flip: power_add)
    ultimately show ?thesis using True d w t(1,3) by (simp add: good_walk_def e)
  next
    case False
    then show ?thesis using d slow_lwalk [OF h t(2,3)] t(1) by auto
  qed
qed

section \<open>Building a code\<close>

definition occurs :: "nat list \<Rightarrow> nat \<Rightarrow> nat" where
  "occurs ls l = length (filter ((=) l) ls)"

lemma occurs_simps [simp]:
  "occurs [] l = 0" "occurs (a # ls) l = (if a = l then Suc (occurs ls l) else occurs ls l)"
  "occurs (ls @ ls') l = occurs ls l + occurs ls' l"
  by (auto simp: occurs_def)

lemma count_lengths_nth:
  assumes "\<forall>l \<in> set ls. l < length cs"
  shows "\<exists>cs'. count_lengths cs ls = Some cs' \<and> length cs' = length cs
    \<and> (\<forall>l < length cs. cs' ! l = cs ! l + occurs ls l)"
  using assms
proof (induction ls arbitrary: cs)
  case (Cons a ls)
  from Cons.prems obtain cs' where "count_lengths (cs[a := cs ! a + 1]) ls = Some cs'" "length cs' = length cs"
    "\<forall>l < length cs. cs' ! l = cs[a := cs ! a + 1] ! l + occurs ls l"
    using Cons.IH [of "cs[a := cs ! a + 1]"] by auto
  then show ?case using Cons.prems by (auto simp: get_def nth_list_update)
qed simp

lemma sum_occurs: "\<forall>l \<in> set ls. l < n \<Longrightarrow> sum (occurs ls) {..< n} = length ls"
proof (induction ls)
  case (Cons a ls)
  have "sum (occurs (a # ls)) {..< n} = sum (\<lambda>l. (if a = l then 1 else 0) + occurs ls l) {..< n}"
    by (intro sum.cong) auto
  also have "\<dots> = 1 + sum (occurs ls) {..< n}" using Cons.prems by (simp add: sum.distrib)
  finally show ?case using Cons by simp
qed simp

text \<open>Where the symbols of each length start, and the code the first of them has.\<close>

definition start_of :: "nat list \<Rightarrow> nat \<Rightarrow> nat" where
  "start_of ls l = sum (occurs ls) {1 ..< l}"

lemma start_of_Suc: "0 < l \<Longrightarrow> start_of ls (Suc l) = start_of ls l + occurs ls l"
  by (simp add: start_of_def)

lemma start_of_mono: "l \<le> l' \<Longrightarrow> start_of ls l \<le> start_of ls l'"
  unfolding start_of_def by (rule sum_mono2) auto

lemma start_of_le: "\<forall>l \<in> set ls. l < n \<Longrightarrow> start_of ls n \<le> length ls"
  unfolding start_of_def sum_occurs [of ls n, symmetric] by (rule sum_mono2) auto

lemma nth_offsets_from: "j < length cs \<Longrightarrow> offsets_from off cs ! j = off + sum_list (take j cs)"
  by (induction off cs arbitrary: j rule: offsets_from.induct) (auto simp: nth_Cons split: nat.splits)

lemma length_offsets_from [simp]: "length (offsets_from off cs) = length cs"
  by (induction off cs rule: offsets_from.induct) auto

text \<open>
  The sorted table: after the first symbols are placed, the ones of length \<open>l\<close> fill the places from
  \<open>start_of ls l\<close> in order.
\<close>

definition placed :: "nat list \<Rightarrow> nat \<Rightarrow> nat list \<Rightarrow> bool" where
  "placed ls n syms \<longleftrightarrow>
     (\<forall>i < n. 0 < ls ! i \<longrightarrow> syms ! (start_of ls (ls ! i) + occurs (take i ls) (ls ! i)) = i)"

lemma occurs_take_less:
  assumes "i < j" "j \<le> length ls" "ls ! i = l"
  shows "occurs (take i ls) l < occurs (take j ls) l"
proof -
  have "take j ls = take i ls @ ls ! i # drop (Suc i) (take j ls)"
    using assms(1,2) id_take_nth_drop [of i "take j ls"] by (simp add: min_def)
  from arg_cong [OF this, of "\<lambda>x. occurs x l"] show ?thesis using assms(3) by simp
qed

lemma occurs_take_le: "occurs (take j ls) l \<le> occurs ls l"
  using occurs_simps(3) [of "take j ls" "drop j ls" l] by simp

lemma place_free:
  assumes "i < n" "n < length ls" "0 < ls ! i" "0 < ls ! n"
  shows "start_of ls (ls ! i) + occurs (take i ls) (ls ! i) \<noteq> start_of ls (ls ! n) + occurs (take n ls) (ls ! n)"
proof (cases "ls ! i" "ls ! n" rule: linorder_cases)
  case less
  have "start_of ls (ls ! i) + occurs (take i ls) (ls ! i) < start_of ls (Suc (ls ! i))"
    using assms occurs_take_less [of i n ls "ls ! i"] occurs_take_le [of n ls "ls ! i"] by (simp add: start_of_Suc)
  also have "\<dots> \<le> start_of ls (ls ! n)" using less by (intro start_of_mono) simp
  finally show ?thesis by simp
next
  case equal
  then show ?thesis using occurs_take_less [of i n ls "ls ! i"] assms by simp
next
  case greater
  have "start_of ls (ls ! n) + occurs (take n ls) (ls ! n) < start_of ls (Suc (ls ! n))"
    using assms occurs_take_less [of n "length ls" ls "ls ! n"] by (simp add: start_of_Suc)
  also have "\<dots> \<le> start_of ls (ls ! i)" using greater by (intro start_of_mono) simp
  finally show ?thesis by simp
qed

lemma place_bound:
  assumes "n < length ls" "0 < ls ! n"
  shows "start_of ls (ls ! n) + occurs (take n ls) (ls ! n) < length ls"
proof -
  let ?m = "Suc (Max (set ls))"
  have m: "\<forall>l \<in> set ls. l < ?m" by (simp add: less_Suc_eq_le)
  have "start_of ls (ls ! n) + occurs (take n ls) (ls ! n) < start_of ls (Suc (ls ! n))"
    using assms occurs_take_less [of n "length ls" ls "ls ! n"] by (simp add: start_of_Suc)
  also have "\<dots> \<le> start_of ls ?m" using m assms(1) by (intro start_of_mono) simp
  also have "\<dots> \<le> length ls" by (rule start_of_le [OF m])
  finally show ?thesis .
qed

lemma place_symbols_placed:
  assumes "\<forall>l \<in> set ls. l < length offs" "length ls \<le> length syms" "n \<le> length ls"
    "\<forall>l. 0 < l \<and> l < length offs \<longrightarrow> offs ! l = start_of ls l + occurs (take n ls) l" "placed ls n syms"
  shows "\<exists>syms'. place_symbols offs syms (enumerate n (drop n ls)) = Some syms' \<and> length syms' = length syms
    \<and> placed ls (length ls) syms' \<and> (\<forall>v \<in> set syms'. v \<in> set syms \<or> v < length ls)"
  using assms
proof (induction "length ls - n" arbitrary: n offs syms)
  case 0
  then show ?case by simp
next
  case (Suc k)
  then have n: "n < length ls" "k = length ls - Suc n" by simp_all
  have d: "enumerate n (drop n ls) = (n, ls ! n) # enumerate (Suc n) (drop (Suc n) ls)"
    using n(1) by (simp flip: Cons_nth_drop_Suc)
  have t: "take (Suc n) ls = take n ls @ [ls ! n]" using n(1) by (rule take_Suc_conv_app_nth)
  show ?case
  proof (cases "ls ! n = 0")
    case True
    then show ?thesis using Suc.hyps(1) [OF n(2), of offs syms] Suc.prems n(1)
      by (auto simp: d t placed_def less_Suc_eq)
  next
    case False
    let ?at = "start_of ls (ls ! n) + occurs (take n ls) (ls ! n)"
    have at: "?at < length ls" using place_bound [OF n(1)] False by simp
    have o: "offs ! (ls ! n) = ?at" "ls ! n < length offs" using Suc.prems(1,4) False n(1) by simp_all
    have "placed ls (Suc n) (syms[?at := n])"
      unfolding placed_def
    proof (intro allI impI)
      fix i
      assume i: "i < Suc n" "0 < ls ! i"
      show "(syms[?at := n]) ! (start_of ls (ls ! i) + occurs (take i ls) (ls ! i)) = i"
      proof (cases "i = n")
        case True
        then show ?thesis using at Suc.prems(2) by simp
      next
        case neq: False
        then show ?thesis using place_free [of i n ls] i False n(1) Suc.prems(5) by (simp add: placed_def)
      qed
    qed
    then have "\<exists>syms'. place_symbols (offs[ls ! n := Suc ?at]) (syms[?at := n]) (enumerate (Suc n) (drop (Suc n) ls)) = Some syms'
      \<and> length syms' = length syms \<and> placed ls (length ls) syms'
      \<and> (\<forall>v \<in> set syms'. v \<in> set (syms[?at := n]) \<or> v < length ls)"
      using Suc.hyps(1) [OF n(2), of "offs[ls ! n := Suc ?at]" "syms[?at := n]"] Suc.prems n(1)
      by (auto simp: t nth_list_update)
    then show ?thesis using False d o at Suc.prems(2) n(1) set_update_subset_insert [of syms ?at n]
      by (auto simp: get_def)
  qed
qed

text \<open>The canonical code of the deflate format: within a length it counts upwards, in symbol order.\<close>

fun first_code :: "nat list \<Rightarrow> nat \<Rightarrow> nat" where
  "first_code ls 0 = 0"
| "first_code ls (Suc l) = 2 * (first_code ls l + (if l = 0 then 0 else occurs ls l))"

definition code_number :: "nat list \<Rightarrow> nat \<Rightarrow> nat" where
  "code_number ls i = first_code ls (ls ! i) + occurs (take i ls) (ls ! i)"

definition canonical :: "nat list \<Rightarrow> nat \<Rightarrow> bool list" where
  "canonical ls i = rev (bits_of (ls ! i) (code_number ls i))"

lemma foldl_double: "n \<le> length cs \<Longrightarrow> 2 ^ n * f \<le> foldl (\<lambda>f c. 2 * (f + c)) f (take n cs)" for f :: nat
proof (induction n arbitrary: f cs)
  case (Suc n)
  then obtain c cs' where cs: "cs = c # cs'" by (cases cs) auto
  have "2 ^ Suc n * f \<le> 2 ^ n * (2 * (f + c))" by (simp add: algebra_simps)
  also have "\<dots> \<le> foldl (\<lambda>f c. 2 * (f + c)) (2 * (f + c)) (take n cs')" using Suc.prems cs by (intro Suc.IH) simp
  finally show ?case by (simp add: cs)
qed simp

lemma lwalk_canonical:
  assumes "Suc n \<le> length cs" "v < 2 ^ Suc n" "even code"
    "F = foldl (\<lambda>f c. 2 * (f + c)) first (take n cs)"
    "F \<le> code * 2 ^ n + v" "code * 2 ^ n + v < F + cs ! n"
  shows "lwalk syms code first index cs (rev (bits_of (Suc n) v) @ bs) =
    Some (syms ! (index + sum_list (take n cs) + (code * 2 ^ n + v - F)), bs)"
  using assms
proof (induction n arbitrary: cs code v first index F)
  case 0
  then have "code + of_bool (odd v) = code + v" by (cases "v = 0") auto
  then show ?case using 0 by (cases cs) (simp_all add: bits_of_def bit_0 Let_def)
next
  case (Suc n)
  then obtain c cs' where cs: "cs = c # cs'" by (cases cs) auto
  let ?b = "bit v (Suc n)" and ?w = "take_bit (Suc n) v"
  have r: "rev (bits_of (Suc (Suc n)) v) = ?b # rev (bits_of (Suc n) ?w)"
    by (simp add: bits_of_def bit_take_bit_iff cong: map_cong)
  have v: "v = of_bool ?b * 2 ^ Suc n + ?w"
  proof -
    have "v div 2 ^ Suc n < 2" using Suc.prems(2) by (simp add: less_mult_imp_div_less mult.commute)
    then have "v div 2 ^ Suc n = of_bool ?b" by (cases "v div 2 ^ Suc n") (auto simp: bit_iff_odd)
    then show ?thesis using div_mult_mod_eq [of v "2 ^ Suc n"] by (simp add: take_bit_eq_mod)
  qed
  let ?code = "code + of_bool ?b"
  have cv: "code * 2 ^ Suc n + v = 2 * ?code * 2 ^ n + ?w" by (subst v) (simp add: algebra_simps)
  have F: "F = foldl (\<lambda>f c. 2 * (f + c)) (2 * (first + c)) (take n cs')" using Suc.prems(4) cs by simp
  have "2 ^ n * (2 * (first + c)) \<le> F" unfolding F by (rule foldl_double) (use Suc.prems(1) cs in simp)
  also have "\<dots> \<le> 2 * ?code * 2 ^ n + ?w" using Suc.prems(5) cv by simp
  also have "\<dots> < 2 ^ n * (2 * (?code + 1))" using take_bit_nat_less_exp [of "Suc n" v] by (simp add: algebra_simps)
  finally have "2 * (first + c) < 2 * (?code + 1)" by (simp only: mult_less_cancel1)
  then have nf: "\<not> ?code < first + c" by simp
  have "lwalk syms (2 * ?code) (2 * (first + c)) (index + c) cs' (rev (bits_of (Suc n) ?w) @ bs) =
    Some (syms ! (index + c + sum_list (take n cs') + (2 * ?code * 2 ^ n + ?w - F)), bs)"
    using Suc.prems cs cv F take_bit_nat_less_exp [of "Suc n" v] by (intro Suc.IH) simp_all
  then show ?case using nf cs r cv by (simp add: Let_def add.assoc)
qed

definition code_sizes :: "huffman \<Rightarrow> bool" where
  "code_sizes h \<longleftrightarrow> length (h_symbol h) = MAX_SYMS \<and> (\<forall>v \<in> set (h_symbol h). v < MAX_SYMS)
     \<and> length (h_fast h) = FAST_SIZE \<and> sum_list (tl (h_count h)) \<le> MAX_SYMS"

definition lengths_ok :: "nat list \<Rightarrow> bool" where
  "lengths_ok ls \<longleftrightarrow> length ls \<le> MAX_SYMS \<and> (\<forall>l \<in> set ls. l \<le> MAX_BITS)"

lemma lengths_okD: "lengths_ok ls \<Longrightarrow> \<forall>l \<in> set ls. l < 16"
  by (auto simp: lengths_ok_def MAX_BITS_def)

abbreviation counts :: "nat list \<Rightarrow> nat list" where
  "counts ls \<equiv> map (occurs ls) [1 ..< 16]"

lemma sum_counts: "n \<le> 15 \<Longrightarrow> sum_list (take n (counts ls)) = start_of ls (Suc n)"
  by (simp add: start_of_def take_map interv_sum_list_conv_sum_set_nat)

lemma count_lengths_counts:
  assumes "lengths_ok ls"
  shows "count_lengths (replicate (MAX_BITS + 1) 0) ls = Some (occurs ls 0 # counts ls)"
proof -
  obtain cs where cs: "count_lengths (replicate 16 0) ls = Some cs" "length cs = 16"
    "\<forall>l < 16. cs ! l = occurs ls l"
    using count_lengths_nth [of ls "replicate 16 0"] lengths_okD [OF assms] by auto
  have "cs = map (occurs ls) [0 ..< 16]" using cs(2,3) by (intro nth_equalityI) simp_all
  also have "\<dots> = occurs ls 0 # counts ls" by (simp add: upt_rec [of 0])
  finally show ?thesis using cs(1) by (simp add: MAX_BITS_def)
qed

lemma build_sym:
  assumes "lengths_ok ls" "code_sizes h"
  shows "\<exists>syms. place_symbols (0 # offsets_from 0 (counts ls)) (h_symbol h) (enumerate 0 ls) = Some syms
    \<and> length syms = MAX_SYMS \<and> placed ls (length ls) syms \<and> (\<forall>v \<in> set syms. v < MAX_SYMS)"
proof -
  have "(0 # offsets_from 0 (counts ls)) ! l = start_of ls l" if "0 < l" "l < 16" for l
    using that sum_counts [of "l - 1" ls] by (cases l) (simp_all add: nth_offsets_from)
  then show ?thesis
    using place_symbols_placed [of ls "0 # offsets_from 0 (counts ls)" "h_symbol h" 0] lengths_okD [OF assms(1)] assms
    by (fastforce simp: lengths_ok_def code_sizes_def placed_def simp del: upt_Suc)
qed

text \<open>What \<^verbatim>\<open>build\<close> leaves: a code it accepts, or the old tables beside the new counts.\<close>

definition built :: "huffman \<Rightarrow> nat list \<Rightarrow> bool \<Rightarrow> huffman \<Rightarrow> bool" where
  "built h ls ok h' \<longleftrightarrow> code_sizes h' \<and> tl (h_count h') = counts ls
     \<and> (ok \<longrightarrow> table_ok h' \<and> placed ls (length ls) (h_symbol h') \<and> \<not> over_subscribed 1 (counts ls))"

lemma start_of_16: "lengths_ok ls \<Longrightarrow> sum_list (counts ls) \<le> length ls"
  using sum_counts [of 15 ls] start_of_le [OF lengths_okD, of ls] by (simp del: upt_Suc)

lemma build_eq:
  assumes "lengths_ok ls"
  shows "build h ls =
    (if occurs ls 0 = length ls \<or> over_subscribed 1 (counts ls) then Some (False, h\<lparr>h_count := occurs ls 0 # counts ls\<rparr>)
     else do {
       syms \<leftarrow> place_symbols (0 # offsets_from 0 (counts ls)) (h_symbol h) (enumerate 0 ls);
       fast \<leftarrow> fill_fast syms 1 0 0 (counts ls) (replicate FAST_SIZE 0);
       Some (True, h\<lparr>h_count := occurs ls 0 # counts ls, h_symbol := syms, h_fast := fast\<rparr>) })"
  unfolding build_def count_lengths_counts [OF assms] by (simp add: Let_def del: upt_Suc)

lemma build_built:
  assumes ls: "lengths_ok ls" and h: "code_sizes h"
  shows "\<exists>ok h'. build h ls = Some (ok, h') \<and> built h ls ok h'"
proof -
  note sum = start_of_16 [OF ls]
  obtain syms where s: "place_symbols (0 # offsets_from 0 (counts ls)) (h_symbol h) (enumerate 0 ls) = Some syms"
    "length syms = MAX_SYMS" "placed ls (length ls) syms" "\<forall>v \<in> set syms. v < MAX_SYMS"
    using build_sym [OF ls h] by blast
  have small: "sum_list (counts ls) \<le> MAX_SYMS" using sum ls by (simp add: lengths_ok_def)
  show ?thesis
  proof (cases "occurs ls 0 = length ls \<or> over_subscribed 1 (counts ls)")
    case True
    then show ?thesis using h small
      by (auto simp: build_eq [OF ls] built_def code_sizes_def simp del: upt_Suc)
  next
    case False
    then obtain fast where f: "fill_fast syms 1 0 0 (counts ls) (replicate FAST_SIZE 0) = Some fast" "length fast = FAST_SIZE"
      "\<forall>i < FAST_SIZE. fast ! i = (case hit 1 0 0 (counts ls) i of
         Some (l, k) \<Rightarrow> push_bit 12 l OR syms ! k | None \<Rightarrow> replicate FAST_SIZE 0 ! i)"
      using fill_fast_nth [of 1 "counts ls" 1 0 0 syms "replicate FAST_SIZE 0"] small s(2) by auto
    have "table_ok (h\<lparr>h_count := occurs ls 0 # counts ls, h_symbol := syms, h_fast := fast\<rparr>)"
      using f(2,3) s(2,4) small by (auto simp: table_ok_def split: option.splits)
    then show ?thesis using False s f small
      by (auto simp: build_eq [OF ls] built_def code_sizes_def simp del: upt_Suc)
  qed
qed

lemma first_code_foldl: "n \<le> 15 \<Longrightarrow> foldl (\<lambda>f c. 2 * (f + c)) 0 (take n (counts ls)) = first_code ls (Suc n)"
proof (induction n)
  case (Suc n)
  then show ?case by (simp add: take_Suc_conv_app_nth del: upt_Suc)
qed simp

lemma subscribed_bound:
  assumes "\<not> over_subscribed left cs" "int (2 ^ len) = 2 * left + int first" "n < length cs"
  shows "foldl (\<lambda>f c. 2 * (f + c)) first (take n cs) + cs ! n \<le> 2 ^ (len + n)"
  using assms
proof (induction cs arbitrary: left len first n)
  case (Cons c cs)
  have o: "2 * left - int c \<ge> 0" "\<not> over_subscribed (2 * left - int c) cs"
    using Cons.prems(1) by (auto simp: Let_def split: if_splits)
  show ?case
  proof (cases n)
    case 0
    have "int (first + c) \<le> int (2 ^ len)" using o(1) Cons.prems(2) by simp
    then show ?thesis using 0 by (simp only: of_nat_le_iff) simp
  next
    case (Suc m)
    then show ?thesis using Cons.IH [OF o(2), of "Suc len" "2 * (first + c)" m] Cons.prems by simp
  qed
qed simp

lemma canonical_lwalk:
  assumes "built h ls True h'" "lengths_ok ls" "i < length ls" "0 < ls ! i"
  shows "lwalk (h_symbol h') 0 0 0 (tl (h_count h')) (canonical ls i @ bs) = Some (i, bs)"
proof -
  obtain n where n: "ls ! i = Suc n" "n < 15"
    using assms(4) lengths_okD [OF assms(2), rule_format, OF nth_mem [OF assms(3)]] by (cases "ls ! i") auto
  have b: "tl (h_count h') = counts ls" "placed ls (length ls) (h_symbol h')" "\<not> over_subscribed 1 (counts ls)"
    using assms(1) by (simp_all add: built_def)
  have c: "counts ls ! n = occurs ls (Suc n)" using n(2) by (simp del: upt_Suc)
  have o: "occurs (take i ls) (Suc n) < occurs ls (Suc n)"
    using occurs_take_less [of i "length ls" ls "Suc n"] assms(3) n(1) by simp
  have "first_code ls (Suc n) + occurs ls (Suc n) \<le> 2 ^ Suc n"
    using subscribed_bound [OF b(3), of 1 0 n] first_code_foldl [of n ls] n(2) c by (simp del: upt_Suc first_code.simps)
  moreover have "h_symbol h' ! (start_of ls (Suc n) + occurs (take i ls) (Suc n)) = i"
    using b(2) assms(3) n(1) unfolding placed_def by (metis zero_less_Suc)
  ultimately show ?thesis
    using lwalk_canonical [of n "counts ls" "code_number ls i" 0 _ 0 "h_symbol h'" 0 bs] n o c b(1)
      first_code_foldl [of n ls] sum_counts [of n ls]
    by (simp add: canonical_def code_number_def del: upt_Suc first_code.simps)
qed

section \<open>No input makes it fault\<close>















lemma empty_code_sizes: "code_sizes empty_code"
  by (simp add: code_sizes_def empty_code_def MAX_SYMS_def FAST_SIZE_def sum_list_replicate)




section \<open>The checksum of the gzip wrapper\<close>

lemma and_255: "n AND 255 = n mod 256" for n :: nat
  using take_bit_eq_mask [of 8 n] by (simp add: take_bit_eq_mod mask_eq_exp_minus_1)

lemma bit_crc_shift: "bit (crc_shift c) n \<longleftrightarrow> bit c (Suc n) \<noteq> (bit (0xEDB88320 :: nat) n \<and> bit c 0)"
  by (auto simp: crc_shift_def bit_xor_iff bit_drop_bit_eq bit_0 and_one_eq odd_iff_mod_2_eq_one)

lemma crc_shift_xor: "crc_shift (a XOR b) = crc_shift a XOR crc_shift b"
  by (rule bit_eqI) (auto simp: bit_crc_shift bit_xor_iff)

lemma crc_shifts_xor: "(crc_shift ^^ n) (a XOR b) = (crc_shift ^^ n) a XOR (crc_shift ^^ n) b"
  by (induction n) (simp_all add: crc_shift_xor)

lemma crc_shifts_push: "(crc_shift ^^ n) (push_bit n a) = a"
proof (induction n)
  case (Suc n)
  have "crc_shift (push_bit (Suc n) a) = push_bit n a"
    by (simp add: crc_shift_def push_bit_double and_one_eq drop_bit_eq_div)
  then show ?case using Suc by (simp only: funpow_Suc_right o_apply)
qed simp

text \<open>
  C9. The table-driven CRC-32 of \<^verbatim>\<open>crc32_of\<close> is the one computed a bit at a time: for each byte,
  eight shifts with the polynomial \<^verbatim>\<open>0xEDB88320\<close> after the byte is added into the register.
\<close>

theorem crc32_bitwise:
  "crc32_of xs = (fold (\<lambda>x c. (crc_shift ^^ 8) (c XOR unat x)) xs 0xFFFFFFFF XOR 0xFFFFFFFF) AND 0xFFFFFFFF"
proof -
  have "crc_update x c = (crc_shift ^^ 8) (c XOR unat x)" for x c
  proof -
    define v where "v = c XOR unat x"
    have lo: "v AND 255 < 256" by (simp add: and_255)
    have hi: "drop_bit 8 v = drop_bit 8 c"
      by (rule bit_eqI) (auto simp: v_def bit_xor_iff bit_drop_bit_eq dest: bit_byte)
    have v: "v = (v AND 255) XOR push_bit 8 (drop_bit 8 v)"
    proof (rule bit_eqI)
      fix n
      have "bit (255 :: nat) n \<longleftrightarrow> n < 8" using bit_mask_iff [of 8 n, where 'a = nat] by (simp add: mask_eq_exp_minus_1)
      then show "bit v n = bit ((v AND 255) XOR push_bit 8 (drop_bit 8 v)) n"
        by (cases "n < 8") (simp_all add: bit_xor_iff bit_and_iff bit_push_bit_iff_nat bit_drop_bit_eq)
    qed
    have "(crc_shift ^^ 8) v = (crc_shift ^^ 8) (v AND 255) XOR (crc_shift ^^ 8) (push_bit 8 (drop_bit 8 v))"
      by (subst (1) v) (rule crc_shifts_xor)
    also have "\<dots> = crc_table ! (v AND 255) XOR drop_bit 8 c"
      using lo by (simp only: crc_shifts_push hi) (simp add: crc_table_def)
    finally show ?thesis by (simp add: crc_update_def v_def)
  qed
  then have "crc_update = (\<lambda>x c. (crc_shift ^^ 8) (c XOR unat x))" by (intro ext)
  then show ?thesis by (simp only: crc32_of_def)
qed

section \<open>The guarantees\<close>

text \<open>A code of three symbols with lengths 1, 2 and 2, for the concrete instances.\<close>

lemma build_accepts:
  assumes "lengths_ok ls" "code_sizes h" "occurs ls 0 \<noteq> length ls" "\<not> over_subscribed 1 (counts ls)"
  shows "\<exists>h'. build h ls = Some (True, h')"
proof -
  obtain ok h' where b: "build h ls = Some (ok, h')" using build_built [OF assms(1,2)] by blast
  then have "ok" using assms(3,4) build_eq [OF assms(1), of h] by (auto simp: bind_eq_Some_conv)
  then show ?thesis using b by simp
qed

lemma three_lengths: "lengths_ok [1, 2, 2]"
  by (simp add: lengths_ok_def MAX_BITS_def MAX_SYMS_def)

lemma three_code: "\<exists>h. build empty_code [1, 2, 2] = Some (True, h)"
  by (rule build_accepts [OF three_lengths empty_code_sizes]) (simp_all add: upt_rec)

abbreviation one_byte :: "byte \<Rightarrow> stream" where
  "one_byte x \<equiv> \<lparr>st_in = [x], in_at = 0, bitbuf = 0, bitcount = 0, st_out = [], out_cap = 0, failed = False\<rparr>"


text \<open>
  C5. The lookup table agrees with the bit-by-bit walk: for every code \<^verbatim>\<open>build\<close> accepts and every
  point of a stream, \<^verbatim>\<open>decode\<close> gives the answer of the walk and, when that is a symbol, leaves the
  same bits unread.
\<close>

theorem decode_agrees_with_walk:
  assumes "lengths_ok ls" "code_sizes h" "build h ls = Some (True, h')" "st_ok s" "\<not> failed s"
  shows "\<exists>r s1 s2. decode h' s = Some (r, s1) \<and> decode_slow h' s = Some (r, s2)
    \<and> (r \<noteq> None \<longrightarrow> rest s1 = rest s2 \<and> \<not> failed s1 \<and> \<not> failed s2)"
proof -
  have "table_ok h'" using build_built [OF assms(1,2)] assms(3) by (auto simp: built_def)
  from decode_lwalk [OF this assms(4,5)] slow_lwalk [OF this assms(4,5)] show ?thesis
    by (auto simp: good_walk_def)
qed

theorem decode_agrees_with_walk_witness:
  "\<exists>h r s1 s2. build empty_code [1, 2, 2] = Some (True, h)
    \<and> decode h (one_byte 2) = Some (r, s1) \<and> decode_slow h (one_byte 2) = Some (r, s2)
    \<and> (r \<noteq> None \<longrightarrow> rest s1 = rest s2 \<and> \<not> failed s1 \<and> \<not> failed s2)"
proof -
  obtain h where h: "build empty_code [1, 2, 2] = Some (True, h)" using three_code by blast
  from decode_agrees_with_walk [OF three_lengths empty_code_sizes h, of "one_byte 2"] h show ?thesis
    by (auto simp: st_ok_def)
qed

text \<open>
  C6. Decoding inverts the canonical code: after \<^verbatim>\<open>build\<close> accepts a list of code lengths, a stream that
  starts with the canonical code of symbol \<open>i\<close> (the codes of a length count upwards in symbol order,
  high bit first) decodes to \<open>i\<close>, and exactly that code is consumed.
\<close>

theorem decode_canonical:
  assumes "lengths_ok ls" "code_sizes h" "build h ls = Some (True, h')" "i < length ls" "0 < ls ! i"
    "st_ok s" "\<not> failed s" "rest s = canonical ls i @ bs"
  shows "\<exists>s'. decode h' s = Some (Some i, s') \<and> rest s' = bs \<and> \<not> failed s'"
proof -
  have b: "built h ls True h'" using build_built [OF assms(1,2)] assms(3) by auto
  then have "table_ok h'" by (simp add: built_def)
  from decode_lwalk [OF this assms(6,7)] show ?thesis
    using canonical_lwalk [OF b assms(1,4,5)] assms(8) by (auto simp: good_walk_def)
qed

theorem decode_canonical_witness:
  "\<exists>h s'. build empty_code [1, 2, 2] = Some (True, h) \<and> decode h (one_byte 3) = Some (Some 2, s')
    \<and> rest s' = [False, False, False, False, False, False] \<and> \<not> failed s'"
proof -
  obtain h where h: "build empty_code [1, 2, 2] = Some (True, h)" using three_code by blast
  have r: "rest (one_byte 3) = canonical [1, 2, 2] 2 @ [False, False, False, False, False, False]"
    by code_simp
  from decode_canonical [OF three_lengths empty_code_sizes h _ _ _ _ r] h show ?thesis by (auto simp: st_ok_def)
qed



end
