(* ===== verification/Libc_Image_Laws.thy ===== *)
theory Libc_Image_Laws
  imports Libc_Image Libc_Inflate_Laws
begin

text \<open>
  The PNG writer of \<^verbatim>\<open>user/libc/image.c\<close> against its reader: what the writer produces is a sequence
  of chunks around a stored zlib stream, the decompressor of \<^verbatim>\<open>user/libc/inflate.c\<close> returns the
  scanlines from it, and the reader returns the picture. Also the two checksums against their
  definitions.
\<close>

section \<open>Checksums\<close>

definition sum_step :: "byte \<Rightarrow> nat \<times> nat \<Rightarrow> nat \<times> nat" where
  "sum_step x = (\<lambda>(a, b). let a = (a + unat x) mod 65521 in (a, (b + a) mod 65521))"

lemma sum_step_bounds: "fst (sum_step x ab) < 65521" "snd (sum_step x ab) < 65521"
  by (simp_all add: sum_step_def Let_def split: prod.splits)

lemma mod_once: "x < 2 * m \<Longrightarrow> (if x \<ge> m then x - m else x) = x mod m" for x m :: nat
  by (cases "m \<le> x") (simp_all add: le_mod_geq)

lemma adler_sums_fold: "a < 65521 \<Longrightarrow> b < 65521 \<Longrightarrow> adler_sums a b xs = fold sum_step xs (a, b)"
proof (induction xs arbitrary: a b)
  case (Cons x xs)
  have x: "unat x < 256" using unsigned_less [of x] by simp
  let ?a = "if a + unat x \<ge> 65521 then a + unat x - 65521 else a + unat x"
  have a: "?a = (a + unat x) mod 65521" using Cons.prems(1) x by (intro mod_once) simp
  have b: "(if b + ?a \<ge> 65521 then b + ?a - 65521 else b + ?a) = (b + ?a) mod 65521"
    unfolding a using Cons.prems mod_less_divisor [of 65521 "a + unat x"] by (intro mod_once) linarith
  have "adler_sums a b (x # xs) = adler_sums ((a + unat x) mod 65521) ((b + (a + unat x) mod 65521) mod 65521) xs"
    unfolding adler_sums.simps Let_def a b [unfolded a] ..
  also have "\<dots> = fold sum_step xs ((a + unat x) mod 65521, (b + (a + unat x) mod 65521) mod 65521)"
    by (rule Cons.IH) simp_all
  also have "\<dots> = fold sum_step (x # xs) (a, b)" by (simp add: sum_step_def [of x] Let_def)
  finally show ?case .
qed simp

lemma fold_sum_step_bounds:
  assumes "fst ab < 65521" "snd ab < 65521"
  shows "fst (fold sum_step xs ab) < 65521 \<and> snd (fold sum_step xs ab) < 65521"
  using assms by (induction xs arbitrary: ab) (simp_all add: sum_step_bounds)

section \<open>The buffer\<close>

abbreviation wb :: "nat \<Rightarrow> bytes \<Rightarrow> outbuf" where
  "wb cap d \<equiv> \<lparr>ob_data = d, ob_cap = cap, ob_full = False\<rparr>"

lemma put_all_wb: "length d + length bs \<le> cap \<Longrightarrow> put_all mem bs (wb cap d) = wb cap (d @ bs)"
  unfolding put_all_def by (induction bs arbitrary: d) (simp_all add: put_def)

lemma length_be32_bytes [simp]: "length (be32_bytes v) = 4"
  by (simp add: be32_bytes_def)

lemma begin_chunk_wb:
  "length d + 8 \<le> cap \<Longrightarrow> length type = 4 \<Longrightarrow>
   begin_chunk mem type (wb cap d) = (length d + 8, wb cap (d @ [0, 0, 0, 0] @ type))"
  by (simp add: begin_chunk_def Let_def put_all_wb)

definition png_chunk :: "bytes \<Rightarrow> bytes \<Rightarrow> bytes" where
  "png_chunk type data = be32_bytes (length data) @ type @ data @ be32_bytes (crc32_of (type @ data))"

lemma length_png_chunk: "length type = 4 \<Longrightarrow> length (png_chunk type data) = length data + 12"
  by (simp add: png_chunk_def)

lemma overlay_app: "length src = length old \<Longrightarrow> overlay (pre @ old @ post) (length pre) src = pre @ src @ post"
  by (rule nth_equalityI) (auto simp: overlay_def nth_append)

lemma slice_app: "slice (pre @ mid @ post) (length pre) (length mid) = mid"
  by (rule buffer_eqI) (auto simp: buf_simps byte_at_def nth_append)

lemma slice_app_eq: "n = length pre \<Longrightarrow> m = length mid \<Longrightarrow> slice (pre @ mid @ post) n m = mid"
  using slice_app by simp

lemma chunk_wb:
  assumes "length pre + length data + 12 \<le> cap" "length type = 4"
  shows "chunk mem (length pre + 8) (wb cap (pre @ [0, 0, 0, 0] @ type @ data)) = Some (wb cap (pre @ png_chunk type data))"
proof -
  have o: "overlay (pre @ [0, 0, 0, 0] @ type @ data) (length pre) (be32_bytes (length data))
    = pre @ be32_bytes (length data) @ type @ data" by (rule overlay_app) simp
  have s: "slice (pre @ be32_bytes (length data) @ type @ data) (length pre + 4) (length data + 4) = type @ data"
    using slice_app_eq [of "length pre + 4" "pre @ be32_bytes (length data)" "length data + 4" "type @ data" "[]"] assms(2)
    by simp
  show ?thesis using assms o s
    by (simp add: chunk_def Let_def put_be32_def put_all_wb png_chunk_def)
qed

section \<open>The scanlines\<close>

definition state_pos :: "nat \<Rightarrow> nat \<Rightarrow> nat \<times> nat \<Rightarrow> scan" where
  "state_pos y j ab =
     \<lparr>sc_row = y, sc_col = (if j = 0 then 0 else (j - 1) div 3), sc_ch = (if j = 0 then 0 else (j - 1) mod 3),
      wrote_filter = (j \<noteq> 0), sum_a = fst ab, sum_b = snd ab\<rparr>"

definition byte_pos :: "pixel list \<Rightarrow> nat \<Rightarrow> nat \<Rightarrow> nat \<Rightarrow> byte" where
  "byte_pos px w y j = (if j = 0 then 0 else sample ((j - 1) mod 3) (px ! (y * w + (j - 1) div 3)))"

definition raw_at :: "pixel list \<Rightarrow> nat \<Rightarrow> nat \<Rightarrow> byte" where
  "raw_at px w k = byte_pos px w (k div (1 + w * 3)) (k mod (1 + w * 3))"

lemma scan_byte_pos:
  assumes "j < 1 + w * 3" "0 < w" "y < h" "length px = w * h"
  shows "scan_byte px w (state_pos y j ab) =
    Some (byte_pos px w y j, if j + 1 = 1 + w * 3 then state_pos (y + 1) 0 ab else state_pos y (j + 1) ab)"
proof (cases "j = 0")
  case True
  then show ?thesis using assms(2) by (simp add: scan_byte_def state_pos_def byte_pos_def)
next
  case False
  define c t where ct: "c = (j - 1) div 3" "t = (j - 1) mod 3"
  have j: "j = 3 * c + t + 1" "t < 3" using False by (simp_all add: ct)
  then have c: "c < w" using assms(1) by simp
  have "y * w + c < Suc y * w" using c by simp
  also have "\<dots> \<le> h * w" using assms(3) by (intro mult_le_mono1) simp
  finally have "y * w + c < length px" using assms(4) by (simp add: mult.commute)
  moreover have "(3 * c + t) div 3 = c" "(3 * c + t) mod 3 = t" using j(2) by simp_all
  moreover have "(3 * c + Suc t) div 3 = (if t = 2 then Suc c else c)" "(3 * c + Suc t) mod 3 = (if t = 2 then 0 else Suc t)"
    using j(2) by auto
  ultimately show ?thesis using c j(2)
    by (auto simp: j(1) scan_byte_def state_pos_def byte_pos_def get_def Let_def)
qed

abbreviation state_at :: "nat \<Rightarrow> nat \<Rightarrow> nat \<times> nat \<Rightarrow> scan" where
  "state_at w k ab \<equiv> state_pos (k div (1 + w * 3)) (k mod (1 + w * 3)) ab"

lemma scan_byte_at:
  assumes "0 < w" "k < (1 + w * 3) * h" "length px = w * h"
  shows "scan_byte px w (state_at w k ab) = Some (raw_at px w k, state_at w (Suc k) ab)"
proof -
  have "k div (1 + w * 3) < h" using assms(2) by (simp add: less_mult_imp_div_less mult.commute)
  then show ?thesis
    using scan_byte_pos [of "k mod (1 + w * 3)" w "k div (1 + w * 3)" h px ab] assms(1,3)
    by (simp add: raw_at_def mod_Suc div_Suc)
qed

lemma add_sums_pos: "add_sums b (state_pos y j ab) = state_pos y j (sum_step b ab)"
  by (cases ab) (simp add: add_sums_def state_pos_def sum_step_def Let_def)

lemma scan_bytes_at:
  assumes "0 < w" "k + n \<le> (1 + w * 3) * h" "length px = w * h" "length d + n \<le> cap"
  shows "scan_bytes mem px w n (state_at w k ab) (wb cap d) =
    Some (state_at w (k + n) (fold sum_step (map (raw_at px w) [k ..< k + n]) ab), wb cap (d @ map (raw_at px w) [k ..< k + n]))"
  using assms(2,4)
proof (induction n arbitrary: k ab d)
  case (Suc n)
  have p: "put mem (raw_at px w k) (wb cap d) = wb cap (d @ [raw_at px w k])"
    using put_all_wb [of d "[raw_at px w k]" cap mem] Suc.prems(2) by (simp add: put_all_def)
  have u: "[k ..< k + Suc n] = k # [Suc k ..< Suc k + n]" by (simp add: upt_conv_Cons)
  have b: "scan_byte px w (state_at w k ab) = Some (raw_at px w k, state_at w (Suc k) ab)"
    using scan_byte_at [OF assms(1) _ assms(3)] Suc.prems(1) by simp
  show ?case unfolding scan_bytes.simps b u
    using Suc.IH [of "Suc k" "d @ [raw_at px w k]" "sum_step (raw_at px w k) ab"] Suc.prems p
    by (simp add: add_sums_pos del: upt_Suc mult_Suc)
qed simp

text \<open>The stored form of a deflate stream.\<close>

function stored_of :: "bytes \<Rightarrow> bytes" where
  "stored_of xs = (if xs = [] then []
     else block_head (length xs \<le> 65535) (min 65535 (length xs)) @ take 65535 xs @ stored_of (drop 65535 xs))"
  by pat_completeness auto
termination by (relation "measure length") auto

declare stored_of.simps [simp del]

lemma length_block_head [simp]: "length (block_head f n) = 5"
  by (simp add: block_head_def)

lemma length_stored_of: "xs \<noteq> [] \<Longrightarrow> length (stored_of xs) \<le> length xs + 5 + 5 * (length xs div 65535)"
proof (induction xs rule: stored_of.induct)
  case (1 xs)
  have s: "length (stored_of xs) = 5 + min 65535 (length xs) + length (stored_of (drop 65535 xs))"
    using 1(2) by (subst stored_of.simps) simp
  show ?case
  proof (cases "length xs \<le> 65535")
    case True
    then have "stored_of (drop 65535 xs) = []" by (subst stored_of.simps) simp
    then show ?thesis using s by simp
  next
    case False
    then have "length xs div 65535 = Suc ((length xs - 65535) div 65535)" by (simp add: le_div_geq)
    then show ?thesis using 1(1) [OF 1(2)] False s by simp
  qed
qed

lemma put_blocks_at:
  assumes "0 < w" "length px = w * h" "n = (1 + w * 3) * h" "k \<le> n"
    "length d + length (stored_of (map (raw_at px w) [k ..< n])) \<le> cap"
  shows "put_blocks mem px w n k (state_at w k ab) (wb cap d) =
    Some (state_at w n (fold sum_step (map (raw_at px w) [k ..< n]) ab),
          wb cap (d @ stored_of (map (raw_at px w) [k ..< n])))"
  using assms(4,5)
proof (induction "n - k" arbitrary: k ab d rule: less_induct)
  case less
  show ?case
  proof (cases "k < n")
    case True
    define b where "b = (if n - k > 65535 then 65535 else n - k)"
    let ?xs = "map (raw_at px w) [k ..< n]"
    have b: "0 < b" "k + b \<le> n" "b = min 65535 (n - k)" "(k + b = n) = (n - k \<le> 65535)"
      using True by (auto simp: b_def)
    have tk: "take 65535 ?xs = map (raw_at px w) [k ..< k + b]" "drop 65535 ?xs = map (raw_at px w) [k + b ..< n]"
      using b(3) True by (auto simp: take_map drop_map min_def)
    have st: "stored_of ?xs = block_head (k + b = n) b @ map (raw_at px w) [k ..< k + b] @ stored_of (map (raw_at px w) [k + b ..< n])"
      using True by (subst stored_of.simps) (simp add: tk flip: b(3,4))
    have len: "length d + 5 + b + length (stored_of (map (raw_at px w) [k + b ..< n])) \<le> cap"
      using less.prems(2) st by simp
    have sc: "scan_bytes mem px w b (state_at w k ab) (put_all mem (block_head (k + b = n) b) (wb cap d)) =
      Some (state_at w (k + b) (fold sum_step (map (raw_at px w) [k ..< k + b]) ab),
        wb cap ((d @ block_head (k + b = n) b) @ map (raw_at px w) [k ..< k + b]))"
      using scan_bytes_at [OF assms(1) _ assms(2), of k b "d @ block_head (k + b = n) b" cap mem ab] b len assms(3)
      by (simp add: put_all_wb)
    have u: "[k ..< n] = [k ..< k + b] @ [k + b ..< n]" using b upt_add_eq_append [of k "k + b" "n - (k + b)"] by simp
    have "put_blocks mem px w n k (state_at w k ab) (wb cap d) =
      put_blocks mem px w n (k + b) (state_at w (k + b) (fold sum_step (map (raw_at px w) [k ..< k + b]) ab))
        (wb cap ((d @ block_head (k + b = n) b) @ map (raw_at px w) [k ..< k + b]))"
      using True sc by (subst put_blocks.simps) (simp add: Let_def flip: b_def)
    also have "\<dots> = Some (state_at w n (fold sum_step (map (raw_at px w) [k + b ..< n])
          (fold sum_step (map (raw_at px w) [k ..< k + b]) ab)),
        wb cap (((d @ block_head (k + b = n) b) @ map (raw_at px w) [k ..< k + b]) @ stored_of (map (raw_at px w) [k + b ..< n])))"
      by (rule less.hyps) (use b(1,2) len in simp_all)
    also have "fold sum_step (map (raw_at px w) [k + b ..< n]) (fold sum_step (map (raw_at px w) [k ..< k + b]) ab)
      = fold sum_step ?xs ab" by (simp add: u)
    finally show ?thesis by (simp add: st)
  next
    case False
    then have "stored_of (map (raw_at px w) [k ..< n]) = []" by (subst stored_of.simps) simp
    then show ?thesis using False less.prems by (subst put_blocks.simps) simp
  qed
qed

section \<open>Decompressing a stored stream\<close>

lemma xor_ones:
  assumes "n \<le> (65535::nat)"
  shows "n XOR 65535 = 65535 - n"
proof -
  have m: "(65535::nat) = mask 16" by (simp add: mask_eq_exp_minus_1)
  have b: "bit n j \<Longrightarrow> j < 16" for j using bit_less_exp [of n 16 j] assms by simp
  have "(n XOR 65535) + n = (n XOR 65535) OR n"
    by (rule disjunctive_add_eq_or, rule bit_eqI) (auto simp: bit_and_iff bit_xor_iff m bit_mask_iff dest: b)
  also have "\<dots> = 65535"
    by (rule bit_eqI) (auto simp: bit_or_iff bit_xor_iff m bit_mask_iff dest: b)
  finally show ?thesis by simp
qed

lemma unat_byte: "n < 256 \<Longrightarrow> unat (of_nat n :: byte) = n"
  by (simp add: unat_of_nat)

lemma block_head_fields:
  assumes "n \<le> 65535"
  shows "unat (block_head f n ! 1) + 256 * unat (block_head f n ! 2) = n"
    "unat (block_head f n ! 3) + 256 * unat (block_head f n ! 4) = 65535 - n"
proof -
  have d: "n div 256 < 256" using assms by simp
  define q r where qr: "q = n div 256" "r = n mod 256"
  have n: "n = 256 * q + r" "q < 256" "r < 256" using assms by (simp_all add: qr)
  obtain q' r' where qr': "q' = 255 - q" "r' = 255 - r" by blast
  have "4294967295 - n = (q' + 65535 * 256) * 256 + r'" "q' < 256" "r' < 256" using n by (simp_all add: qr')
  then have "(4294967295 - n) mod 256 = r'" "(4294967295 - n) div 256 mod 256 = q'"
    by (simp_all only: mod_mult_self3 div_mult_self3 mod_mult_self1 mod_less div_less add_0_right zero_neq_numeral not_False_eq_True)
  then have c: "(4294967295 - n) mod 256 = 255 - n mod 256" "(4294967295 - n) div 256 mod 256 = 255 - n div 256"
    by (simp_all add: qr qr')
  have "unat (block_head f n ! 1) = n mod 256" "unat (block_head f n ! 2) = n div 256"
    using d by (simp_all add: block_head_def and_255 drop_bit_eq_div unat_byte)
  then show "unat (block_head f n ! 1) + 256 * unat (block_head f n ! 2) = n" by simp
  have "block_head f n ! 3 = of_nat ((4294967295 - n) mod 256)" "block_head f n ! 4 = of_nat ((4294967295 - n) div 256 mod 256)"
    by (simp_all add: block_head_def and_255 drop_bit_eq_div)
  then have "unat (block_head f n ! 3) = 255 - n mod 256" "unat (block_head f n ! 4) = 255 - n div 256"
    unfolding c using unat_byte [of "255 - n mod 256"] unat_byte [of "255 - n div 256"] by simp_all
  moreover have "255 - n mod 256 + 256 * (255 - n div 256) = 65535 - n" using n by (simp add: qr [symmetric])
  ultimately show "unat (block_head f n ! 3) + 256 * unat (block_head f n ! 4) = 65535 - n" by (simp only:)
qed

abbreviation at_stream :: "bytes \<Rightarrow> nat \<Rightarrow> bytes \<Rightarrow> nat \<Rightarrow> stream" where
  "at_stream input at out cap \<equiv>
     \<lparr>st_in = input, in_at = at, bitbuf = 0, bitcount = 0, st_out = out, out_cap = cap, failed = False\<rparr>"

lemma header_bits:
  assumes "at < length input" "input ! at = (if f then 1 else 0)"
  shows "bits (Suc 0) (at_stream input at out cap) =
      (of_bool f, (at_stream input (Suc at) out cap)\<lparr>bitbuf := 0, bitcount := 7\<rparr>)"
    "bits 2 ((at_stream input (Suc at) out cap)\<lparr>bitbuf := 0, bitcount := 7\<rparr>) =
      (0, (at_stream input (Suc at) out cap)\<lparr>bitbuf := 0, bitcount := 5\<rparr>)"
proof -
  let ?s = "(at_stream input (Suc at) out cap)\<lparr>bitbuf := of_bool f, bitcount := 8\<rparr>"
  have "fill_bits (Suc 0) (at_stream input at out cap) = fill_bits (Suc 0) ?s"
    using assms by (subst fill_bits.simps) (simp add: take_byte_def)
  also have "\<dots> = ?s" by (subst fill_bits.simps) simp
  finally show "bits (Suc 0) (at_stream input at out cap) =
      (of_bool f, (at_stream input (Suc at) out cap)\<lparr>bitbuf := 0, bitcount := 7\<rparr>)"
    by (cases f) (simp_all add: bits_def take_bit_Suc drop_bit_Suc)
  have "fill_bits 2 ((at_stream input (Suc at) out cap)\<lparr>bitbuf := 0, bitcount := 7\<rparr>)
    = (at_stream input (Suc at) out cap)\<lparr>bitbuf := 0, bitcount := 7\<rparr>" by (subst fill_bits.simps) simp
  then show "bits 2 ((at_stream input (Suc at) out cap)\<lparr>bitbuf := 0, bitcount := 7\<rparr>) =
      (0, (at_stream input (Suc at) out cap)\<lparr>bitbuf := 0, bitcount := 5\<rparr>)"
    by (simp add: bits_def)
qed

lemma stored_block_at:
  assumes "input = pre @ block_head f (length data) @ data @ post" "length data \<le> 65535"
    "length out + length data \<le> cap" "at = length pre"
  shows "stored_block ((at_stream input (Suc at) out cap)\<lparr>bitbuf := b, bitcount := n\<rparr>) =
    (True, at_stream input (at + 5 + length data) (out @ data) cap)"
proof -
  have i: "input ! (at + k) = block_head f (length data) ! k" if "k < 5" for k
    using that by (simp add: assms(1,4) nth_append)
  have "input ! (Suc at) = block_head f (length data) ! 1" "input ! (Suc at + 1) = block_head f (length data) ! 2"
    "input ! (Suc at + 2) = block_head f (length data) ! 3" "input ! (Suc at + 3) = block_head f (length data) ! 4"
    using i [of 1] i [of 2] i [of 3] i [of 4] by (simp_all add: numeral_eq_Suc)
  note h = this
  have l: "at + 5 + length data \<le> length input" by (simp add: assms(1,4))
  have d: "take (length data) (drop (at + 5) input) = data" by (simp add: assms(1,4))
  have e: "unat (input ! Suc at) + 256 * unat (input ! (Suc at + 1)) = length data"
    "unat (input ! (Suc at + 2)) + 256 * unat (input ! (Suc at + 3)) = 65535 - length data"
    unfolding h by (rule block_head_fields [OF assms(2)])+
  show ?thesis
    unfolding stored_block_def Let_def
    using l d e xor_ones [OF assms(2)] assms(3) by (simp add: add.commute)
qed

lemma inflate_stored:
  assumes "xs \<noteq> []" "length out + length xs \<le> cap"
  shows "inflate_blocks c (at_stream (pre @ stored_of xs @ post) (length pre) out cap) = Some (Some (out @ xs), c)"
  using assms
proof (induction xs arbitrary: pre out rule: stored_of.induct)
  case (1 xs)
  let ?f = "length xs \<le> 65535" and ?d = "take 65535 xs"
  let ?in = "pre @ stored_of xs @ post"
  have s: "?in = pre @ block_head ?f (length ?d) @ ?d @ stored_of (drop 65535 xs) @ post"
    using 1(2) by (subst stored_of.simps) (simp add: min.commute)
  have h: "length pre < length ?in" "?in ! length pre = (if ?f then 1 else 0)"
    unfolding s by (simp_all add: nth_append block_head_def)
  have o: "length out + length ?d \<le> cap" using 1(3) by simp
  note b = header_bits [OF h, of out cap]
  note sb = stored_block_at [OF s _ o refl, of 5 0]
  have e: "inflate_blocks c (at_stream ?in (length pre) out cap) =
    (if ?f then Some (Some (out @ ?d), c)
     else inflate_blocks c (at_stream ?in (length pre + 5 + length ?d) (out @ ?d) cap))"
    using b sb by (subst inflate_blocks.simps) (simp add: inflate_block_def)
  show ?case
  proof (cases ?f)
    case True
    then show ?thesis using e by simp
  next
    case False
    let ?pre = "pre @ block_head ?f (length ?d) @ ?d"
    have i: "?in = ?pre @ stored_of (drop 65535 xs) @ post" using s by simp
    have l: "length pre + 5 + length ?d = length ?pre" by simp
    have "inflate_blocks c (at_stream ?in (length pre + 5 + length ?d) (out @ ?d) cap) = Some (Some ((out @ ?d) @ drop 65535 xs), c)"
      unfolding i l by (rule "1.IH") (use 1(2,3) False in auto)
    then show ?thesis using e False by simp
  qed
qed

section \<open>The zlib stream\<close>

lemma byte_at_app:
  "byte_at (pre @ mid) (length pre + k) = byte_at mid k"
  "k < length mid \<Longrightarrow> byte_at (mid @ post) k = byte_at mid k"
  by (auto simp: byte_at_def nth_append)

lemma byte_at_Cons [simp]:
  "byte_at (x # xs) 0 = x" "byte_at (x # xs) (Suc n) = byte_at xs n"
  "byte_at (x # xs) (numeral v) = byte_at xs (pred_numeral v)"
  by (simp_all add: byte_at_def numeral_eq_Suc)

lemma be32_join:
  assumes "v < 2 ^ 32"
  shows "push_bit 24 (take_bit 8 (drop_bit 24 v)) OR push_bit 16 (take_bit 8 (drop_bit 16 v))
    OR push_bit 8 (take_bit 8 (drop_bit 8 v)) OR take_bit 8 v = (v::nat)"
proof (rule bit_eqI)
  fix j :: nat
  have big: "\<not> j < 32 \<Longrightarrow> \<not> bit v j" using bit_less_exp [OF assms, of j] by blast
  consider "j < 8" | "8 \<le> j" "j < 16" | "16 \<le> j" "j < 24" | "24 \<le> j" "j < 32" | "\<not> j < 32" by linarith
  then show "bit (push_bit 24 (take_bit 8 (drop_bit 24 v)) OR push_bit 16 (take_bit 8 (drop_bit 16 v))
    OR push_bit 8 (take_bit 8 (drop_bit 8 v)) OR take_bit 8 v) j = bit v j"
    unfolding bit_or_iff bit_push_bit_iff_nat bit_take_bit_iff bit_drop_bit_eq comp_def
    using big by cases (simp_all add: less_diff_conv2)
qed

lemma be32_at_bytes: "v < 2 ^ 32 \<Longrightarrow> be32_at (be32_bytes v @ post) 0 = v"
  using be32_join [of v]
  by (simp add: be32_at_def be32_bytes_def unsigned_of_nat)

lemma be32_at_app: "n = length pre + k \<Longrightarrow> be32_at (pre @ mid) n = be32_at mid k"
  unfolding be32_at_def by (simp only: byte_at_app add.assoc)

lemma be32_at_app_bytes: "v < 2 ^ 32 \<Longrightarrow> n = length pre \<Longrightarrow> be32_at (pre @ be32_bytes v @ post) n = v"
  using be32_at_app [of n pre 0 "be32_bytes v @ post"] be32_at_bytes by simp

lemma adler32_of_fold: "adler32_of xs = (let (a, b) = fold sum_step xs (1, 0) in push_bit 16 b OR a)"
  by (simp add: adler32_of_def adler_sums_fold)

lemma adler32_bound: "adler32_of xs < 2 ^ 32"
proof -
  obtain a b where f: "fold sum_step xs (1, 0) = (a, b)" by fastforce
  have ab: "a < 2 ^ 16" "b < 2 ^ 16" using fold_sum_step_bounds [of "(1, 0)" xs] f by simp_all
  have "push_bit 16 b OR a < 2 ^ 32"
  proof (rule exp_if_bits)
    fix i
    assume "bit (push_bit 16 b OR a) i"
    then show "i < 32" using bit_less_exp [OF ab(1), of i] bit_less_exp [OF ab(2), of "i - 16"]
      by (auto simp: bit_or_iff bit_push_bit_iff)
  qed
  then show ?thesis unfolding adler32_of_fold f by simp
qed

definition zlib_stored :: "bytes \<Rightarrow> bytes" where
  "zlib_stored xs = [0x78, 0x01] @ stored_of xs @ be32_bytes (adler32_of xs)"

lemma inflate_zlib_stored:
  assumes "xs \<noteq> []" "length xs \<le> cap"
  shows "inflate_zlib c (zlib_stored xs) cap = Some (Some xs, c)"
proof -
  have r: "inflate_raw c (drop 2 (zlib_stored xs)) cap = Some (Some xs, c)"
    using inflate_stored [of xs "[]" cap c "[]" "be32_bytes (adler32_of xs)"] assms
    by (simp add: inflate_raw_def zlib_stored_def)
  have l: "length (zlib_stored xs) = length ([0x78, 0x01] @ stored_of xs) + 4" by (simp add: zlib_stored_def)
  have t: "be32_at (zlib_stored xs) (length (zlib_stored xs) - 4) = adler32_of xs"
    using be32_at_app_bytes [OF adler32_bound [of xs], of "length (zlib_stored xs) - 4" "[0x78, 0x01] @ stored_of xs" "[]"]
    by (simp add: l) (simp add: zlib_stored_def)
  have h: "unat (byte_at (zlib_stored xs) 0) = 0x78" "unat (byte_at (zlib_stored xs) 1) = 0x01"
    by (simp_all add: zlib_stored_def)
  have n: "\<not> length (zlib_stored xs) < 6" by (simp add: zlib_stored_def)
  show ?thesis unfolding inflate_zlib_def Let_def h using n r t by simp
qed

section \<open>What the writer writes\<close>

abbreviation raw_lines :: "pixel list \<Rightarrow> nat \<Rightarrow> nat \<Rightarrow> bytes" where
  "raw_lines px w h \<equiv> map (raw_at px w) [0 ..< (1 + w * 3) * h]"

definition png_file :: "pixel list \<Rightarrow> nat \<Rightarrow> nat \<Rightarrow> bytes" where
  "png_file px w h = png_sig @ png_chunk IHDR (be32_bytes w @ be32_bytes h @ [8, 2, 0, 0, 0])
     @ png_chunk IDAT (zlib_stored (raw_lines px w h)) @ png_chunk IEND []"

definition png_room :: "nat \<Rightarrow> nat \<Rightarrow> nat" where
  "png_room w h = (let raw = (1 + w * 3) * h in raw + raw div 4096 + 4096)"

lemma length_zlib_stored:
  assumes "xs \<noteq> []"
  shows "length (zlib_stored xs) + 64 \<le> length xs + length xs div 4096 + 4096"
proof -
  have "15 * (n div 65535) \<le> n div 4096" for n :: nat
  proof -
    have "4096 * (15 * (n div 65535)) \<le> 65535 * (n div 65535)" by simp
    also have "\<dots> \<le> n" by simp
    finally show ?thesis by (simp add: less_eq_div_iff_mult_less_eq mult.commute)
  qed
  from this [of "length xs"] show ?thesis using length_stored_of [OF assms] by (simp add: zlib_stored_def)
qed

lemma reserve_wb:
  assumes "mem n" "0 < n"
  shows "\<exists>cap \<ge> n. reserve mem n ob = wb cap []"
  using assms
  by (cases ob) (auto simp: reserve_def Let_def intro: exI [of _ "if n \<le> ob_cap ob then ob_cap ob else n"])

lemma write_png_file:
  assumes wh: "0 < w" "0 < h" "length px = w * h" and small: "png_room w h < 2 ^ 64" and mem: "mem (png_room w h)"
  shows "img_write_png mem ob px w h = Some (Some (png_file px w h))"
proof -
  let ?raw = "(1 + w * 3) * h" and ?xs = "raw_lines px w h"
  have raw: "?raw < 2 ^ 64" "0 < ?raw" using small wh by (simp_all add: png_room_def Let_def)
  have ne: "?xs \<noteq> []" using raw(2) by simp
  obtain cap where cap: "cap \<ge> png_room w h" "reserve mem (png_room w h) ob = wb cap []"
    using reserve_wb [of mem "png_room w h" ob] mem by (auto simp: png_room_def Let_def)
  have room: "length (zlib_stored ?xs) + 64 \<le> cap"
    using length_zlib_stored [OF ne] cap(1) by (simp add: png_room_def Let_def)
  let ?ih = "be32_bytes w @ be32_bytes h @ [8, 2, 0, 0, 0]"
  let ?d1 = "png_sig @ png_chunk IHDR ?ih"
  have l1: "length png_sig = 8" "length ?d1 = 33" by (simp_all add: png_sig_def length_png_chunk)
  define sums where "sums = fold sum_step ?xs (1, 0)"
  let ?z0 = "?d1 @ [0, 0, 0, 0] @ IDAT @ [0x78, 0x01]"
  have st: "state_pos 0 0 (1, 0) = \<lparr>sc_row = 0, sc_col = 0, sc_ch = 0, wrote_filter = False, sum_a = 1, sum_b = 0\<rparr>"
    by (simp add: state_pos_def)
  have pb: "put_blocks mem px w ?raw 0 (state_pos 0 0 (1, 0)) (wb cap ?z0) =
    Some (state_at w ?raw sums, wb cap (?z0 @ stored_of ?xs))"
    using put_blocks_at [OF wh(1,3) refl, of 0 ?z0 cap mem "(1, 0)"] room l1
    by (simp add: zlib_stored_def sums_def)
  have ad: "push_bit 16 (sum_b (state_at w ?raw sums)) OR sum_a (state_at w ?raw sums) = adler32_of ?xs"
    unfolding adler32_of_fold sums_def [symmetric] by (simp add: state_pos_def split: prod.split)
  have ih: "chunk mem 16 (wb cap (png_sig @ [0, 0, 0, 0] @ IHDR @ ?ih)) = Some (wb cap ?d1)"
    using chunk_wb [of png_sig ?ih cap IHDR mem] room l1 by simp
  have id: "chunk mem 41 (wb cap (?d1 @ [0, 0, 0, 0] @ IDAT @ zlib_stored ?xs)) =
      Some (wb cap (?d1 @ png_chunk IDAT (zlib_stored ?xs)))"
    using chunk_wb [of ?d1 "zlib_stored ?xs" cap IDAT mem] room l1 by simp
  let ?d2 = "?d1 @ png_chunk IDAT (zlib_stored ?xs)"
  have l2: "length ?d2 = 45 + length (zlib_stored ?xs)" using l1 by (simp add: length_png_chunk)
  have ie: "chunk mem (length ?d2 + 8) (wb cap (?d2 @ [0, 0, 0, 0] @ IEND)) = Some (wb cap (png_file px w h))"
    using chunk_wb [of ?d2 "[]" cap IEND mem] room l2 by (simp add: png_file_def)
  have "cap \<noteq> 0" using room by simp
  then show ?thesis
    unfolding img_write_png_def Let_def
    using wh raw small cap(2) l1 l2 room pb [unfolded st] ad ih id ie
    by (simp add: png_room_def Let_def put_all_wb begin_chunk_wb put_be32_def flush_def zlib_stored_def)
qed

section \<open>Reading it back\<close>

lemma read_chunks_chunk:
  assumes "file = pre @ png_chunk type data @ post" "length type = 4" "length data < 2 ^ 32" "i = length pre"
  shows "read_chunks file i p = read_chunks file (i + 12 + length data) (take_chunk type data p)"
proof -
  obtain p1 p2 p3 where f: "file = pre @ be32_bytes (length data) @ p1"
    "file = (pre @ be32_bytes (length data)) @ type @ p2"
    "file = (pre @ be32_bytes (length data) @ type) @ data @ p3"
    by (simp add: assms(1) png_chunk_def)
  have c: "be32_at file i = length data" unfolding f(1) by (rule be32_at_app_bytes [OF assms(3,4)])
  have t: "slice file (i + 4) 4 = type" unfolding f(2) by (rule slice_app_eq) (simp_all add: assms(2,4))
  have d: "slice file (i + 8) (length data) = data" unfolding f(3) by (rule slice_app_eq) (simp_all add: assms(2,4))
  have l: "i + 12 + length data \<le> length file" using assms by (simp add: length_png_chunk)
  show ?thesis using c t d l by (subst read_chunks.simps) (simp add: Let_def)
qed

lemma read_chunks_end: "length file < i + 12 \<Longrightarrow> read_chunks file i p = p"
  by (subst read_chunks.simps) simp

lemma bit_byte_255: "bit (255 :: byte) n \<longleftrightarrow> n < 8"
proof -
  have m: "(255 :: byte) = mask 8" by (simp add: mask_eq_exp_minus_1)
  show ?thesis unfolding m bit_mask_iff by auto
qed

lemma bit_opaque: "bit (0xFF000000 :: pixel) n \<longleftrightarrow> 24 \<le> n \<and> n < 32"
proof -
  have m: "(0xFF000000 :: pixel) = push_bit 24 (mask 8)" by (simp add: mask_eq_exp_minus_1)
  show ?thesis unfolding m bit_push_bit_iff bit_mask_iff by auto
qed

lemma rgba_channels: "rgba 0xFF (sample 0 p) (sample 1 p) (sample 2 p) = p OR 0xFF000000"
proof (rule bit_word_eqI)
  fix n
  assume n: "n < LENGTH(32)"
  consider "n < 8" | "8 \<le> n" "n < 16" | "16 \<le> n" "n < 24" | "24 \<le> n" by linarith
  then show "bit (rgba 0xFF (sample 0 p) (sample 1 p) (sample 2 p)) n = bit (p OR 0xFF000000) n"
    unfolding rgba_def sample_def bit_or_iff bit_push_bit_iff bit_unsigned_iff bit_opaque bit_byte_255
    using n by cases (simp_all add: bit_unsigned_iff bit_drop_bit_eq less_diff_conv2)
qed

lemma row_pos: "j < b \<Longrightarrow> (y * b + j) div b = y" "j < b \<Longrightarrow> (y * b + j) mod b = j" for j b y :: nat
  by simp_all

lemma raw_at_pos: "j < 1 + w * 3 \<Longrightarrow> raw_at px w (y * (1 + w * 3) + j) = byte_pos px w y j"
  unfolding raw_at_def by (simp only: row_pos)

lemma png_pixel_row:
  assumes "pi_colour p = 2" "x < w"
    "row = map (raw_at px w) [y * (1 + w * 3) + 1 ..< y * (1 + w * 3) + 1 + w * 3]"
  shows "png_pixel p row x = px ! (y * w + x) OR 0xFF000000"
proof -
  have "row ! (x * 3 + k) = sample k (px ! (y * w + x))" if "k < 3" for k
  proof -
    have "row ! (x * 3 + k) = raw_at px w (y * (1 + w * 3) + (1 + (x * 3 + k)))"
      using that assms(2) by (simp add: assms(3) add.assoc del: upt_Suc)
    also have "\<dots> = byte_pos px w y (1 + (x * 3 + k))" using that assms(2) by (intro raw_at_pos) simp
    also have "\<dots> = sample k (px ! (y * w + x))" using that by (simp add: byte_pos_def)
    finally show ?thesis .
  qed
  from this [of 0] this [of 1] this [of 2] show ?thesis
    using assms(1) by (simp add: png_pixel_def bytes_per_pixel_def flip: rgba_channels)
qed

lemma upt_split: "a < b \<Longrightarrow> b \<le> m \<Longrightarrow> [a ..< m] = a # [a + 1 ..< b] @ [b ..< m]"
  using upt_add_eq_append [of a b "m - b"] upt_conv_Cons [of a b] by simp

lemma png_rows_raw:
  assumes p: "pi_colour p = 2" "pi_w p = w" and px: "length px = w * h" and y: "y \<le> h"
  shows "png_rows p (map (raw_at px w) [y * (1 + w * 3) ..< h * (1 + w * 3)]) (w * 3) (h - y) prev =
    Some (map (\<lambda>q. q OR 0xFF000000) (drop (y * w) px))"
  using y
proof (induction "h - y" arbitrary: y prev)
  case 0
  then show ?case using px by (simp add: mult.commute)
next
  case (Suc n)
  define rb where "rb = 1 + w * 3"
  have rb: "0 < rb" by (simp add: rb_def)
  have y: "y < h" "n = h - Suc y" using Suc.hyps(2) by simp_all
  have le: "y * rb + rb \<le> h * rb" using y(1) mult_le_mono1 [of "Suc y" h rb] by simp
  have u: "[y * rb ..< h * rb] = y * rb # [y * rb + 1 ..< y * rb + rb] @ [Suc y * rb ..< h * rb]"
    using upt_split [OF _ le] rb by (simp add: add.commute del: upt_Suc)
  let ?row = "map (raw_at px w) [y * (1 + w * 3) + 1 ..< y * (1 + w * 3) + 1 + w * 3]"
  have tk: "take (w * 3) (tl (map (raw_at px w) [y * rb ..< h * rb])) = ?row"
    unfolding u by (simp add: rb_def)
  have dr: "drop (w * 3 + 1) (map (raw_at px w) [y * rb ..< h * rb]) = map (raw_at px w) [Suc y * rb ..< h * rb]"
    unfolding u by (simp add: rb_def)
  have hd: "hd (map (raw_at px w) [y * rb ..< h * rb]) = 0"
    unfolding u using raw_at_pos [of 0 w px y] by (simp add: rb_def byte_pos_def)
  have px_row: "map (png_pixel p ?row) [0 ..< w] = map (\<lambda>q. q OR 0xFF000000) (take w (drop (y * w) px))"
  proof (rule nth_equalityI)
    have "Suc y * w \<le> h * w" using y(1) by (intro mult_le_mono1) simp
    then show l: "length (map (png_pixel p ?row) [0 ..< w]) = length (map (\<lambda>q. q OR 0xFF000000) (take w (drop (y * w) px)))"
      using px by (simp add: mult.commute)
    fix x assume "x < length (map (png_pixel p ?row) [0 ..< w])"
    then show "map (png_pixel p ?row) [0 ..< w] ! x = map (\<lambda>q. q OR 0xFF000000) (take w (drop (y * w) px)) ! x"
      using png_pixel_row [OF p(1) _ refl, of x w px y] l by (simp del: upt_Suc)
  qed
  have ih: "png_rows p (map (raw_at px w) [Suc y * rb ..< h * rb]) (w * 3) n (Some ?row) =
    Some (map (\<lambda>q. q OR 0xFF000000) (drop (Suc y * w) px))"
    using Suc.hyps(1) [OF y(2), of "Some ?row"] y by (simp add: rb_def)
  have uf: "unfilter ?row prev (bytes_per_pixel (pi_colour p)) 0 = Some ?row" by (simp add: unfilter_def)
  have dd: "drop (y * w) px = take w (drop (y * w) px) @ drop (Suc y * w) px"
    using append_take_drop_id [of w "drop (y * w) px"] by (simp add: add.commute)
  have "png_rows p (map (raw_at px w) [y * rb ..< h * rb]) (w * 3) (Suc n) prev =
    Some (map (png_pixel p ?row) [0 ..< w] @ map (\<lambda>q. q OR 0xFF000000) (drop (Suc y * w) px))"
    unfolding png_rows.simps tk dr hd uf option.case ih p(2) by simp
  also have "\<dots> = Some (map (\<lambda>q. q OR 0xFF000000) (drop (y * w) px))" unfolding px_row by (subst dd) simp
  finally show ?case using Suc.hyps(2) by (simp add: rb_def)
qed

lemma png_file_split:
  "png_file px w h = png_sig @ png_chunk IHDR (be32_bytes w @ be32_bytes h @ [8, 2, 0, 0, 0])
     @ (png_chunk IDAT (zlib_stored (raw_lines px w h)) @ png_chunk IEND [])"
  "png_file px w h = (png_sig @ png_chunk IHDR (be32_bytes w @ be32_bytes h @ [8, 2, 0, 0, 0]))
     @ png_chunk IDAT (zlib_stored (raw_lines px w h)) @ png_chunk IEND []"
  "png_file px w h = (png_sig @ png_chunk IHDR (be32_bytes w @ be32_bytes h @ [8, 2, 0, 0, 0])
     @ png_chunk IDAT (zlib_stored (raw_lines px w h))) @ png_chunk IEND [] @ []"
  by (simp_all add: png_file_def)

lemma read_png_chunks:
  assumes "w < 2 ^ 32" "h < 2 ^ 32" "length (zlib_stored (raw_lines px w h)) < 2 ^ 32"
  shows "read_chunks (png_file px w h) 8 no_info =
    no_info\<lparr>pi_w := w, pi_h := h, pi_depth := 8, pi_colour := 2, pi_interlace := 0,
      pi_idat := Some (zlib_stored (raw_lines px w h))\<rparr>"
proof -
  let ?f = "png_file px w h" and ?z = "zlib_stored (raw_lines px w h)"
  let ?ih = "be32_bytes w @ be32_bytes h @ [8, 2, 0, 0, 0]"
  let ?p1 = "no_info\<lparr>pi_w := w, pi_h := h, pi_depth := 8, pi_colour := 2, pi_interlace := 0\<rparr>"
  have sig: "length png_sig = 8" by (simp add: png_sig_def)
  have w: "be32_at ?ih 0 = w" by (rule be32_at_bytes [OF assms(1)])
  have h: "be32_at ?ih 4 = h"
    using be32_at_app_bytes [OF assms(2), of 4 "be32_bytes w" "[8, 2, 0, 0, 0]"] by simp
  have i: "?ih ! 8 = 8" "?ih ! 9 = 2" "?ih ! 12 = 0" by (simp_all add: nth_append)
  have c1: "take_chunk IHDR ?ih no_info = ?p1" unfolding take_chunk_def w h i by simp
  have c2: "take_chunk IDAT ?z ?p1 = ?p1\<lparr>pi_idat := Some ?z\<rparr>" by (simp add: take_chunk_def no_info_def)
  have c3: "take_chunk IEND [] p = p" for p by (simp add: take_chunk_def)
  have "read_chunks ?f 8 no_info = read_chunks ?f (8 + 12 + length ?ih) (take_chunk IHDR ?ih no_info)"
    by (rule read_chunks_chunk [OF png_file_split(1)]) (simp_all add: sig)
  also have "\<dots> = read_chunks ?f (8 + 12 + length ?ih + 12 + length ?z) (take_chunk IDAT ?z ?p1)"
    unfolding c1 by (rule read_chunks_chunk [OF png_file_split(2)]) (use assms(3) in \<open>simp_all add: sig length_png_chunk\<close>)
  also have "\<dots> = read_chunks ?f (8 + 12 + length ?ih + 12 + length ?z + 12 + length ([] :: bytes))
      (take_chunk IEND [] (?p1\<lparr>pi_idat := Some ?z\<rparr>))"
    unfolding c2 by (rule read_chunks_chunk [OF png_file_split(3)]) (simp_all add: sig length_png_chunk)
  also have "\<dots> = read_chunks ?f (57 + length ?z) (?p1\<lparr>pi_idat := Some ?z\<rparr>)"
    unfolding c3 by simp
  also have "\<dots> = ?p1\<lparr>pi_idat := Some ?z\<rparr>"
    by (rule read_chunks_end) (simp add: png_file_def length_png_chunk sig)
  finally show ?thesis .
qed

lemma png_sizes:
  fixes w h :: nat
  assumes "0 < w" "0 < h" "w * h \<le> 4194304"
  shows "w \<le> 4194304" "h \<le> 4194304" "(1 + w * 3) * h \<le> 16777216"
proof -
  have "w \<le> w * h" "h \<le> w * h" using assms(1,2) by simp_all
  then show "w \<le> 4194304" "h \<le> 4194304" using assms(3) by (blast intro: le_trans)+
  then show "(1 + w * 3) * h \<le> 16777216" using assms(3) by (simp add: algebra_simps)
qed

lemma read_png_file:
  assumes wh: "0 < w" "0 < h" "length px = w * h" "w * h \<le> 4194304" and mem: "\<forall>n. mem n"
  shows "img_read_png mem c (png_file px w h) = Some (Some (w, h, map (\<lambda>p. p OR 0xFF000000) px), c)"
proof -
  let ?xs = "raw_lines px w h" and ?f = "png_file px w h"
  note small = png_sizes [OF wh(1,2,4)]
  have ne: "?xs \<noteq> []" using wh(1,2) by simp
  have z: "length (zlib_stored ?xs) < 2 ^ 32" "6 \<le> length (zlib_stored ?xs)"
    using length_zlib_stored [OF ne] small(3) div_le_dividend [of "length ?xs" 4096]
    by (simp_all add: zlib_stored_def)
  have p: "read_chunks ?f 8 no_info = no_info\<lparr>pi_w := w, pi_h := h, pi_depth := 8, pi_colour := 2, pi_interlace := 0,
      pi_idat := Some (zlib_stored ?xs)\<rparr>" (is "_ = ?p")
    using read_png_chunks [of w h px] small z(1) by simp
  have i: "inflate_zlib c (zlib_stored ?xs) ((w * 3 + 1) * h) = Some (Some ?xs, c)"
    by (rule inflate_zlib_stored [OF ne]) simp
  have r: "png_rows ?p ?xs (w * 3) h None = Some (map (\<lambda>q. q OR 0xFF000000) px)"
    using png_rows_raw [of ?p w px h 0 None] wh(3) by (simp add: mult.commute)
  have s: "take 8 ?f = png_sig" "8 \<le> length ?f" by (simp_all add: png_file_def png_sig_def)
  show ?thesis
    unfolding img_read_png_def p Let_def
    using mem s i r wh z(2) by (simp add: bytes_per_pixel_def mult.commute add.commute)
qed

text \<open>
  C8. The PNG round trip: a picture of at most four million pixels that \<^verbatim>\<open>img_write_png\<close> writes is a
  file from which \<^verbatim>\<open>img_read_png\<close>, decompressing with the codes left over from any earlier stream,
  returns the same size and the same colours, every pixel made opaque.
\<close>

theorem png_round_trip:
  assumes "0 < w" "0 < h" "length px = w * h" "w * h \<le> 4194304" "\<forall>n. mem n"
  shows "\<exists>file. img_write_png mem ob px w h = Some (Some file)
    \<and> img_read_png mem c file = Some (Some (w, h, map (\<lambda>p. p OR 0xFF000000) px), c)"
proof -
  have "png_room w h \<le> 16777216 + 16777216 + 4096"
    unfolding png_room_def Let_def using png_sizes(3) [OF assms(1,2,4)]
    by (intro add_mono) (auto intro: le_trans [OF div_le_dividend])
  then have "img_write_png mem ob px w h = Some (Some (png_file px w h))"
    using assms by (intro write_png_file) simp_all
  then show ?thesis using read_png_file [OF assms] by blast
qed

theorem png_round_trip_witness:
  "\<exists>file. img_write_png (\<lambda>n. True) (wb 0 []) [0x00112233, 0xFF445566] 2 1 = Some (Some file)
    \<and> img_read_png (\<lambda>n. True) (empty_code, empty_code) file
        = Some (Some (2, 1, [0xFF112233, 0xFF445566]), (empty_code, empty_code))"
  using png_round_trip [of 2 1 "[0x00112233, 0xFF445566]" "\<lambda>n. True" "wb 0 []" "(empty_code, empty_code)"] by simp

end
