(* ===== verification/Libc_Time.thy ===== *)
theory Libc_Time
  imports Leah_Prelude "HOL-Library.Signed_Division"
begin

text \<open>
  \<^verbatim>\<open>user/libc/time.c\<close>: calendar dates, time zones and the formatting of both. Counts of seconds and days
  are integers: 64 bits hold everything computed here from 64-bit seconds. Where the code narrows to
  \<^verbatim>\<open>int\<close> the wrap-around is written out. What the system calls answer (the clock, the uptime, the two
  files under \<^verbatim>\<open>/etc\<close>) is an argument.
\<close>

lemma sdiv_pos: "0 \<le> a \<Longrightarrow> 0 < b \<Longrightarrow> a sdiv b = a div b" for a b :: int
  by (auto simp: signed_divide_int_def sgn_if)

lemma smod_pos: "0 \<le> a \<Longrightarrow> 0 < b \<Longrightarrow> a smod b = a mod b" for a b :: int
  by (auto simp: signed_modulo_int_def sgn_if)

definition int32 :: "int \<Rightarrow> int" where
  "int32 x = (x + 2147483648) mod 4294967296 - 2147483648"

definition int64 :: "int \<Rightarrow> int" where
  "int64 x = (x + 9223372036854775808) mod 18446744073709551616 - 9223372036854775808"

text \<open>\<^verbatim>\<open>time\<close>: the seconds the kernel's clock answers, 0 when it fails.\<close>

definition time_now :: "(int \<times> int) option \<Rightarrow> int" where
  "time_now clock = (case clock of None \<Rightarrow> 0 | Some (sec, nsec) \<Rightarrow> sec)"

section \<open>The two conversions\<close>

definition days_from_civil :: "int \<Rightarrow> int \<Rightarrow> int \<Rightarrow> int" where
  "days_from_civil year month day =
     (let year = year - (if month \<le> 2 then 1 else 0);
          era = (if year \<ge> 0 then year else year - 399) sdiv 400;
          yoe = year - era * 400;
          doy = (153 * (month + (if month > 2 then -3 else 9)) + 2) sdiv 5 + day - 1;
          doe = yoe * 365 + yoe sdiv 4 - yoe sdiv 100 + doy
      in era * 146097 + doe - 719468)"

definition civil_from_days :: "int \<Rightarrow> int \<times> int \<times> int" where
  "civil_from_days days =
     (let days = days + 719468;
          era = (if days \<ge> 0 then days else days - 146096) sdiv 146097;
          doe = days - era * 146097;
          yoe = (doe - doe sdiv 1460 + doe sdiv 36524 - doe sdiv 146096) sdiv 365;
          y = yoe + era * 400;
          doy = doe - (365 * yoe + yoe sdiv 4 - yoe sdiv 100);
          mp = (5 * doy + 2) sdiv 153;
          d = doy - (153 * mp + 2) sdiv 5 + 1;
          m = mp + (if mp < 10 then 3 else -9)
      in (y + (if m \<le> 2 then 1 else 0), m, d))"

definition floor_div :: "int \<Rightarrow> int \<Rightarrow> int" where
  "floor_div a b = (let q = a sdiv b in if a smod b \<noteq> 0 \<and> (a < 0) \<noteq> (b < 0) then q - 1 else q)"

definition floor_mod :: "int \<Rightarrow> int \<Rightarrow> int" where
  "floor_mod a b = (let r = a smod b in if r \<noteq> 0 \<and> (r < 0) \<noteq> (b < 0) then r + b else r)"

record tm =
  tm_sec :: int
  tm_min :: int
  tm_hour :: int
  tm_mday :: int
  tm_mon :: int
  tm_year :: int
  tm_wday :: int
  tm_yday :: int
  tm_isdst :: int

definition gmtime_r :: "int \<Rightarrow> tm" where
  "gmtime_r seconds =
     (let days = floor_div seconds 86400; rest = floor_mod seconds 86400;
          (year, month, day) = civil_from_days days
      in \<lparr>tm_sec = rest smod 60, tm_min = (rest sdiv 60) smod 60, tm_hour = rest sdiv 3600, tm_mday = day,
          tm_mon = month - 1, tm_year = int32 (year - 1900), tm_wday = floor_mod (days + 4) 7,
          tm_yday = int32 (days - days_from_civil year 1 1), tm_isdst = 0\<rparr>)"

definition timegm :: "tm \<Rightarrow> int" where
  "timegm b =
     (let year = tm_year b + 1900 + floor_div (tm_mon b) 12;
          mon = floor_mod (tm_mon b) 12;
          days = days_from_civil year (mon + 1) 1 + (tm_mday b - 1)
      in days * 86400 + tm_hour b * 3600 + tm_min b * 60 + tm_sec b)"

section \<open>Zone files\<close>

definition TZ_MAX_TIMES :: nat where "TZ_MAX_TIMES = 512"
definition TZ_MAX_TYPES :: nat where "TZ_MAX_TYPES = 24"

record tz_type =
  ty_offset :: int
  ty_is_dst :: nat
  ty_name :: nat

text \<open>\<open>z_when\<close> and \<open>z_which\<close> are the first \<^verbatim>\<open>count\<close> entries of their arrays, \<open>z_types\<close> the first \<^verbatim>\<open>types\<close>.\<close>

record zone =
  z_loaded :: int
  z_when :: "int list"
  z_which :: "nat list"
  z_types :: "tz_type list"
  z_names :: bytes
  z_fallback :: int
  z_stamp :: int
  z_checked :: nat

definition no_zone :: zone where
  "no_zone = \<lparr>z_loaded = 0, z_when = [], z_which = [], z_types = [], z_names = replicate 64 0, z_fallback = 0,
     z_stamp = 0, z_checked = 0\<rparr>"

text \<open>The milliseconds since boot, size and time of change of the zone file, its bytes, and the text of the other file.\<close>

record tz_env =
  e_uptime :: nat
  e_stat :: "(int \<times> int) option"
  e_file :: "bytes option"
  e_minutes :: "bytes option"

definition tz_be32 :: "bytes \<Rightarrow> nat \<Rightarrow> nat" where
  "tz_be32 f i = unat (byte_at f i) * 16777216 + unat (byte_at f (i + 1)) * 65536
     + unat (byte_at f (i + 2)) * 256 + unat (byte_at f (i + 3))"

definition tz_be64 :: "bytes \<Rightarrow> nat \<Rightarrow> int" where
  "tz_be64 f i = int64 (int (tz_be32 f i) * 4294967296 + int (tz_be32 f (i + 4)))"

definition tz_digit :: "byte \<Rightarrow> bool" where
  "tz_digit c \<longleftrightarrow> 48 \<le> c \<and> c \<le> 57"

fun tz_digits :: "int \<Rightarrow> bytes \<Rightarrow> int" where
  "tz_digits acc [] = acc"
| "tz_digits acc (c # cs) = (if tz_digit c then tz_digits (int64 (acc * 10 + (int (unat c) - 48))) cs else acc)"

definition read_minutes :: "bytes option \<Rightarrow> int" where
  "read_minutes file =
     (case file of
        None \<Rightarrow> 0
      | Some text \<Rightarrow>
          let text = take 31 text @ [0] in
          if length text = 1 then 0
          else
            let sign = (if hd text = 45 then -1 else 1);
                rest = (if hd text = 45 \<or> hd text = 43 then tl text else text) in
            if \<not> tz_digit (hd rest) then 0
            else let minutes = tz_digits 0 rest in
              if minutes > 24 * 60 then 0 else int64 (sign * minutes * 60))"

record tz_counts =
  c_isut :: nat
  c_isstd :: nat
  c_leap :: nat
  c_times :: nat
  c_types :: nat
  c_chars :: nat

definition tz_counts_at :: "bytes \<Rightarrow> nat \<Rightarrow> tz_counts" where
  "tz_counts_at f h = \<lparr>c_isut = tz_be32 f (h + 20), c_isstd = tz_be32 f (h + 24), c_leap = tz_be32 f (h + 28),
     c_times = tz_be32 f (h + 32), c_types = tz_be32 f (h + 36), c_chars = tz_be32 f (h + 40)\<rparr>"

definition tz_block :: "tz_counts \<Rightarrow> bool \<Rightarrow> nat" where
  "tz_block c wide =
     (let stamp = (if wide then 8 else 4)
      in c_times c * (stamp + 1) + c_types c * 6 + c_chars c + c_leap c * (stamp + 4) + c_isstd c + c_isut c)"

text \<open>The data block that is read: where it starts, its counts, and whether its instants are 64 bits wide.\<close>

definition zone_block :: "bytes \<Rightarrow> (nat \<times> tz_counts \<times> bool) option" where
  "zone_block f =
     (if length f < 44 \<or> take 4 f \<noteq> [84, 90, 105, 102] then None
      else
        let c = tz_counts_at f 0 in
        if byte_at f 4 \<ge> 50 then
          let at = 44 + tz_block c False in
          if at + 44 > length f then None
          else let c = tz_counts_at f at in
            if c_types c = 0 \<or> at + 44 + tz_block c True > length f then None else Some (at + 44, c, True)
        else if c_types c = 0 \<or> 44 + tz_block c False > length f then None
        else Some (44, c, False))"

definition load_zone :: "bytes option \<Rightarrow> zone \<Rightarrow> bool \<times> zone" where
  "load_zone file z =
     (case file of
        None \<Rightarrow> (False, z)
      | Some content \<Rightarrow>
          let f = take 16384 content in
          (case zone_block f of
             None \<Rightarrow> (False, z)
           | Some (at, c, wide) \<Rightarrow>
               let keep = min (c_times c) TZ_MAX_TIMES;
                   skip = c_times c - keep;
                   stamp = (if wide then 8 else 4);
                   index = at + c_times c * stamp;
                   infos = index + c_times c;
                   types = min (c_types c) TZ_MAX_TYPES;
                   chars = infos + c_types c * 6;
                   keep_chars = min (c_chars c) 63
               in (True, z\<lparr>
                 z_when := map (\<lambda>i. let p = at + (skip + i) * stamp in if wide then tz_be64 f p else int32 (int (tz_be32 f p))) [0 ..< keep],
                 z_which := map (\<lambda>i. unat (byte_at f (index + skip + i))) [0 ..< keep],
                 z_types := map (\<lambda>i. \<lparr>ty_offset = int32 (int (tz_be32 f (infos + i * 6))),
                   ty_is_dst = unat (byte_at f (infos + i * 6 + 4)), ty_name = unat (byte_at f (infos + i * 6 + 5))\<rparr>) [0 ..< types],
                 z_names := overlay (z_names z) 0 (slice f chars keep_chars @ [0])\<rparr>)))"

definition refresh_zone :: "tz_env \<Rightarrow> zone \<Rightarrow> zone" where
  "refresh_zone e z =
     (if z_loaded z \<noteq> 0 \<and> sub64 (e_uptime e) (z_checked z) < 1000 then z
      else
        let z = z\<lparr>z_checked := e_uptime e\<rparr>;
            stamp = (case e_stat e of Some (mtime, len) \<Rightarrow> mtime + len | None \<Rightarrow> 0) in
        if z_loaded z \<noteq> 0 \<and> stamp = z_stamp z then z
        else
          let (ok, z) = load_zone (e_file e) (z\<lparr>z_stamp := stamp, z_when := [], z_which := [], z_types := []\<rparr>) in
          if ok then z\<lparr>z_loaded := 1\<rparr>
          else z\<lparr>z_loaded := -1, z_fallback := read_minutes (e_minutes e)\<rparr>)"

text \<open>The search for the last transition that is not after \<open>w\<close>.\<close>

function last_before :: "int list \<Rightarrow> int \<Rightarrow> int \<Rightarrow> int \<Rightarrow> int \<Rightarrow> int" where
  "last_before ts w lo hi found =
     (if lo \<le> hi then
        let mid = lo + (hi - lo) sdiv 2 in
        if ts ! nat mid \<le> w then last_before ts w (mid + 1) hi mid else last_before ts w lo (mid - 1) found
      else found)"
  by pat_completeness auto

termination
proof (relation "measure (\<lambda>(ts, w, lo, hi, found). nat (hi - lo + 1))", goal_cases)
  case (2 ts w lo hi found mid)
  then have "0 \<le> (hi - lo) sdiv 2" by (simp add: sdiv_pos)
  then show ?case using 2 by simp
next
  case (3 ts w lo hi found mid)
  then have "(hi - lo) sdiv 2 \<le> hi - lo" by (simp add: sdiv_pos)
  then show ?case using 3 by simp
qed simp

declare last_before.simps [simp del]

fun first_standard :: "nat \<Rightarrow> tz_type list \<Rightarrow> int" where
  "first_standard i [] = 0"
| "first_standard i (t # ts) = (if ty_is_dst t = 0 then int i else first_standard (Suc i) ts)"

definition type_in :: "zone \<Rightarrow> int \<Rightarrow> int" where
  "type_in z w =
     (if z_loaded z < 0 \<or> z_types z = [] then -1
      else
        let found = last_before (z_when z) w 0 (int (length (z_when z)) - 1) (-1) in
        if found < 0 then first_standard 0 (z_types z)
        else let k = z_which z ! nat found in if k < length (z_types z) then int k else -1)"

definition type_at :: "tz_env \<Rightarrow> int \<Rightarrow> zone \<Rightarrow> int \<times> zone" where
  "type_at e w z = (let z = refresh_zone e z in (type_in z w, z))"

definition offset_at :: "tz_env \<Rightarrow> int \<Rightarrow> zone \<Rightarrow> int \<times> zone" where
  "offset_at e w z =
     (let (t, z) = type_at e w z in (if t < 0 then z_fallback z else ty_offset (z_types z ! nat t), z))"

definition timezone_name :: "tz_env \<Rightarrow> int \<Rightarrow> nat \<Rightarrow> zone \<Rightarrow> bytes option \<times> zone" where
  "timezone_name e w room z =
     (if room = 0 then (None, z)
      else
        let (t, z) = type_at e w z in
        if t < 0 then (None, z)
        else
          let at = ty_name (z_types z ! nat t) in
          if at \<ge> 64 then (None, z)
          else
            let name = takeWhile (\<lambda>c. c \<noteq> 0) (drop at (z_names z)) in
            if name = [] then (None, z) else (Some (take (room - 1) name), z))"

definition timezone_offset :: "tz_env \<Rightarrow> (int \<times> int) option \<Rightarrow> zone \<Rightarrow> int \<times> zone" where
  "timezone_offset e clock z = offset_at e (time_now clock) z"

definition localtime_r :: "tz_env \<Rightarrow> int \<Rightarrow> zone \<Rightarrow> tm \<times> zone" where
  "localtime_r e w z = (let (off, z) = offset_at e w z in (gmtime_r (int64 (w + off)), z))"

section \<open>Formatting\<close>

definition kDayLong :: "string list" where
  "kDayLong = [''Sunday'', ''Monday'', ''Tuesday'', ''Wednesday'', ''Thursday'', ''Friday'', ''Saturday'']"
definition kDayShort :: "string list" where
  "kDayShort = [''Sun'', ''Mon'', ''Tue'', ''Wed'', ''Thu'', ''Fri'', ''Sat'']"
definition kMonShort :: "string list" where
  "kMonShort = [''Jan'', ''Feb'', ''Mar'', ''Apr'', ''May'', ''Jun'', ''Jul'', ''Aug'', ''Sep'', ''Oct'', ''Nov'', ''Dec'']"
definition kMonLong :: "string list" where
  "kMonLong = [''January'', ''February'', ''March'', ''April'', ''May'', ''June'', ''July'', ''August'',
     ''September'', ''October'', ''November'', ''December'']"

record sink =
  s_out :: string
  s_max :: nat
  s_len :: nat

definition sink_put :: "char \<Rightarrow> sink \<Rightarrow> sink" where
  "sink_put c s =
     (let s = (if s_len s + 1 < s_max s then s\<lparr>s_out := (s_out s)[s_len s := c]\<rparr> else s)
      in s\<lparr>s_len := s_len s + 1\<rparr>)"

definition put_str :: "string \<Rightarrow> sink \<Rightarrow> sink" where
  "put_str text s = fold sink_put text s"

text \<open>The digits of a number, the last first.\<close>

fun digits_rev :: "nat \<Rightarrow> string" where
  "digits_rev v = char_of (48 + v mod 10) # (if v div 10 = 0 then [] else digits_rev (v div 10))"

definition put_number :: "int \<Rightarrow> nat \<Rightarrow> char \<Rightarrow> sink \<Rightarrow> sink" where
  "put_number value width pad s =
     (let v = (if value < 0 then nat (- (value + 1)) + 1 else nat value);
          ds = digits_rev v @ (if value < 0 then ''-'' else '''')
      in fold sink_put (rev ds) (fold sink_put (replicate (width - length ds) pad) s))"

text \<open>One conversion.\<close>

definition put_conv :: "char \<Rightarrow> tm \<Rightarrow> sink \<Rightarrow> sink" where
  "put_conv c t s =
     (let wday = nat (if 0 \<le> tm_wday t \<and> tm_wday t < 7 then tm_wday t else 0);
          mon = nat (if 0 \<le> tm_mon t \<and> tm_mon t < 12 then tm_mon t else 0);
          year = put_number (tm_year t + 1900) 0 CHR ''0'';
          two = (\<lambda>v. put_number v 2 CHR ''0'') in
      if c = CHR ''Y'' then year s
      else if c = CHR ''y'' then two ((tm_year t + 1900) smod 100) s
      else if c = CHR ''m'' then two (tm_mon t + 1) s
      else if c = CHR ''d'' then two (tm_mday t) s
      else if c = CHR ''e'' then put_number (tm_mday t) 2 CHR '' '' s
      else if c = CHR ''H'' then two (tm_hour t) s
      else if c = CHR ''M'' then two (tm_min t) s
      else if c = CHR ''S'' then two (tm_sec t) s
      else if c = CHR ''j'' then put_number (tm_yday t + 1) 3 CHR ''0'' s
      else if c = CHR ''a'' then put_str (kDayShort ! wday) s
      else if c = CHR ''A'' then put_str (kDayLong ! wday) s
      else if c = CHR ''b'' \<or> c = CHR ''h'' then put_str (kMonShort ! mon) s
      else if c = CHR ''B'' then put_str (kMonLong ! mon) s
      else if c = CHR ''p'' then put_str (if tm_hour t < 12 then ''AM'' else ''PM'') s
      else if c = CHR ''I'' then two (let h = tm_hour t smod 12 in if h = 0 then 12 else h) s
      else if c = CHR ''F'' then two (tm_mday t) (sink_put CHR ''-'' (two (tm_mon t + 1) (sink_put CHR ''-'' (year s))))
      else if c = CHR ''T'' then two (tm_sec t) (sink_put CHR '':'' (two (tm_min t) (sink_put CHR '':'' (two (tm_hour t) s))))
      else if c = CHR ''s'' then put_number (timegm t) 0 CHR ''0'' s
      else if c = CHR ''%'' then sink_put CHR ''%'' s
      else sink_put c (sink_put CHR ''%'' s))"

fun put_format :: "string \<Rightarrow> tm \<Rightarrow> sink \<Rightarrow> sink" where
  "put_format [] t s = s"
| "put_format (c # f) t s =
     (if c \<noteq> CHR ''%'' then put_format f t (sink_put c s)
      else (case f of [] \<Rightarrow> s | k # f \<Rightarrow> put_format f t (put_conv k t s)))"

definition strftime :: "string \<Rightarrow> nat \<Rightarrow> string \<Rightarrow> tm \<Rightarrow> nat \<times> string" where
  "strftime out room format t =
     (if room = 0 then (0, out)
      else
        let s = put_format format t \<lparr>s_out = out, s_max = room, s_len = 0\<rparr> in
        if s_len s \<ge> room then (0, (s_out s)[room - 1 := CHR 0x00])
        else (s_len s, (s_out s)[s_len s := CHR 0x00]))"

definition ctime_r :: "tz_env \<Rightarrow> int \<Rightarrow> string \<Rightarrow> zone \<Rightarrow> string \<times> zone" where
  "ctime_r e w out z =
     (let (t, z) = localtime_r e w z
      in (snd (strftime out 26 (''%a %b %e %H:%M:%S %Y'' @ [CHR 0x0A]) t), z))"

end
