(* ===== verification/Libc_Time_Laws.thy ===== *)
theory Libc_Time_Laws
  imports Libc_Time
begin

text \<open>
  The conversions of \<^verbatim>\<open>user/libc/time.c\<close> against the rules of the calendar: a date, and the one after it.
  A time zone in force is that of the last transition. A formatted date is the text of its parts, cut
  to the room there is.
\<close>

section \<open>The calendar\<close>

definition leap_year :: "int \<Rightarrow> bool" where
  "leap_year y \<longleftrightarrow> 4 dvd y \<and> (\<not> 100 dvd y \<or> 400 dvd y)"

definition month_days :: "int \<Rightarrow> int \<Rightarrow> int" where
  "month_days y m = (if m = 2 then if leap_year y then 29 else 28 else if m \<in> {4, 6, 9, 11} then 30 else 31)"

definition date_ok :: "int \<times> int \<times> int \<Rightarrow> bool" where
  "date_ok = (\<lambda>(y, m, d). 1 \<le> m \<and> m \<le> 12 \<and> 1 \<le> d \<and> d \<le> month_days y m)"

definition next_day :: "int \<times> int \<times> int \<Rightarrow> int \<times> int \<times> int" where
  "next_day = (\<lambda>(y, m, d). if d < month_days y m then (y, m, d + 1) else if m < 12 then (y, m + 1, 1) else (y + 1, 1, 1))"

definition prev_day :: "int \<times> int \<times> int \<Rightarrow> int \<times> int \<times> int" where
  "prev_day = (\<lambda>(y, m, d). if 1 < d then (y, m, d - 1) else if 1 < m then (y, m - 1, month_days y (m - 1)) else (y - 1, 12, 31))"

lemma twelve: "1 \<le> m \<Longrightarrow> m \<le> 12 \<Longrightarrow> m \<in> {1, 2, 3, 4, 5, 6, 7, 8, 9, 10, 11, 12}" for m :: int
  by simp presburger

lemma next_prev: "date_ok v \<Longrightarrow> date_ok (prev_day v) \<and> next_day (prev_day v) = v"
  by (auto simp: date_ok_def prev_day_def next_day_def month_days_def split: if_splits)

lemma month_days_pos: "1 \<le> month_days y m"
  by (simp add: month_days_def)

lemma next_ok: "date_ok v \<Longrightarrow> date_ok (next_day v)"
  by (cases v) (auto simp: date_ok_def next_day_def month_days_pos)

section \<open>Years that begin in March\<close>

text \<open>Days before year \<open>Y\<close>, and before month \<open>p\<close> of a year, both counted from March.\<close>

definition before_year :: "int \<Rightarrow> int" where
  "before_year Y = 365 * Y + Y div 4 - Y div 100 + Y div 400"

definition before_month :: "int \<Rightarrow> int" where
  "before_month p = (153 * p + 2) div 5"

definition shift_year :: "int \<Rightarrow> int \<Rightarrow> int" where
  "shift_year y m = (if m \<le> 2 then y - 1 else y)"

definition shift_month :: "int \<Rightarrow> int" where
  "shift_month m = (if m \<le> 2 then m + 9 else m - 3)"

lemma sdiv_floor:
  fixes a b c :: int
  assumes "0 < b" "c = b - 1"
  shows "(if a \<ge> 0 then a else a - c) sdiv b = a div b"
proof (cases "a \<ge> 0")
  case False
  note b = assms(1)
  have "b - 1 - a = b * (- (a div b)) + (b - 1 - a mod b)" using mult_div_mod_eq [of b a] by (simp add: algebra_simps)
  then have "(b - 1 - a) div b = - (a div b)"
    by (rule int_div_pos_eq) (use b pos_mod_bound [OF b, of a] pos_mod_sign [OF b, of a] in linarith)+
  then show ?thesis using assms False by (simp add: signed_divide_int_def)
qed (simp add: sdiv_pos assms)

lemma era_div: "(400 * e + r) div 4 = 100 * e + r div 4" "(400 * e + r) div 100 = 4 * e + r div 100" for e r :: int
  using div_mult_self2 [of 4 r "100 * e"] div_mult_self2 [of 100 r "4 * e"] by (simp_all add: algebra_simps)

lemma days_from_civil_eq:
  assumes "1 \<le> m" "m \<le> 12"
  shows "days_from_civil y m d = before_year (shift_year y m) + before_month (shift_month m) + d - 1 - 719468"
proof -
  let ?Y = "shift_year y m"
  have era: "(if ?Y \<ge> 0 then ?Y else ?Y - 399) sdiv 400 = ?Y div 400" by (rule sdiv_floor) simp_all
  have doy: "(153 * (m + (if m > 2 then -3 else 9)) + 2) sdiv 5 = before_month (shift_month m)"
    using assms by (auto simp: before_month_def shift_month_def sdiv_pos)
  have y: "y - (if m \<le> 2 then 1 else 0) = ?Y" by (simp add: shift_year_def)
  let ?e = "?Y div 400"
  have yoe: "?Y - ?e * 400 = ?Y mod 400" by (simp add: minus_div_mult_eq_mod)
  have "days_from_civil y m d = ?e * 146097 + (?Y mod 400 * 365 + ?Y mod 400 div 4 - ?Y mod 400 div 100
    + (before_month (shift_month m) + d - 1)) - 719468"
    unfolding days_from_civil_def Let_def y era doy yoe by (simp add: sdiv_pos)
  moreover have "?Y div 4 = 100 * ?e + ?Y mod 400 div 4" "?Y div 100 = 4 * ?e + ?Y mod 400 div 100"
    using era_div [of ?e "?Y mod 400"] by simp_all
  moreover have "?Y = 400 * ?e + ?Y mod 400" by simp
  ultimately show ?thesis unfolding before_year_def by linarith
qed

lemma div_pred: "0 < k \<Longrightarrow> Y div k - (Y - 1) div k = (if k dvd Y then 1 else 0)" for Y k :: int
proof -
  assume k: "0 < k"
  have Y: "Y = k * (Y div k) + Y mod k" by simp
  note b = pos_mod_bound [OF k, of Y] pos_mod_sign [OF k, of Y]
  show ?thesis
  proof (cases "k dvd Y")
    case True
    then have "Y - 1 = k * (Y div k - 1) + (k - 1)" by (simp add: algebra_simps)
    then have "(Y - 1) div k = Y div k - 1" by (rule int_div_pos_eq) (use k in linarith)+
    then show ?thesis using True by simp
  next
    case False
    then have "Y mod k \<noteq> 0" by (simp add: dvd_eq_mod_eq_0)
    moreover have "Y - 1 = k * (Y div k) + (Y mod k - 1)" using Y by simp
    ultimately have "(Y - 1) div k = Y div k"
      using b int_div_pos_eq [of "Y - 1" k "Y div k" "Y mod k - 1"] by simp
    then show ?thesis using False by simp
  qed
qed

lemma leap_step: "before_year Y = before_year (Y - 1) + (if leap_year Y then 366 else 365)"
proof -
  have arith: "365 * Y + a - b + c = 365 * (Y - 1) + a' - b' + c' + (if P \<and> (\<not> Q \<or> R) then 366 else 365)"
    if "a - a' = (if P then 1 else 0)" "b - b' = (if Q then 1 else 0)" "c - c' = (if R then 1 else 0)" "Q \<longrightarrow> P" "R \<longrightarrow> Q"
    for a b c a' b' c' :: int and P Q R
    using that by (cases P; cases Q; cases R) simp_all
  have "(100 :: int) dvd Y \<longrightarrow> 4 dvd Y" "(400 :: int) dvd Y \<longrightarrow> 100 dvd Y"
    using dvd_trans [of 4 100 Y] dvd_trans [of 100 400 Y] by simp_all
  then show ?thesis unfolding before_year_def leap_year_def by (intro arith div_pred) simp_all
qed

lemma month_step:
  assumes "1 \<le> m" "m \<le> 12"
  shows "before_year (shift_year y m) + before_month (shift_month m) + month_days y m =
    (if m < 12 then before_year (shift_year y (m + 1)) + before_month (shift_month (m + 1))
     else before_year (shift_year (y + 1) 1) + before_month (shift_month 1))"
  using twelve [OF assms] leap_step [of y]
  by (elim insertE emptyE) (simp_all add: shift_year_def shift_month_def month_days_def before_month_def)

lemma days_next:
  assumes "date_ok (y, m, d)" "next_day (y, m, d) = (y', m', d')"
  shows "days_from_civil y' m' d' = days_from_civil y m d + 1"
proof -
  have m: "1 \<le> m" "m \<le> 12" "d \<le> month_days y m" and ok: "date_ok (y', m', d')"
    using assms(1) next_ok [OF assms(1)] assms(2) by (auto simp: date_ok_def)
  then have m': "1 \<le> m'" "m' \<le> 12" by (auto simp: date_ok_def)
  show ?thesis
    unfolding days_from_civil_eq [OF m(1,2)] days_from_civil_eq [OF m']
    using assms(2) m month_step [OF m(1,2), of y] by (auto simp: next_day_def split: if_splits)
qed

section \<open>From days back to dates\<close>

text \<open>A day of an era of 400 years: its century, its cycle of four years, its year there, and its day in the year.\<close>

lemma year_of_era:
  fixes c q s doy :: int
  assumes "0 \<le> c" "c \<le> 3" "0 \<le> q" "q \<le> 24" "0 \<le> s" "s \<le> 3" "0 \<le> doy" "doy \<le> 365"
    "doy = 365 \<Longrightarrow> s = 3 \<and> (q \<noteq> 24 \<or> c = 3)"
    and doe: "doe = 36524 * c + 1461 * q + 365 * s + doy"
  shows "(doe - doe div 1460 + doe div 36524 - doe div 146096) div 365 = 100 * c + 4 * q + s" "0 \<le> doe" "doe < 146097"
proof -
  let ?u = "24 * c + q + 365 * s + doy"
  show pos: "0 \<le> doe" using assms by linarith
  have r: "1461 * q + 365 * s + doy \<le> 36524" using assms(4,6,8) by linarith
  have full: "c = 3" if "1461 * q + 365 * s + doy = 36524"
  proof -
    have "doy = 365" "q = 24" using that assms(4,6,8) by linarith+
    then show ?thesis using assms(9) by simp
  qed
  show lt: "doe < 146097" using assms(2) r doe by linarith
  have c: "doe div 36524 - doe div 146096 = c"
  proof (cases "1461 * q + 365 * s + doy = 36524")
    case True
    then have "doe = 146096" using doe full by simp
    then show ?thesis using True full by simp
  next
    case False
    then have "doe div 36524 = c" using int_div_pos_eq [of doe 36524 c "1461 * q + 365 * s + doy"] doe r assms by simp
    moreover have "doe div 146096 = 0" using doe False r assms(2) pos by (intro div_pos_pos_trivial) linarith+
    ultimately show ?thesis by simp
  qed
  have "doe = 1460 * (25 * c + q) + ?u" using doe by simp
  then have k: "doe div 1460 = 25 * c + q + ?u div 1460" by simp
  have u: "0 \<le> ?u" "?u < 2 * 1460" using assms by linarith+
  have e: "?u div 1460 = (if ?u < 1460 then 0 else 1)"
    using u by (auto simp: div_pos_pos_trivial int_div_pos_eq [of ?u 1460 1 "?u - 1460"])
  have "0 \<le> doy - ?u div 1460 \<and> doy - ?u div 1460 \<le> 364"
    using e assms(1-9) by (cases "doy = 365"; cases "?u < 1460") auto
  moreover have "doe - doe div 1460 + doe div 36524 - doe div 146096 = 365 * (100 * c + 4 * q + s) + (doy - ?u div 1460)"
  proof -
    have "doe - k + a - b = 365 * (100 * c + 4 * q + s) + (doy - e)" if "a - b = c" "k = 25 * c + q + e" for a b k e :: int
      using that doe by simp
    from this [OF c k] show ?thesis .
  qed
  ultimately show "(doe - doe div 1460 + doe div 36524 - doe div 146096) div 365 = 100 * c + 4 * q + s"
    using int_div_pos_eq [of _ 365 "100 * c + 4 * q + s" "doy - ?u div 1460"] by simp
qed

lemma month_of_year:
  assumes "0 \<le> p" "p \<le> 11" "0 \<le> d" "before_month p + d < before_month (p + 1) \<or> (p = 11 \<and> d \<le> 28)"
  shows "(5 * (before_month p + d) + 2) div 153 = p"
proof -
  have "p \<in> {0, 1, 2, 3, 4, 5, 6, 7, 8, 9, 10, 11}" using assms(1,2) by simp presburger
  then show ?thesis using assms(3,4) by (auto simp: before_month_def)
qed

lemma era_parts:
  fixes Y :: int
  obtains e c q s where "Y = 400 * e + (100 * c + 4 * q + s)" "0 \<le> c" "c \<le> 3" "0 \<le> q" "q \<le> 24" "0 \<le> s" "s \<le> 3"
proof -
  let ?r = "Y mod 400"
  have "?r \<le> 399" "?r mod 100 \<le> 99" "?r mod 100 mod 4 \<le> 3"
    using pos_mod_bound [of 400 Y] pos_mod_bound [of 100 ?r] pos_mod_bound [of 4 "?r mod 100"] by linarith+
  then have "?r div 100 \<le> 3" "?r mod 100 div 4 \<le> 24" "?r mod 100 mod 4 \<le> 3"
    using zdiv_mono1 [of ?r 399 100] zdiv_mono1 [of "?r mod 100" 99 4] by simp_all
  moreover have "0 \<le> ?r div 100" "0 \<le> ?r mod 100 div 4" "0 \<le> ?r mod 100 mod 4"
    by (simp_all add: pos_imp_zdiv_nonneg_iff)
  moreover have "Y = 400 * (Y div 400) + (100 * (?r div 100) + 4 * (?r mod 100 div 4) + ?r mod 100 mod 4)"
    using mult_div_mod_eq [of 400 Y] mult_div_mod_eq [of 100 ?r] mult_div_mod_eq [of 4 "?r mod 100"] by linarith
  ultimately show ?thesis using that by blast
qed

lemma before_year_parts:
  assumes "Y = 400 * e + (100 * c + 4 * q + s)" "0 \<le> c" "c \<le> 3" "0 \<le> q" "q \<le> 24" "0 \<le> s" "s \<le> 3"
  shows "before_year Y = 146097 * e + (36524 * c + 1461 * q + 365 * s)"
    "365 * (100 * c + 4 * q + s) + (100 * c + 4 * q + s) div 4 - (100 * c + 4 * q + s) div 100 = 36524 * c + 1461 * q + 365 * s"
    "leap_year (Y + 1) \<Longrightarrow> s = 3 \<and> (q \<noteq> 24 \<or> c = 3)"
proof -
  have d: "(100 * c + 4 * q + s) div 4 = 25 * c + q" "(100 * c + 4 * q + s) div 100 = c" "Y div 400 = e"
    using assms int_div_pos_eq [of "100 * c + 4 * q + s" 4 "25 * c + q" s] int_div_pos_eq [of "100 * c + 4 * q + s" 100 c "4 * q + s"]
      int_div_pos_eq [of Y 400 e "100 * c + 4 * q + s"] by simp_all
  show "365 * (100 * c + 4 * q + s) + (100 * c + 4 * q + s) div 4 - (100 * c + 4 * q + s) div 100 = 36524 * c + 1461 * q + 365 * s"
    using d by simp
  show "before_year Y = 146097 * e + (36524 * c + 1461 * q + 365 * s)"
    unfolding before_year_def using assms(1) d era_div [of e "100 * c + 4 * q + s"] by simp
  assume l: "leap_year (Y + 1)"
  have "4 dvd (400 * e + 100 * c + 4 * q) + (s + 1)" using l assms(1) by (simp add: leap_year_def algebra_simps)
  moreover have "(4 :: int) dvd 400 * e + 100 * c + 4 * q" by simp
  ultimately have "4 dvd s + 1" using dvd_add_right_iff by blast
  then have s: "s = 3" using assms(6,7) by presburger
  have "c = 3" if "q = 24"
  proof -
    have Y: "Y + 1 = 100 * (4 * e + c + 1)" using assms(1) s that by simp
    then have "100 dvd Y + 1" by simp
    then have "400 dvd Y + 1" using l unfolding leap_year_def by blast
    then obtain k where "Y + 1 = 400 * k" by (rule dvdE)
    then have "c + 1 = 4 * (k - e)" using Y by simp
    then show "c = 3" using assms(2,3) by presburger
  qed
  then show "s = 3 \<and> (q \<noteq> 24 \<or> c = 3)" using s by blast
qed

lemma day_of_year:
  assumes "date_ok (y, m, d)"
  shows "0 \<le> before_month (shift_month m) + d - 1" "before_month (shift_month m) + d - 1 \<le> 365"
    "before_month (shift_month m) + d - 1 = 365 \<Longrightarrow> leap_year (shift_year y m + 1)"
    "(5 * (before_month (shift_month m) + d - 1) + 2) div 153 = shift_month m"
proof -
  have m: "1 \<le> m" "m \<le> 12" "1 \<le> d" "d \<le> month_days y m" using assms by (auto simp: date_ok_def)
  then have "d \<le> 31" by (auto simp: month_days_def split: if_splits)
  then show "0 \<le> before_month (shift_month m) + d - 1" "before_month (shift_month m) + d - 1 \<le> 365"
    "before_month (shift_month m) + d - 1 = 365 \<Longrightarrow> leap_year (shift_year y m + 1)"
    using twelve [OF m(1,2)] m(3,4)
    by (elim insertE emptyE; simp add: shift_month_def before_month_def shift_year_def month_days_def split: if_splits)+
  have "before_month (shift_month m) + (d - 1) < before_month (shift_month m + 1) \<or> (shift_month m = 11 \<and> d - 1 \<le> 28)"
    using twelve [OF m(1,2)] m(3,4)
    by (elim insertE emptyE) (simp_all add: shift_month_def before_month_def month_days_def split: if_splits)
  then show "(5 * (before_month (shift_month m) + d - 1) + 2) div 153 = shift_month m"
    using month_of_year [of "shift_month m" "d - 1"] m by (simp add: shift_month_def)
qed

lemma yoe_sdiv:
  fixes doe yoe :: int
  assumes "0 \<le> doe" "(doe - doe div 1460 + doe div 36524 - doe div 146096) div 365 = yoe" "0 \<le> yoe"
  shows "(doe - doe sdiv 1460 + doe sdiv 36524 - doe sdiv 146096) sdiv 365 = yoe"
proof -
  have "0 \<le> doe - doe div 1460 + doe div 36524 - doe div 146096"
    using assms(2,3) pos_imp_zdiv_nonneg_iff [of 365] by simp
  moreover have "doe sdiv k = doe div k" if "0 < k" for k using assms(1) that by (rule sdiv_pos)
  ultimately show ?thesis using assms(2) by (simp only: sdiv_pos zero_less_numeral)
qed

lemma civil_inverse:
  assumes "date_ok (y, m, d)"
  shows "civil_from_days (days_from_civil y m d) = (y, m, d)"
proof -
  let ?Y = "shift_year y m" and ?doy = "before_month (shift_month m) + d - 1"
  note day = day_of_year [OF assms]
  have m: "1 \<le> m" "m \<le> 12" using assms by (auto simp: date_ok_def)
  obtain e c q s where p: "?Y = 400 * e + (100 * c + 4 * q + s)" "0 \<le> c" "c \<le> 3" "0 \<le> q" "q \<le> 24" "0 \<le> s" "s \<le> 3"
    by (rule era_parts)
  note b = before_year_parts [OF p]
  let ?doe = "36524 * c + 1461 * q + 365 * s + ?doy" and ?yoe = "100 * c + 4 * q + s"
  have n: "days_from_civil y m d + 719468 = 146097 * e + ?doe" using days_from_civil_eq [OF m] b(1) by simp
  have yoe: "(?doe - ?doe div 1460 + ?doe div 36524 - ?doe div 146096) div 365 = ?yoe" "0 \<le> ?doe" "?doe < 146097"
    using year_of_era [OF p(2-7) day(1,2) b(3) [OF day(3)] refl] by blast+
  have pos: "0 \<le> ?yoe" using p by linarith
  have era: "(if days_from_civil y m d + 719468 \<ge> 0 then days_from_civil y m d + 719468
    else days_from_civil y m d + 719468 - 146096) sdiv 146097 = e"
    by (rule trans [OF sdiv_floor int_div_pos_eq [OF n yoe(2,3)]]) simp_all
  have doe: "days_from_civil y m d + 719468 - e * 146097 = ?doe" using n by simp
  have sd: "(?doe - ?doe sdiv 1460 + ?doe sdiv 36524 - ?doe sdiv 146096) sdiv 365 = ?yoe"
    by (rule yoe_sdiv [OF yoe(2,1) pos])
  have doy: "?doe - (365 * ?yoe + ?yoe sdiv 4 - ?yoe sdiv 100) = ?doy"
    using b(2) sdiv_pos [OF pos, of 4] sdiv_pos [OF pos, of 100] by simp
  have mp: "(5 * ?doy + 2) sdiv 153 = shift_month m" using day(1,4) by (simp add: sdiv_pos)
  have d: "?doy - (153 * shift_month m + 2) sdiv 5 + 1 = d" using m by (simp add: before_month_def sdiv_pos shift_month_def)
  have mm: "shift_month m + (if shift_month m < 10 then 3 else - 9) = m" using m by (auto simp: shift_month_def)
  have "?yoe + e * 400 = ?Y" using p(1) by simp
  then show ?thesis unfolding civil_from_days_def Let_def era doe sd doy mp d mm by (simp add: shift_year_def)
qed

section \<open>The calendar is followed\<close>

definition dated :: "int \<Rightarrow> bool" where
  "dated n \<longleftrightarrow> (case civil_from_days n of (y, m, d) \<Rightarrow> date_ok (y, m, d) \<and> days_from_civil y m d = n)"

lemma civil_next:
  assumes "dated n"
  shows "civil_from_days (n + 1) = next_day (civil_from_days n)" "dated (n + 1)"
proof -
  obtain y m d where c: "civil_from_days n = (y, m, d)" "date_ok (y, m, d)" "days_from_civil y m d = n"
    using assms by (auto simp: dated_def)
  obtain y' m' d' where c': "next_day (y, m, d) = (y', m', d')" by (metis prod_cases3)
  have ok: "date_ok (y', m', d')" using next_ok [OF c(2)] c' by simp
  have n: "days_from_civil y' m' d' = n + 1" using days_next [OF c(2) c'] c(3) by simp
  from civil_inverse [OF ok] have "civil_from_days (n + 1) = (y', m', d')" by (simp add: n)
  then show "civil_from_days (n + 1) = next_day (civil_from_days n)" "dated (n + 1)"
    using c c' ok n by (simp_all add: dated_def)
qed

lemma civil_prev:
  assumes "dated n"
  shows "dated (n - 1)"
proof -
  obtain y m d where c: "civil_from_days n = (y, m, d)" "date_ok (y, m, d)" "days_from_civil y m d = n"
    using assms by (auto simp: dated_def)
  obtain y' m' d' where p: "prev_day (y, m, d) = (y', m', d')" by (metis prod_cases3)
  have ok: "date_ok (y', m', d')" "next_day (y', m', d') = (y, m, d)" using next_prev [OF c(2)] p by auto
  then have n: "days_from_civil y' m' d' = n - 1" using days_next [OF ok] c(3) by simp
  from civil_inverse [OF ok(1)] show ?thesis using ok(1) n by (simp add: dated_def n)
qed

lemma epoch: "civil_from_days 0 = (1970, 1, 1)"
  by (simp add: civil_from_days_def Let_def)

lemma all_dated: "dated n"
proof (induction n rule: int_induct [where k = 0])
  case base
  then show ?case by (simp add: dated_def epoch date_ok_def month_days_def days_from_civil_def Let_def)
qed (use civil_next civil_prev in auto)

text \<open>
  C37. The arithmetic on days follows the calendar, in both directions and without end: day 0 is the first
  of January 1970, and the day after any day has the date that follows by the rules for the lengths of
  months and for leap years.
\<close>

theorem calendar_is_followed:
  "civil_from_days 0 = (1970, 1, 1) \<and> date_ok (civil_from_days n) \<and> civil_from_days (n + 1) = next_day (civil_from_days n)"
  using epoch civil_next(1) [OF all_dated] all_dated [of n] by (auto simp: dated_def split: prod.splits)

lemma floor_eq:
  assumes "0 < b"
  shows "floor_div a b = a div b" "floor_mod a b = a mod b"
proof -
  have "floor_div a b = a div b \<and> floor_mod a b = a mod b"
  proof (cases "a \<ge> 0")
    case True
    then show ?thesis using assms pos_mod_sign [OF assms, of a]
      by (simp add: floor_div_def floor_mod_def sdiv_pos smod_pos Let_def not_less)
  next
    case False
    let ?n = "- a"
    have d: "a sdiv b = - (?n div b)" "a smod b = - (?n mod b)"
      using False assms by (simp_all add: signed_divide_int_def signed_modulo_int_def)
    have m: "0 < ?n mod b" if "?n mod b \<noteq> 0" using that pos_mod_sign [OF assms, of ?n] by linarith
    have "a div b = (if ?n mod b = 0 then - (?n div b) else - (?n div b) - 1)"
      "a mod b = (if ?n mod b = 0 then 0 else b - ?n mod b)"
      using zdiv_zminus1_eq_if [of b ?n] zmod_zminus1_eq_if [of ?n b] assms by simp_all
    then show ?thesis unfolding floor_div_def floor_mod_def d Let_def using False assms m
      by (cases "?n mod b = 0") simp_all
  qed
  then show "floor_div a b = a div b" "floor_mod a b = a mod b" by simp_all
qed

lemma before_year_bounds:
  "0 \<le> Y \<Longrightarrow> 365 * Y \<le> before_year Y" "Y < 0 \<Longrightarrow> before_year Y \<le> 365 * Y"
proof -
  assume "0 \<le> Y"
  then have "Y div 100 \<le> Y div 4" "0 \<le> Y div 400" using zdiv_mono2 [of Y 4 100] by (simp_all add: pos_imp_zdiv_nonneg_iff)
  then show "365 * Y \<le> before_year Y" by (simp add: before_year_def)
next
  assume "Y < 0"
  then have "Y div 4 \<le> Y div 100" "Y div 400 \<le> 0" using zdiv_mono2_neg [of Y 4 100] by (simp_all add: pos_imp_zdiv_neg_iff less_imp_le)
  then show "before_year Y \<le> 365 * Y" by (simp add: before_year_def)
qed

lemma year_bounds:
  assumes "civil_from_days n = (y, m, d)" "\<bar>n\<bar> \<le> 500000000000"
  shows "- 2000000000 < y" "y < 2000000000" "date_ok (y, m, d)" "days_from_civil y m d = n"
proof -
  show ok: "date_ok (y, m, d)" and n: "days_from_civil y m d = n" using all_dated [of n] assms(1) by (auto simp: dated_def)
  then have m: "1 \<le> m" "m \<le> 12" by (auto simp: date_ok_def)
  have "n + 719468 = before_year (shift_year y m) + (before_month (shift_month m) + d - 1)"
    using days_from_civil_eq [OF m, of y d] n by simp
  then have b: "before_year (shift_year y m) \<le> 500000719468" "- 500000000000 \<le> before_year (shift_year y m)"
    using day_of_year(1,2) [OF ok] assms(2) by linarith+
  have Y: "shift_year y m \<le> y" "y \<le> shift_year y m + 1" by (simp_all add: shift_year_def)
  show "y < 2000000000" "- 2000000000 < y" using before_year_bounds [of "shift_year y m"] b Y by linarith+
qed

lemma int32_same: "- 2147483648 \<le> x \<Longrightarrow> x < 2147483648 \<Longrightarrow> int32 x = x"
  by (simp add: int32_def)

lemma day_in_year:
  assumes "date_ok (y, m, d)"
  shows "0 \<le> days_from_civil y m d - days_from_civil y 1 1" "days_from_civil y m d - days_from_civil y 1 1 \<le> 365"
proof -
  have m: "1 \<le> m" "m \<le> 12" "1 \<le> d" "d \<le> month_days y m" using assms by (auto simp: date_ok_def)
  have one: "days_from_civil y 1 1 = before_year (y - 1) + before_month 10 - 719468"
    using days_from_civil_eq [of 1 y 1] by (simp add: shift_year_def shift_month_def)
  show "0 \<le> days_from_civil y m d - days_from_civil y 1 1" "days_from_civil y m d - days_from_civil y 1 1 \<le> 365"
    unfolding one days_from_civil_eq [OF m(1,2)]
    using twelve [OF m(1,2)] m(3,4) leap_step [of y]
    by (elim insertE emptyE; simp add: shift_month_def before_month_def shift_year_def month_days_def split: if_splits)+
qed

section \<open>Broken-down time\<close>

definition tm_ok :: "tm \<Rightarrow> bool" where
  "tm_ok t \<longleftrightarrow> 0 \<le> tm_sec t \<and> tm_sec t < 60 \<and> 0 \<le> tm_min t \<and> tm_min t < 60 \<and> 0 \<le> tm_hour t \<and> tm_hour t < 24
     \<and> 1 \<le> tm_mday t \<and> tm_mday t \<le> 31 \<and> 0 \<le> tm_mon t \<and> tm_mon t < 12
     \<and> - 2147483648 \<le> tm_year t \<and> tm_year t < 2147483648
     \<and> 0 \<le> tm_wday t \<and> tm_wday t < 7 \<and> 0 \<le> tm_yday t \<and> tm_yday t \<le> 365"

lemma int32_range: "- 2147483648 \<le> int32 x" "int32 x < 2147483648"
  using pos_mod_bound [of 4294967296 "x + 2147483648"] pos_mod_sign [of 4294967296 "x + 2147483648"]
  by (simp_all add: int32_def)

lemma gmtime_parts:
  assumes "civil_from_days (t div 86400) = (y, m, d)"
  shows "gmtime_r t = \<lparr>tm_sec = t mod 86400 mod 60, tm_min = t mod 86400 div 60 mod 60, tm_hour = t mod 86400 div 3600,
    tm_mday = d, tm_mon = m - 1, tm_year = int32 (y - 1900), tm_wday = (t div 86400 + 4) mod 7,
    tm_yday = days_from_civil y m d - days_from_civil y 1 1, tm_isdst = 0\<rparr>"
proof -
  have ok: "date_ok (y, m, d)" and n: "days_from_civil y m d = t div 86400"
    using all_dated [of "t div 86400"] assms by (auto simp: dated_def)
  have r: "0 \<le> t mod 86400" by simp
  have "int32 (t div 86400 - days_from_civil y 1 1) = days_from_civil y m d - days_from_civil y 1 1"
    using day_in_year [OF ok] n by (simp add: int32_same)
  then show ?thesis
    using assms sdiv_pos [OF r] smod_pos [OF r] smod_pos [of "t mod 86400 div 60" 60]
    by (simp add: gmtime_r_def floor_eq Let_def)
qed

lemma day_seconds:
  fixes r :: int
  assumes "0 \<le> r" "r < 86400"
  shows "r div 3600 < 24" "0 \<le> r div 3600" "r div 3600 * 3600 + r div 60 mod 60 * 60 + r mod 60 = r"
proof -
  have "r div 3600 \<le> 86399 div 3600" using assms(2) by (intro zdiv_mono1) simp_all
  then show "r div 3600 < 24" "0 \<le> r div 3600" using assms(1) by (simp_all add: pos_imp_zdiv_nonneg_iff)
  have "r div 3600 = r div 60 div 60" using zdiv_zmult2_eq [of 60 r 60] by simp
  then show "r div 3600 * 3600 + r div 60 mod 60 * 60 + r mod 60 = r"
    using div_mult_mod_eq [of r 60] div_mult_mod_eq [of "r div 60" 60] by linarith
qed

text \<open>
  C38. Whatever the count of seconds, every field of the broken-down time is in the range its type
  promises, so that none of them can index a table of names past its end.
\<close>

theorem gmtime_is_well_formed: "tm_ok (gmtime_r t)"
proof -
  obtain y m d where c: "civil_from_days (t div 86400) = (y, m, d)" by (metis prod_cases3)
  then have ok: "date_ok (y, m, d)" using all_dated [of "t div 86400"] by (simp add: dated_def)
  then have d: "1 \<le> m" "m \<le> 12" "1 \<le> d" "d \<le> 31" by (auto simp: date_ok_def month_days_def split: if_splits)
  have r: "0 \<le> t mod 86400" "t mod 86400 < 86400" by simp_all
  show ?thesis
    unfolding gmtime_parts [OF c] tm_ok_def
    using d day_in_year [OF ok] int32_range [of "y - 1900"] day_seconds(1,2) [OF r] by simp
qed

text \<open>
  C39. Turning seconds into a date and back gives the same seconds, for every instant within a billion
  years of 1970 on either side; the weekday counts on from the Thursday of the first day.
\<close>

theorem timegm_gmtime:
  assumes "\<bar>t\<bar> \<le> 40000000000000000"
  shows "timegm (gmtime_r t) = t \<and> tm_wday (gmtime_r t) = (4 + t div 86400) mod 7"
proof -
  let ?n = "t div 86400"
  obtain y m d where c: "civil_from_days ?n = (y, m, d)" by (metis prod_cases3)
  have "?n \<le> 40000000000000000 div 86400" "(- 40000000000000000) div 86400 \<le> ?n"
    using assms by (intro zdiv_mono1; simp)+
  then have "\<bar>?n\<bar> \<le> 500000000000" by simp
  note y = year_bounds [OF c this]
  have m: "1 \<le> m" "m \<le> 12" using y(3) by (auto simp: date_ok_def)
  have i: "int32 (y - 1900) = y - 1900" using y(1,2) by (intro int32_same) linarith+
  have mon: "(m - 1) div 12 = 0" "(m - 1) mod 12 = m - 1" using m by simp_all
  have dd: "days_from_civil y m 1 + (d - 1) = ?n" using y(4) days_from_civil_eq [OF m] by simp
  have "0 \<le> t mod 86400" "t mod 86400 < 86400" by simp_all
  note sec = day_seconds(3) [OF this]
  have "timegm (gmtime_r t) = ?n * 86400 + t mod 86400 div 3600 * 3600 + t mod 86400 div 60 mod 60 * 60 + t mod 86400 mod 60"
    unfolding gmtime_parts [OF c] timegm_def Let_def tm.simps i floor_eq [OF zero_less_numeral] mon
    using dd by (simp only: diff_add_cancel add_0_right)
  also have "\<dots> = ?n * 86400 + t mod 86400" using sec by linarith
  also have "\<dots> = t" by (rule div_mult_mod_eq)
  finally show ?thesis unfolding gmtime_parts [OF c] by (simp only: tm.simps add.commute)
qed

theorem timegm_gmtime_witness: "timegm (gmtime_r (- 12345678901)) = - 12345678901"
  using timegm_gmtime [of "- 12345678901"] by simp

section \<open>The offset in force\<close>

text \<open>What the search keeps: everything up to \<open>found\<close> is not after \<open>w\<close>, everything from \<open>hi\<close> on is.\<close>

lemma last_before_spec:
  assumes "sorted ts" "0 \<le> lo" "hi < int (length ts)" "lo \<le> hi + 1" "found = lo - 1"
    "\<forall>i < nat lo. ts ! i \<le> w" "\<forall>i < length ts. hi < int i \<longrightarrow> w < ts ! i"
  shows "\<exists>k. last_before ts w lo hi found = int k - 1 \<and> k \<le> length ts \<and> (\<forall>i < k. ts ! i \<le> w) \<and> (\<forall>i < length ts. k \<le> i \<longrightarrow> w < ts ! i)"
  using assms
proof (induction ts w lo hi found rule: last_before.induct)
  case (1 ts w lo hi found)
  show ?case
  proof (cases "lo \<le> hi")
    case False
    then have "lo = hi + 1" using "1.prems"(4) by simp
    moreover have "last_before ts w lo hi found = found" using False by (subst last_before.simps) simp
    ultimately show ?thesis using "1.prems" by (intro exI [of _ "nat lo"]) (simp add: nat_le_iff)
  next
    case True
    define mid where "mid = lo + (hi - lo) sdiv 2"
    have mid: "lo \<le> mid" "mid \<le> hi" using True by (simp_all add: mid_def sdiv_pos)
    have mono: "ts ! i \<le> ts ! j" if "i \<le> j" "j < length ts" for i j using "1.prems"(1) that by (rule sorted_nth_mono)
    have m: "nat mid < length ts" using mid "1.prems"(2,3) by linarith
    show ?thesis
    proof (cases "ts ! nat mid \<le> w")
      case le: True
      have "\<forall>i < nat (mid + 1). ts ! i \<le> w"
      proof (intro allI impI)
        fix i assume "i < nat (mid + 1)"
        then have "ts ! i \<le> ts ! nat mid" using mono [OF _ m] by simp
        then show "ts ! i \<le> w" using le by simp
      qed
      then have "\<exists>k. last_before ts w (mid + 1) hi mid = int k - 1 \<and> k \<le> length ts \<and> (\<forall>i < k. ts ! i \<le> w)
          \<and> (\<forall>i < length ts. k \<le> i \<longrightarrow> w < ts ! i)"
        using mid "1.prems"(1-3,7) by (intro "1.IH"(1) [OF True mid_def le]) simp_all
      moreover have "last_before ts w lo hi found = last_before ts w (mid + 1) hi mid"
        using True le by (subst last_before.simps) (simp only: mid_def Let_def if_True)
      ultimately show ?thesis by (simp only:)
    next
      case gt: False
      have "\<forall>i < length ts. mid - 1 < int i \<longrightarrow> w < ts ! i"
      proof (intro allI impI)
        fix i assume "i < length ts" "mid - 1 < int i"
        then have "ts ! nat mid \<le> ts ! i" using mono by (simp add: nat_le_iff)
        then show "w < ts ! i" using gt by simp
      qed
      then have "\<exists>k. last_before ts w lo (mid - 1) found = int k - 1 \<and> k \<le> length ts \<and> (\<forall>i < k. ts ! i \<le> w)
          \<and> (\<forall>i < length ts. k \<le> i \<longrightarrow> w < ts ! i)"
        using mid "1.prems"(1-3,5,6) by (intro "1.IH"(2) [OF True mid_def gt]) simp_all
      moreover have "last_before ts w lo hi found = last_before ts w lo (mid - 1) found"
        using True gt by (subst last_before.simps) (simp only: mid_def Let_def if_True if_False)
      ultimately show ?thesis by (simp only:)
    qed
  qed
qed

text \<open>The reference: go through the transitions in order and keep the last that is not after \<open>w\<close>.\<close>

definition type_in_force :: "zone \<Rightarrow> int \<Rightarrow> int" where
  "type_in_force z w =
     (case filter (\<lambda>(t, k). t \<le> w) (zip (z_when z) (z_which z)) of
        [] \<Rightarrow> first_standard 0 (z_types z)
      | ts \<Rightarrow> let k = snd (last ts) in if k < length (z_types z) then int k else -1)"

lemma filter_prefix:
  assumes "k \<le> length xs" "\<forall>i < k. P (xs ! i)" "\<forall>i < length xs. k \<le> i \<longrightarrow> \<not> P (xs ! i)"
  shows "filter P xs = take k xs"
proof -
  have "filter P (take k xs) = take k xs" using assms(2) by (auto simp: filter_id_conv in_set_conv_nth)
  moreover have "filter P (drop k xs) = []" using assms(1,3) by (auto simp: filter_empty_conv in_set_conv_nth)
  ultimately show ?thesis by (metis append_Nil2 append_take_drop_id filter_append)
qed

text \<open>
  C40. The binary search for the offset of an instant agrees with going through the transitions of the zone
  one after the other, for every zone whose transitions are in order.
\<close>

theorem search_finds_the_type_in_force:
  assumes "sorted (z_when z)" "length (z_which z) = length (z_when z)" "z_loaded z \<ge> 0" "z_types z \<noteq> []"
  shows "type_in z w = type_in_force z w"
proof -
  let ?ts = "z_when z"
  have "\<exists>k. last_before ?ts w 0 (int (length ?ts) - 1) (-1) = int k - 1 \<and> k \<le> length ?ts
    \<and> (\<forall>i < k. ?ts ! i \<le> w) \<and> (\<forall>i < length ?ts. k \<le> i \<longrightarrow> w < ?ts ! i)"
    by (rule last_before_spec) (simp_all add: assms(1))
  then obtain k where k: "last_before ?ts w 0 (int (length ?ts) - 1) (-1) = int k - 1" "k \<le> length ?ts"
    "\<forall>i < k. ?ts ! i \<le> w" "\<forall>i < length ?ts. k \<le> i \<longrightarrow> w < ?ts ! i"
    by blast
  have f: "filter (\<lambda>(t, k). t \<le> w) (zip ?ts (z_which z)) = take k (zip ?ts (z_which z))"
    by (rule filter_prefix) (use k(2-4) assms(2) in \<open>simp_all add: not_le\<close>)
  show ?thesis
  proof (cases k)
    case 0
    then show ?thesis using k(1) f assms(3,4) by (simp add: type_in_def type_in_force_def)
  next
    case (Suc j)
    then have "last (take k (zip ?ts (z_which z))) = (?ts ! j, z_which z ! j)" "take k (zip ?ts (z_which z)) \<noteq> []"
      using k(2) assms(2) by (simp_all add: take_Suc_conv_app_nth)
    then show ?thesis using k(1) f assms(3,4) Suc
      by (cases "take k (zip ?ts (z_which z))") (simp_all add: type_in_def type_in_force_def Let_def)
  qed
qed

definition two_zones :: zone where
  "two_zones = no_zone\<lparr>z_loaded := 1, z_when := [100, 200, 300], z_which := [1, 0, 1],
     z_types := [\<lparr>ty_offset = -18000, ty_is_dst = 0, ty_name = 0\<rparr>, \<lparr>ty_offset = -14400, ty_is_dst = 1, ty_name = 4\<rparr>]\<rparr>"

theorem search_finds_the_type_in_force_witness: "type_in two_zones 250 = 0 \<and> type_in two_zones 50 = 0 \<and> type_in two_zones 300 = 1"
  using search_finds_the_type_in_force [of two_zones 250] search_finds_the_type_in_force [of two_zones 50]
    search_finds_the_type_in_force [of two_zones 300]
  by (simp add: two_zones_def type_in_force_def)

section \<open>Formatting\<close>

lemma sink_fold:
  "s_len (fold sink_put cs s) = s_len s + length cs" "s_max (fold sink_put cs s) = s_max s"
  by (induction cs arbitrary: s) (simp_all add: sink_put_def Let_def)

lemma sink_fold_out:
  assumes "length (s_out s) = s_max s" "0 < s_max s"
  shows "s_out (fold sink_put cs s) = take (s_len s) (s_out s) @ take (s_max s - 1 - s_len s) cs
    @ drop (min (s_len s + length cs) (max (s_len s) (s_max s - 1))) (s_out s)"
  using assms
proof (induction cs arbitrary: s)
  case (Cons c cs)
  have l: "length (s_out (sink_put c s)) = s_max (sink_put c s)" "0 < s_max (sink_put c s)"
    using Cons.prems by (simp_all add: sink_put_def Let_def)
  show ?case
  proof (cases "s_len s + 1 < s_max s")
    case True
    then have p: "sink_put c s = s\<lparr>s_out := (s_out s)[s_len s := c], s_len := s_len s + 1\<rparr>" by (simp add: sink_put_def Let_def)
    have "take (Suc (s_len s)) ((s_out s)[s_len s := c]) = take (s_len s) (s_out s) @ [c]"
      using True Cons.prems(1) by (simp add: take_Suc_conv_app_nth)
    moreover have "s_max s - 1 - s_len s = Suc (s_max s - 1 - Suc (s_len s))" using True by simp
    moreover have "Suc (s_len s) \<le> s_max s - Suc 0" using True by simp
    ultimately show ?thesis using Cons.IH [OF l] p by (simp add: max_def min_def)
  next
    case False
    then have p: "sink_put c s = s\<lparr>s_len := s_len s + 1\<rparr>" by (simp add: sink_put_def Let_def)
    have "s_max s \<le> Suc (s_len s)" using False by simp
    then show ?thesis using Cons.IH [OF l] p False Cons.prems
      by (cases "s_len s = s_max s - 1") (simp_all add: max_def min_def, linarith+)
  qed
qed simp

text \<open>A formatter emits one text, whatever the sink.\<close>

definition emits :: "(sink \<Rightarrow> sink) \<Rightarrow> bool" where
  "emits g \<longleftrightarrow> (\<exists>cs. \<forall>s. g s = fold sink_put cs s)"

lemma emitsI: "(\<And>s. g s = fold sink_put cs s) \<Longrightarrow> emits g"
  unfolding emits_def by blast

lemma emits_comp:
  assumes "emits f" "emits g"
  shows "emits (\<lambda>s. f (g s))"
proof -
  obtain a b where "\<And>s. f s = fold sink_put a s" "\<And>s. g s = fold sink_put b s" using assms unfolding emits_def by blast
  then show ?thesis by (intro emitsI [of _ "b @ a"]) simp
qed

lemma emits_fold: "emits (fold sink_put cs)"
  by (rule emitsI) (rule refl)

lemma emits_number: "emits (put_number v n p)"
  unfolding put_number_def Let_def by (rule emits_comp [OF emits_fold emits_fold])

lemma emits_simple: "emits (sink_put c)" "emits (put_str cs)" "emits (\<lambda>s. s)"
  using emitsI [of "sink_put c" "[c]"] emitsI [of "put_str cs" cs] emitsI [of "\<lambda>s. s" "[]"] by (simp_all add: put_str_def)

lemma emits_if: "emits f \<Longrightarrow> emits g \<Longrightarrow> emits (\<lambda>s. if b then f s else g s)"
  by (cases b) simp_all

lemma emits_conv: "emits (put_conv c t)"
  unfolding put_conv_def Let_def
  by (rule emits_if emits_number emits_simple emits_comp [OF emits_number] emits_comp [OF emits_simple(1)])+

lemma emits_format: "emits (put_format f t)"
proof (induction f rule: length_induct)
  case (1 f)
  show ?case
  proof (cases f)
    case Nil
    then have "put_format f t = (\<lambda>s. s)" by (simp add: fun_eq_iff)
    then show ?thesis using emits_simple(3) by (simp only:)
  next
    case (Cons c g)
    show ?thesis
    proof (cases "c = CHR ''%''")
      case False
      then have "put_format f t = (\<lambda>s. put_format g t (sink_put c s))" using Cons by (simp add: fun_eq_iff)
      then show ?thesis using emits_comp [OF _ emits_simple(1), of "put_format g t" c] 1 Cons by simp
    next
      case True
      show ?thesis
      proof (cases g)
        case Nil
        then have "put_format f t = (\<lambda>s. s)" using Cons True by (simp add: fun_eq_iff)
        then show ?thesis using emits_simple(3) by (simp only:)
      next
        case (Cons k h)
        then have "put_format f t = (\<lambda>s. put_format h t (put_conv k t s))" using \<open>f = c # g\<close> True by (simp add: fun_eq_iff)
        then show ?thesis using emits_comp [OF _ emits_conv, of "put_format h t" k t] 1 Cons \<open>f = c # g\<close> by simp
      qed
    qed
  qed
qed

text \<open>
  A format and a date have one text, and formatting into a buffer writes it there with its terminator
  when it fits; when it does not, the buffer holds as much of it as there is room for, terminated, and
  the answer says so. Nothing outside the buffer is written.
\<close>

lemma strftime_fits_or_says_so:
  "\<exists>cs. \<forall>out room. length out = room \<longrightarrow> 0 < room \<longrightarrow> strftime out room f t =
     (if length cs < room then (length cs, cs @ CHR 0x00 # drop (length cs + 1) out)
      else (0, take (room - 1) cs @ [CHR 0x00]))"
proof -
  obtain cs where cs: "\<And>s. put_format f t s = fold sink_put cs s" using emits_format unfolding emits_def by blast
  show ?thesis
  proof (intro exI [of _ cs] allI impI)
    fix out :: string and room
    assume room: "length out = room" "0 < room"
    let ?s = "\<lparr>s_out = out, s_max = room, s_len = 0\<rparr>"
    have o: "s_out (fold sink_put cs ?s) = take (room - 1) cs @ drop (min (length cs) (room - 1)) out"
      using sink_fold_out [of ?s cs] room by simp
    show "strftime out room f t = (if length cs < room then (length cs, cs @ CHR 0x00 # drop (length cs + 1) out)
      else (0, take (room - 1) cs @ [CHR 0x00]))"
    proof (cases "length cs < room")
      case True
      then have "drop (length cs) out = out ! length cs # drop (length cs + 1) out" using room by (simp add: Cons_nth_drop_Suc)
      moreover have "min (length cs) (room - 1) = length cs" "take (room - 1) cs = cs" using True by simp_all
      ultimately show ?thesis using True room cs o sink_fold(1) [of cs ?s] by (simp add: strftime_def Let_def)
    next
      case False
      then have "drop (room - 1) out = [out ! (room - 1)]" using room Cons_nth_drop_Suc [of "room - 1" out] by simp
      moreover have "min (length cs) (room - 1) = room - 1" using False by simp
      ultimately show ?thesis using False room cs o sink_fold(1) [of cs ?s]
        by (simp add: strftime_def Let_def list_update_append)
    qed
  qed
qed

end
