(* ===== verification/Kernel_Pmm.thy ===== *)
theory Kernel_Pmm
  imports Leah_Prelude
begin

text \<open>
  \<^verbatim>\<open>kernel/mm/pmm.cpp\<close>: the physical frame allocator, a bitmap with one bit per frame (1 is in use),
  the reference counts beyond the first owner, and the poison written into freed frames. Addresses
  and counters are natural numbers with the 64-bit wrap written out. \<open>pages\<close> is the contents of the
  frames, in 64-bit words, and \<open>reports\<close> collects what \<^verbatim>\<open>check_poison\<close> prints.
\<close>

definition kPageSize :: nat where "kPageSize = 4096"
definition kPageShift :: nat where "kPageShift = 12"

definition page_align_down :: "nat \<Rightarrow> nat" where
  "page_align_down a = a div 4096 * 4096"

definition page_align_up :: "nat \<Rightarrow> nat" where
  "page_align_up a = u64 (a + 4095) div 4096 * 4096"

record pmm =
  bitmap :: "64 word list"
  frame_count :: nat
  total_bytes :: nat
  usable_bytes :: nat
  highest_usable :: nat
  used_frames :: nat
  free_frames :: nat
  search_hint :: nat
  refs :: "nat list option"
  can_reach_frames :: bool
  pages :: "nat \<Rightarrow> nat \<Rightarrow> 64 word"
  reports :: "(nat \<times> nat) list"

section \<open>Single frames\<close>

text \<open>A frame outside the bitmap counts as in use.\<close>

definition test_frame :: "pmm \<Rightarrow> nat \<Rightarrow> bool" where
  "test_frame p f = (if f \<ge> frame_count p then True else bit (bitmap p ! (f div 64)) (f mod 64))"

definition mark_used :: "nat \<Rightarrow> pmm \<Rightarrow> pmm" where
  "mark_used f p =
     (if f \<ge> frame_count p then p
      else if \<not> test_frame p f then
        p\<lparr>bitmap := (bitmap p)[f div 64 := Bit_Operations.set_bit (f mod 64) (bitmap p ! (f div 64))],
          used_frames := u64 (used_frames p + 1), free_frames := sub64 (free_frames p) 1\<rparr>
      else p)"

definition mark_free :: "nat \<Rightarrow> pmm \<Rightarrow> pmm" where
  "mark_free f p =
     (if f \<ge> frame_count p then p
      else if test_frame p f then
        p\<lparr>bitmap := (bitmap p)[f div 64 := unset_bit (f mod 64) (bitmap p ! (f div 64))],
          used_frames := sub64 (used_frames p) 1, free_frames := u64 (free_frames p + 1)\<rparr>
      else p)"

definition reserve_range :: "nat \<Rightarrow> nat \<Rightarrow> pmm \<Rightarrow> pmm" where
  "reserve_range base len p =
     fold mark_used [page_align_down base div 4096 ..< page_align_up (u64 (base + len)) div 4096] p"

definition release_range :: "nat \<Rightarrow> nat \<Rightarrow> pmm \<Rightarrow> pmm" where
  "release_range base len p =
     fold mark_free [page_align_up base div 4096 ..< page_align_down (u64 (base + len)) div 4096] p"

section \<open>Poison\<close>

definition kPoisonWord :: "64 word" where "kPoisonWord = 0xCCCCCCCCCCCCCCCC"

definition poison :: "nat \<Rightarrow> pmm \<Rightarrow> pmm" where
  "poison f p =
     (if \<not> can_reach_frames p then p
      else p\<lparr>pages := (pages p)(f := (\<lambda>i. if i < 512 then kPoisonWord else pages p f i))\<rparr>)"

text \<open>The first word of a poisoned frame that is no longer poison is reported.\<close>

definition check_poison :: "nat \<Rightarrow> pmm \<Rightarrow> pmm" where
  "check_poison f p =
     (if \<not> can_reach_frames p then p
      else if pages p f 0 \<noteq> kPoisonWord then p
      else (case filter (\<lambda>i. pages p f i \<noteq> kPoisonWord) [1 ..< 512] of
          [] \<Rightarrow> p
        | i # _ \<Rightarrow> p\<lparr>reports := reports p @ [(f, i)]\<rparr>))"

section \<open>Allocation\<close>

text \<open>The bits of one word: the loop stops at the end of memory.\<close>

fun scan_bits :: "pmm \<Rightarrow> nat list \<Rightarrow> nat option" where
  "scan_bits p [] = None"
| "scan_bits p (f # fs) =
     (if f \<ge> frame_count p then None else if test_frame p f then scan_bits p fs else Some f)"

fun scan_words :: "pmm \<Rightarrow> nat list \<Rightarrow> nat option" where
  "scan_words p [] = None"
| "scan_words p (w # ws) =
     (if bitmap p ! w = - 1 then scan_words p ws
      else (case scan_bits p [w * 64 ..< w * 64 + 64] of
          Some f \<Rightarrow> Some f
        | None \<Rightarrow> scan_words p ws))"

text \<open>An address, or 0 when nothing is free. Two passes: from the hint on, then the words before it.\<close>

definition alloc_locked :: "pmm \<Rightarrow> nat \<times> pmm" where
  "alloc_locked p =
     (case scan_words p ([search_hint p ..< length (bitmap p)] @ [0 ..< search_hint p]) of
        None \<Rightarrow> (0, p)
      | Some f \<Rightarrow> (f * 4096, check_poison f ((mark_used f p)\<lparr>search_hint := f div 64\<rparr>)))"

definition free_locked :: "nat \<Rightarrow> pmm \<Rightarrow> pmm" where
  "free_locked a p =
     (if a = 0 then p
      else let f = a div 4096;
               p = (if f < frame_count p \<and> test_frame p f then poison f p else p);
               p = mark_free f p
           in if f div 64 < search_hint p then p\<lparr>search_hint := f div 64\<rparr> else p)"

definition pmm_alloc :: "pmm \<Rightarrow> nat \<times> pmm" where
  "pmm_alloc p = alloc_locked p"

text \<open>The scan for a run: where the current run started and how long it is.\<close>

fun find_run :: "pmm \<Rightarrow> nat \<Rightarrow> nat list \<Rightarrow> nat \<Rightarrow> nat \<Rightarrow> nat option" where
  "find_run p frames [] start run = None"
| "find_run p frames (f # fs) start run =
     (if test_frame p f then find_run p frames fs start 0
      else let start = (if run = 0 then f else start)
           in if run + 1 = frames then Some start else find_run p frames fs start (run + 1))"

definition alloc_contiguous :: "nat \<Rightarrow> pmm \<Rightarrow> nat \<times> pmm" where
  "alloc_contiguous frames p =
     (if frames = 0 then (0, p)
      else if frames = 1 then alloc_locked p
      else (case find_run p frames [0 ..< frame_count p] 0 0 of
          None \<Rightarrow> (0, p)
        | Some start \<Rightarrow> (start * 4096, fold mark_used [start ..< start + frames] p)))"

definition pmm_free :: "nat \<Rightarrow> pmm \<Rightarrow> pmm" where
  "pmm_free a p = free_locked a p"

definition free_contiguous :: "nat \<Rightarrow> nat \<Rightarrow> pmm \<Rightarrow> pmm" where
  "free_contiguous base frames p = fold (\<lambda>i. free_locked (u64 (base + i * 4096))) [0 ..< frames] p"

section \<open>Reference counts\<close>

text \<open>\<open>room\<close> says whether the heap can hold the table.\<close>

definition init_refcounts :: "bool \<Rightarrow> pmm \<Rightarrow> pmm" where
  "init_refcounts room p =
     (if refs p \<noteq> None then p
      else if \<not> room then p
      else p\<lparr>refs := Some (replicate (highest_usable p div 4096) 0)\<rparr>)"

definition share :: "nat \<Rightarrow> pmm \<Rightarrow> bool \<times> pmm" where
  "share a p =
     (case refs p of
        None \<Rightarrow> (False, p)
      | Some rs \<Rightarrow>
          let i = a div 4096 in
          if i \<ge> length rs then (False, p)
          else if rs ! i = 0xFFFF then (False, p)
          else (True, p\<lparr>refs := Some (rs[i := rs ! i + 1])\<rparr>))"

definition is_shared :: "nat \<Rightarrow> pmm \<Rightarrow> bool" where
  "is_shared a p =
     (case refs p of
        None \<Rightarrow> False
      | Some rs \<Rightarrow> let i = a div 4096 in if i \<ge> length rs then False else rs ! i > 0)"

definition pmm_release :: "nat \<Rightarrow> pmm \<Rightarrow> pmm" where
  "pmm_release a p =
     (let i = a div 4096 in
      case refs p of
        Some rs \<Rightarrow>
          if i < length rs \<and> rs ! i > 0 then p\<lparr>refs := Some (rs[i := rs ! i - 1])\<rparr>
          else free_locked a p
      | None \<Rightarrow> free_locked a p)"

definition use_direct_map :: "pmm \<Rightarrow> pmm" where
  "use_direct_map p = p\<lparr>can_reach_frames := True\<rparr>"

definition used_bytes :: "pmm \<Rightarrow> nat" where "used_bytes p = u64 (used_frames p * 4096)"
definition free_bytes :: "pmm \<Rightarrow> nat" where "free_bytes p = u64 (free_frames p * 4096)"

section \<open>Starting up\<close>

text \<open>A region of the firmware's map: base, length, and whether it is usable memory.\<close>

record region =
  r_base :: nat
  r_length :: nat
  r_usable :: bool

definition region_end :: "region \<Rightarrow> nat" where
  "region_end r = u64 (r_base r + r_length r)"

text \<open>
  \<open>kstart\<close> and \<open>kend\<close> are the physical bounds of the kernel image, \<open>mem\<close> what the frames hold. The
  bitmap goes right after the kernel; \<open>None\<close> is the panic when no usable region holds it.
\<close>

definition pmm_init :: "region list \<Rightarrow> nat \<Rightarrow> nat \<Rightarrow> (nat \<Rightarrow> nat \<Rightarrow> 64 word) \<Rightarrow> pmm option" where
  "pmm_init regions kstart kend mem =
     (let total = fold (\<lambda>r t. if region_end r > t then region_end r else t) regions 0;
          usable = fold (\<lambda>r u. if r_usable r then u64 (u + r_length r) else u) regions 0;
          highest = fold (\<lambda>r h. if r_usable r \<and> region_end r > h then region_end r else h) regions 0;
          count = page_align_up highest div 4096;
          nwords = (count + 63) div 64;
          bitmap_bytes = nwords * 8;
          bitmap_base = page_align_up kend
      in if \<not> list_ex (\<lambda>r. r_usable r \<and> bitmap_base \<ge> r_base r
                 \<and> u64 (bitmap_base + bitmap_bytes) \<le> region_end r) regions
         then None
         else let p = \<lparr>bitmap = replicate nwords (- 1), frame_count = count, total_bytes = total,
                       usable_bytes = usable, highest_usable = highest, used_frames = count,
                       free_frames = 0, search_hint = 0, refs = None, can_reach_frames = False,
                       pages = mem, reports = []\<rparr>;
                  p = fold (\<lambda>r p. if r_usable r then release_range (r_base r) (r_length r) p else p) regions p;
                  p = reserve_range 0 0x100000 p;
                  p = reserve_range kstart (sub64 kend kstart) p;
                  p = reserve_range bitmap_base bitmap_bytes p
              in Some (p\<lparr>search_hint := 0\<rparr>))"

end
