(* ===== verification/Kernel_Pmm_Laws.thy ===== *)
theory Kernel_Pmm_Laws
  imports Kernel_Pmm
begin

text \<open>
  The frame allocator of \<^verbatim>\<open>kernel/mm/pmm.cpp\<close> keeps a set of free frames: the operations are
  described by what they do to that set, the counters always agree with it, and a frame is handed
  out to one owner at a time.
\<close>

definition avail :: "pmm \<Rightarrow> nat set" where
  "avail p = {f. \<not> test_frame p f}"

definition map_ok :: "pmm \<Rightarrow> bool" where
  "map_ok p \<longleftrightarrow> length (bitmap p) = (frame_count p + 63) div 64 \<and> frame_count p < 2 ^ 52"

definition counts_ok :: "pmm \<Rightarrow> bool" where
  "counts_ok p \<longleftrightarrow> free_frames p = card (avail p) \<and> used_frames p = frame_count p - card (avail p)"

text \<open>What every state of the allocator satisfies; frame 0 is never free, so 0 can mean "none left".\<close>

definition pmm_ok :: "pmm \<Rightarrow> bool" where
  "pmm_ok p \<longleftrightarrow> map_ok p \<and> counts_ok p \<and> search_hint p \<le> length (bitmap p) \<and> 0 \<notin> avail p"

lemma avail_below: "f \<in> avail p \<Longrightarrow> f < frame_count p"
  by (auto simp: avail_def test_frame_def split: if_splits)

lemma avail_finite [simp]: "finite (avail p)"
  by (rule finite_subset [of _ "{..< frame_count p}"]) (auto dest: avail_below)

lemma card_avail_le: "card (avail p) \<le> frame_count p"
  using card_mono [of "{..< frame_count p}" "avail p"] by (auto dest: avail_below)

lemma map_ok_word: "map_ok p \<Longrightarrow> f < frame_count p \<Longrightarrow> f div 64 < length (bitmap p)"
  by (simp add: map_ok_def div_less_iff_less_mult)

text \<open>What marking a frame leaves alone.\<close>

lemma mark_frame [frame_simps, simp]:
  "frame_count (mark_used f p) = frame_count p" "frame_count (mark_free f p) = frame_count p"
  "length (bitmap (mark_used f p)) = length (bitmap p)" "length (bitmap (mark_free f p)) = length (bitmap p)"
  "refs (mark_used f p) = refs p" "refs (mark_free f p) = refs p"
  "search_hint (mark_used f p) = search_hint p" "search_hint (mark_free f p) = search_hint p"
  "highest_usable (mark_used f p) = highest_usable p" "highest_usable (mark_free f p) = highest_usable p"
  "pages (mark_used f p) = pages p" "pages (mark_free f p) = pages p"
  "reports (mark_used f p) = reports p" "reports (mark_free f p) = reports p"
  "can_reach_frames (mark_used f p) = can_reach_frames p" "can_reach_frames (mark_free f p) = can_reach_frames p"
  by (simp_all add: mark_used_def mark_free_def)

lemma same_place: "f div 64 = g div 64 \<Longrightarrow> f mod 64 = g mod 64 \<Longrightarrow> f = (g::nat)"
  by (metis div_mult_mod_eq)

lemma test_mark_used:
  assumes "map_ok p"
  shows "test_frame (mark_used f p) g \<longleftrightarrow> test_frame p g \<or> g = f"
proof (cases "f < frame_count p \<and> \<not> test_frame p f")
  case True
  then show ?thesis using map_ok_word [OF assms, of f] same_place [of f g]
    by (auto simp: mark_used_def test_frame_def nth_list_update bit_set_bit_iff)
next
  case False
  then show ?thesis by (auto simp: mark_used_def test_frame_def)
qed

lemma test_mark_free:
  assumes "map_ok p"
  shows "test_frame (mark_free f p) g \<longleftrightarrow> test_frame p g \<and> (g \<noteq> f \<or> frame_count p \<le> f)"
proof (cases "f < frame_count p \<and> test_frame p f")
  case True
  then show ?thesis using map_ok_word [OF assms, of f] same_place [of f g]
    by (auto simp: mark_free_def test_frame_def nth_list_update bit_unset_bit_iff)
next
  case False
  then show ?thesis by (auto simp: mark_free_def test_frame_def)
qed

lemma avail_mark_used: "map_ok p \<Longrightarrow> avail (mark_used f p) = avail p - {f}"
  by (auto simp: avail_def test_mark_used)

lemma avail_mark_free: "map_ok p \<Longrightarrow> f < frame_count p \<Longrightarrow> avail (mark_free f p) = insert f (avail p)"
  by (auto simp: avail_def test_mark_free)

lemma mark_free_outside: "frame_count p \<le> f \<Longrightarrow> mark_free f p = p"
  by (simp add: mark_free_def)

lemma mark_map_ok: "map_ok p \<Longrightarrow> map_ok (mark_used f p)" "map_ok p \<Longrightarrow> map_ok (mark_free f p)"
  by (simp_all add: map_ok_def)

lemma mark_counters:
  "f \<in> avail p \<Longrightarrow> used_frames (mark_used f p) = u64 (used_frames p + 1)"
  "f \<in> avail p \<Longrightarrow> free_frames (mark_used f p) = sub64 (free_frames p) 1"
  "f \<notin> avail p \<Longrightarrow> mark_used f p = p"
  "f \<notin> avail p \<Longrightarrow> f < frame_count p \<Longrightarrow> used_frames (mark_free f p) = sub64 (used_frames p) 1"
  "f \<notin> avail p \<Longrightarrow> f < frame_count p \<Longrightarrow> free_frames (mark_free f p) = u64 (free_frames p + 1)"
  "f \<in> avail p \<Longrightarrow> mark_free f p = p"
  by (auto simp: mark_used_def mark_free_def avail_def test_frame_def split: if_splits)

lemma mark_counts_ok:
  assumes "map_ok p" "counts_ok p"
  shows "counts_ok (mark_used f p)" "counts_ok (mark_free f p)"
proof -
  have le: "card (avail p) \<le> frame_count p" "frame_count p < 2 ^ 52"
    using card_avail_le assms(1) by (simp_all add: map_ok_def)
  show "counts_ok (mark_used f p)"
  proof (cases "f \<in> avail p")
    case True
    then have "0 < card (avail p)" by (auto simp: card_gt_0_iff)
    then show ?thesis using assms le True by (simp add: counts_ok_def avail_mark_used mark_counters)
  qed (use assms(2) in \<open>simp add: mark_counters\<close>)
  show "counts_ok (mark_free f p)"
  proof (cases "f \<in> avail p \<or> frame_count p \<le> f")
    case False
    then have "card (insert f (avail p)) \<le> frame_count p"
      using card_avail_le [of "mark_free f p"] assms(1) by (simp add: avail_mark_free)
    then show ?thesis using assms le False by (simp add: counts_ok_def avail_mark_free mark_counters)
  qed (use assms(2) in \<open>auto simp: mark_counters mark_free_outside\<close>)
qed

section \<open>Runs of frames\<close>

text \<open>The same allocator with another set of free frames.\<close>

definition now_avail :: "pmm \<Rightarrow> nat set \<Rightarrow> pmm \<Rightarrow> bool" where
  "now_avail p A q \<longleftrightarrow> map_ok q \<and> counts_ok q \<and> avail q = A \<and> frame_count q = frame_count p
     \<and> length (bitmap q) = length (bitmap p) \<and> search_hint q = search_hint p \<and> refs q = refs p
     \<and> highest_usable q = highest_usable p \<and> pages q = pages p \<and> reports q = reports p \<and> can_reach_frames q = can_reach_frames p"

lemma now_avail_refl: "map_ok p \<Longrightarrow> counts_ok p \<Longrightarrow> now_avail p (avail p) p"
  by (simp add: now_avail_def)

lemma mark_used_now: "map_ok p \<Longrightarrow> counts_ok p \<Longrightarrow> now_avail p (avail p - {f}) (mark_used f p)"
  by (simp add: now_avail_def mark_map_ok mark_counts_ok avail_mark_used)

lemma mark_free_now:
  "map_ok p \<Longrightarrow> counts_ok p \<Longrightarrow> now_avail p (avail p \<union> ({f} \<inter> {..< frame_count p})) (mark_free f p)"
  by (cases "f < frame_count p") (auto simp: now_avail_def mark_map_ok mark_counts_ok avail_mark_free mark_free_outside)

lemma now_avail_trans: "now_avail p A q \<Longrightarrow> now_avail q B r \<Longrightarrow> now_avail p B r"
  by (simp add: now_avail_def)

lemma fold_mark_used:
  assumes "map_ok p" "counts_ok p"
  shows "now_avail p (avail p - set fs) (fold mark_used fs p)"
  using assms
proof (induction fs arbitrary: p)
  case (Cons f fs)
  note m = mark_used_now [OF Cons.prems, of f]
  then have "now_avail (mark_used f p) (avail (mark_used f p) - set fs) (fold mark_used fs (mark_used f p))"
    by (intro Cons.IH) (simp_all add: now_avail_def)
  then show ?case using now_avail_trans [OF m] Cons.prems by (simp add: avail_mark_used Diff_insert2 [symmetric])
qed (simp add: now_avail_refl)

lemma fold_mark_free:
  assumes "map_ok p" "counts_ok p"
  shows "now_avail p (avail p \<union> (set fs \<inter> {..< frame_count p})) (fold mark_free fs p)"
  using assms
proof (induction fs arbitrary: p)
  case (Cons f fs)
  note m = mark_free_now [OF Cons.prems, of f]
  then have "now_avail (mark_free f p) (avail (mark_free f p) \<union> (set fs \<inter> {..< frame_count p})) (fold mark_free fs (mark_free f p))"
    using Cons.IH [of "mark_free f p"] by (simp add: now_avail_def)
  moreover have "avail (mark_free f p) \<union> (set fs \<inter> {..< frame_count p}) = avail p \<union> (set (f # fs) \<inter> {..< frame_count p})"
    using m by (auto simp: now_avail_def)
  ultimately show ?case using now_avail_trans [OF m] by simp
qed (simp add: now_avail_refl)

section \<open>Allocation\<close>

lemma scan_bits_Some: "scan_bits p fs = Some f \<Longrightarrow> f \<in> set fs \<and> f \<in> avail p"
  by (induction p fs rule: scan_bits.induct) (auto simp: avail_def split: if_splits)

lemma scan_bits_None: "sorted fs \<Longrightarrow> scan_bits p fs = None \<Longrightarrow> set fs \<inter> avail p = {}"
proof (induction p fs rule: scan_bits.induct)
  case (2 p f fs)
  show ?case
  proof (cases "f \<ge> frame_count p")
    case True
    then have "\<forall>g \<in> set (f # fs). frame_count p \<le> g" using 2(2) by auto
    then show ?thesis by (fastforce dest: avail_below)
  next
    case False
    then show ?thesis using 2 by (auto simp: avail_def split: if_splits)
  qed
qed simp

lemma full_word: "bitmap p ! w = - 1 \<Longrightarrow> f div 64 = w \<Longrightarrow> f \<notin> avail p"
  by (auto simp: avail_def test_frame_def)

lemma word_frames: "f \<in> set [w * 64 ..< w * 64 + 64] \<longleftrightarrow> f div 64 = (w::nat)"
  by (auto simp: dividend_less_div_times)

lemma scan_words_Some: "scan_words p ws = Some f \<Longrightarrow> f div 64 \<in> set ws \<and> f \<in> avail p"
  by (induction p ws rule: scan_words.induct)
    (auto split: if_splits option.splits dest!: scan_bits_Some simp del: upt_Suc simp: word_frames)

lemma scan_words_None: "scan_words p ws = None \<Longrightarrow> f div 64 \<in> set ws \<Longrightarrow> f \<notin> avail p"
proof (induction p ws rule: scan_words.induct)
  case (2 p w ws)
  show ?case
  proof (cases "f div 64 = w")
    case True
    have "bitmap p ! w = - 1 \<or> scan_bits p [w * 64 ..< w * 64 + 64] = None"
      using 2(3) by (simp split: if_splits option.splits del: upt_Suc)
    moreover have "scan_bits p [w * 64 ..< w * 64 + 64] = None \<Longrightarrow> set [w * 64 ..< w * 64 + 64] \<inter> avail p = {}"
      by (rule scan_bits_None) simp_all
    ultimately show ?thesis using full_word [of p w f] word_frames [of f w] True by blast
  next
    case False
    then show ?thesis using 2 by (auto split: if_splits option.splits)
  qed
qed simp

lemma check_poison_same [simp]:
  "bitmap (check_poison f p) = bitmap p" "frame_count (check_poison f p) = frame_count p"
  "search_hint (check_poison f p) = search_hint p" "refs (check_poison f p) = refs p"
  "pages (check_poison f p) = pages p" "free_frames (check_poison f p) = free_frames p"
  "used_frames (check_poison f p) = used_frames p" "can_reach_frames (check_poison f p) = can_reach_frames p"
  by (simp_all add: check_poison_def split: list.split)

lemma test_frame_cong: "bitmap q = bitmap p \<Longrightarrow> frame_count q = frame_count p \<Longrightarrow> test_frame q = test_frame p"
  by (rule ext) (simp add: test_frame_def)

lemma avail_cong: "bitmap q = bitmap p \<Longrightarrow> frame_count q = frame_count p \<Longrightarrow> avail q = avail p"
  by (simp add: avail_def test_frame_cong [of q p])

lemma avail_fields [simp]:
  "avail (p\<lparr>search_hint := h\<rparr>) = avail p" "avail (p\<lparr>refs := r\<rparr>) = avail p"
  "avail (p\<lparr>can_reach_frames := b\<rparr>) = avail p" "avail (p\<lparr>pages := m\<rparr>) = avail p"
  by (rule avail_cong; simp)+

lemma pmm_ok_cong:
  assumes "bitmap q = bitmap p" "frame_count q = frame_count p" "free_frames q = free_frames p"
    "used_frames q = used_frames p" "search_hint q \<le> length (bitmap p)"
  shows "pmm_ok p \<Longrightarrow> pmm_ok q"
  using assms avail_cong [of q p] by (simp add: pmm_ok_def map_ok_def counts_ok_def)

lemma pmm_ok_fields [simp]:
  "pmm_ok (p\<lparr>refs := r\<rparr>) = pmm_ok p" "pmm_ok (p\<lparr>can_reach_frames := b\<rparr>) = pmm_ok p"
  "pmm_ok (p\<lparr>pages := m\<rparr>) = pmm_ok p"
  by (simp_all add: pmm_ok_def map_ok_def counts_ok_def)

lemma pmm_okD: "pmm_ok p \<Longrightarrow> map_ok p" "pmm_ok p \<Longrightarrow> counts_ok p" "pmm_ok p \<Longrightarrow> 0 \<notin> avail p"
  "pmm_ok p \<Longrightarrow> search_hint p \<le> length (bitmap p)"
  by (simp_all add: pmm_ok_def)

lemma alloc_none: "pmm_ok p \<Longrightarrow> avail p = {} \<Longrightarrow> alloc_locked p = (0, p)"
  by (auto simp: alloc_locked_def split: option.split dest!: scan_words_Some)

lemma alloc_some:
  assumes "pmm_ok p" "avail p \<noteq> {}"
  obtains f where "f \<in> avail p" "f \<noteq> 0"
    "alloc_locked p = (f * 4096, check_poison f ((mark_used f p)\<lparr>search_hint := f div 64\<rparr>))"
proof -
  let ?ws = "[search_hint p ..< length (bitmap p)] @ [0 ..< search_hint p]"
  obtain g where g: "g \<in> avail p" using assms(2) by blast
  have "g div 64 \<in> set ?ws" using map_ok_word [OF pmm_okD(1) [OF assms(1)] avail_below [OF g]] by auto
  then obtain f where f: "scan_words p ?ws = Some f" using scan_words_None [of p ?ws g] g by (cases "scan_words p ?ws") auto
  then have "f \<in> avail p" using scan_words_Some by blast
  moreover have "f \<noteq> 0" using calculation pmm_okD(3) [OF assms(1)] by metis
  ultimately show thesis using that f by (simp add: alloc_locked_def)
qed

lemma now_avail_ok:
  assumes "now_avail p A q" "pmm_ok p" "0 \<notin> A"
  shows "pmm_ok q"
  using assms by (simp add: now_avail_def pmm_ok_def)

lemma alloc_result_avail:
  assumes "pmm_ok p"
  shows "avail (check_poison f ((mark_used f p)\<lparr>search_hint := h\<rparr>)) = avail p - {f}"
  using avail_cong [of "check_poison f ((mark_used f p)\<lparr>search_hint := h\<rparr>)" "mark_used f p"] pmm_okD(1) [OF assms]
  by (simp add: avail_mark_used)

lemma alloc_locked_ok:
  assumes "pmm_ok p"
  shows "pmm_ok (snd (alloc_locked p))"
proof (cases "avail p = {}")
  case False
  then obtain f where f: "f \<in> avail p"
    "alloc_locked p = (f * 4096, check_poison f ((mark_used f p)\<lparr>search_hint := f div 64\<rparr>))"
    using alloc_some [OF assms] by blast
  have m: "pmm_ok (mark_used f p)"
    using now_avail_ok [OF mark_used_now assms, of f] pmm_okD [OF assms] by simp
  have "f div 64 < length (bitmap p)" using map_ok_word [OF pmm_okD(1) [OF assms] avail_below [OF f(1)]] .
  then show ?thesis using f(2) m by (auto intro: pmm_ok_cong [OF _ _ _ _ _ m])
qed (simp add: alloc_none assms)

lemma fold_used_ok: "pmm_ok p \<Longrightarrow> pmm_ok (fold mark_used fs p)"
  using now_avail_ok [OF fold_mark_used, of p] pmm_okD [of p] by simp

lemma alloc_contiguous_ok: "pmm_ok p \<Longrightarrow> pmm_ok (snd (alloc_contiguous n p))"
  by (simp add: alloc_contiguous_def alloc_locked_ok fold_used_ok split: option.split)

section \<open>Freeing\<close>

lemma poison_same [simp]:
  "bitmap (poison f p) = bitmap p" "frame_count (poison f p) = frame_count p"
  "search_hint (poison f p) = search_hint p" "refs (poison f p) = refs p"
  "free_frames (poison f p) = free_frames p" "used_frames (poison f p) = used_frames p"
  "can_reach_frames (poison f p) = can_reach_frames p"
  by (simp_all add: poison_def)

lemma poison_ok: "pmm_ok p \<Longrightarrow> pmm_ok (poison f p)" "avail (poison f p) = avail p"
  using pmm_ok_cong [of "poison f p" p] avail_cong [of "poison f p" p] by (simp_all add: pmm_ok_def)

lemma free_locked_ok:
  assumes "pmm_ok p" "a \<noteq> 0 \<Longrightarrow> a div 4096 \<noteq> 0"
  shows "pmm_ok (free_locked a p)"
proof (cases "a = 0")
  case False
  define f where "f = a div 4096"
  define q where "q = (if f < frame_count p \<and> test_frame p f then poison f p else p)"
  have q: "pmm_ok q" using assms(1) poison_ok(1) by (simp add: q_def)
  have m: "pmm_ok (mark_free f q)"
    using now_avail_ok [OF mark_free_now q, of f] pmm_okD [OF q] assms(2) False by (auto simp: f_def)
  have "free_locked a p = (if f div 64 < search_hint (mark_free f q) then (mark_free f q)\<lparr>search_hint := f div 64\<rparr> else mark_free f q)"
    using False by (simp add: free_locked_def Let_def f_def q_def)
  then show ?thesis using m pmm_okD(4) [OF m] by (auto intro: pmm_ok_cong [OF _ _ _ _ _ m])
qed (simp add: free_locked_def assms(1))


lemma free_locked_refs [simp]: "refs (free_locked a p) = refs p"
  "frame_count (free_locked a p) = frame_count p" "can_reach_frames (free_locked a p) = can_reach_frames p"
  by (simp_all add: free_locked_def Let_def)

lemma aligned_frame: "a mod 4096 = 0 \<Longrightarrow> a \<noteq> 0 \<Longrightarrow> a div 4096 \<noteq> (0::nat)"
  by (auto simp: div_eq_0_iff)

lemma u64_aligned: "base mod 4096 = 0 \<Longrightarrow> u64 (base + i * 4096) mod 4096 = 0"
  by (simp add: mod_mod_cancel)

lemma free_contiguous_ok:
  assumes "pmm_ok p" "base mod 4096 = 0"
  shows "pmm_ok (free_contiguous base n p)"
proof -
  have "pmm_ok (fold (\<lambda>i. free_locked (u64 (base + i * 4096))) is p)" if "pmm_ok p" for "is" p
    using that
  proof (induction "is" arbitrary: p)
    case (Cons i "is")
    have "pmm_ok (free_locked (u64 (base + i * 4096)) p)"
      by (rule free_locked_ok [OF Cons.prems]) (rule aligned_frame [OF u64_aligned [OF assms(2)]])
    then show ?case unfolding fold.simps o_apply by (rule Cons.IH)
  qed simp
  then show ?thesis using assms(1) by (simp add: free_contiguous_def)
qed

lemma pmm_release_ok: "pmm_ok p \<Longrightarrow> a mod 4096 = 0 \<Longrightarrow> pmm_ok (pmm_release a p)"
  by (auto simp: pmm_release_def Let_def split: option.split intro!: free_locked_ok aligned_frame)

lemma share_ok: "pmm_ok p \<Longrightarrow> pmm_ok (snd (share a p))"
  by (simp add: share_def Let_def split: option.split)

section \<open>Contiguous runs\<close>

lemma find_run_sound:
  assumes "find_run p k [f ..< n] start run = Some s" "run < k"
    "0 < run \<Longrightarrow> start + run = f \<and> {start ..< f} \<subseteq> avail p"
  shows "{s ..< s + k} \<subseteq> avail p"
  using assms
proof (induction "n - f" arbitrary: f start run)
  case (Suc m)
  then have u: "[f ..< n] = f # [Suc f ..< n]" "m = n - Suc f" by (simp_all add: upt_conv_Cons)
  show ?case
  proof (cases "test_frame p f")
    case True
    then show ?thesis using Suc.hyps(1) [OF u(2)] Suc.prems(1,2) u(1) by simp
  next
    case False
    let ?start = "if run = 0 then f else start"
    have r: "?start + Suc run = Suc f \<and> {?start ..< Suc f} \<subseteq> avail p"
    proof (cases "run = 0")
      case True
      then show ?thesis using False by (simp add: avail_def)
    next
      case run: False
      then have "start + run = f" "{start ..< f} \<subseteq> avail p" using Suc.prems(3) by simp_all
      moreover from this have "{start ..< Suc f} = insert f {start ..< f}" by auto
      ultimately show ?thesis using run False by (simp add: avail_def)
    qed
    show ?thesis
    proof (cases "Suc run = k")
      case True
      then have "s = ?start" using Suc.prems(1) False u(1) by (simp add: Let_def)
      then show ?thesis using r True by (auto simp del: add_Suc_right)
    next
      case neq: False
      have "find_run p k [Suc f ..< n] ?start (Suc run) = Some s"
        using Suc.prems(1) False u(1) neq by (simp add: Let_def split: if_splits)
      then show ?thesis using Suc.hyps(1) [OF u(2)] neq Suc.prems(2) r by simp
    qed
  qed
qed simp

lemma find_run_complete:
  assumes "find_run p k [f ..< frame_count p] start run = None" "run < k" "f - run \<le> s" "run \<le> f"
  shows "\<not> {s ..< s + k} \<subseteq> avail p"
  using assms
proof (induction "frame_count p - f" arbitrary: f start run)
  case 0
  then have "frame_count p \<le> s + k - 1" "s + k - 1 \<in> {s ..< s + k}" by auto
  then show ?case by (meson avail_below leD subsetD)
next
  case (Suc m)
  then have u: "[f ..< frame_count p] = f # [Suc f ..< frame_count p]" "m = frame_count p - Suc f"
    by (simp_all add: upt_conv_Cons)
  show ?case
  proof (cases "test_frame p f")
    case True
    show ?thesis
    proof (cases "s \<le> f")
      case le: True
      then have "f \<in> {s ..< s + k}" "f \<notin> avail p" using Suc.prems(2-4) True by (auto simp: avail_def)
      then show ?thesis by blast
    next
      case False
      then show ?thesis using Suc.hyps(1) [OF u(2), of start 0] Suc.prems(1,2) True u(1) by simp
    qed
  next
    case False
    then have "Suc run \<noteq> k" "find_run p k [Suc f ..< frame_count p] (if run = 0 then f else start) (Suc run) = None"
      using Suc.prems(1) u(1) by (simp_all add: Let_def split: if_splits)
    then show ?thesis using Suc.hyps(1) [OF u(2)] Suc.prems(2-4) by simp
  qed
qed

section \<open>Every reachable state\<close>

text \<open>
  The states the allocator can be in: set up from the firmware's map and driven by its callers, who
  give back whole frames; \<open>store\<close> is whoever owns the frames writing to them.
\<close>

inductive pmm_run :: "pmm \<Rightarrow> bool" where
  init: "pmm_init regions kstart kend mem = Some p \<Longrightarrow> pmm_run p"
| alloc: "pmm_run p \<Longrightarrow> pmm_run (snd (pmm_alloc p))"
| alloc_run: "pmm_run p \<Longrightarrow> pmm_run (snd (alloc_contiguous n p))"
| free: "pmm_run p \<Longrightarrow> a mod 4096 = 0 \<Longrightarrow> pmm_run (pmm_free a p)"
| free_run: "pmm_run p \<Longrightarrow> a mod 4096 = 0 \<Longrightarrow> pmm_run (free_contiguous a n p)"
| share: "pmm_run p \<Longrightarrow> pmm_run (snd (share a p))"
| release: "pmm_run p \<Longrightarrow> a mod 4096 = 0 \<Longrightarrow> pmm_run (pmm_release a p)"
| refcounts: "pmm_run p \<Longrightarrow> pmm_run (init_refcounts room p)"
| direct_map: "pmm_run p \<Longrightarrow> pmm_run (use_direct_map p)"
| store: "pmm_run p \<Longrightarrow> pmm_run (p\<lparr>pages := m\<rparr>)"

lemma page_align_up_bound: "page_align_up a div 4096 < 2 ^ 52"
proof -
  have "u64 (a + 4095) < 4503599627370496 * 4096" by simp
  then show ?thesis unfolding page_align_up_def by (simp add: less_mult_imp_div_less)
qed

text \<open>The free frames after the start: what the map offers, without what is spoken for.\<close>

definition range_down :: "nat \<Rightarrow> nat \<Rightarrow> nat set" where
  "range_down base len = {page_align_down base div 4096 ..< page_align_up (u64 (base + len)) div 4096}"

definition range_up :: "nat \<Rightarrow> nat \<Rightarrow> nat set" where
  "range_up base len = {page_align_up base div 4096 ..< page_align_down (u64 (base + len)) div 4096}"

definition highest_of :: "region list \<Rightarrow> nat" where
  "highest_of regions = fold (\<lambda>r h. if r_usable r \<and> region_end r > h then region_end r else h) regions 0"

definition offered :: "region list \<Rightarrow> nat set" where
  "offered regions = (\<Union>r \<in> {r \<in> set regions. r_usable r}. range_up (r_base r) (r_length r))"

lemma range_now:
  assumes "map_ok p" "counts_ok p"
  shows "now_avail p (avail p \<union> (range_up b l \<inter> {..< frame_count p})) (release_range b l p)"
    "now_avail p (avail p - range_down b l) (reserve_range b l p)"
  unfolding range_up_def range_down_def release_range_def reserve_range_def set_upt [symmetric]
  by (rule fold_mark_free [OF assms], rule fold_mark_used [OF assms])

lemma release_regions:
  assumes "map_ok p" "counts_ok p"
  shows "now_avail p (avail p \<union> (offered regions \<inter> {..< frame_count p}))
    (fold (\<lambda>r p. if r_usable r then release_range (r_base r) (r_length r) p else p) regions p)"
  using assms
proof (induction regions arbitrary: p)
  case Nil
  then show ?case by (simp add: offered_def now_avail_refl)
next
  case (Cons r regions)
  define q where "q = (if r_usable r then release_range (r_base r) (r_length r) p else p)"
  have q: "now_avail p (avail p \<union> (if r_usable r then range_up (r_base r) (r_length r) \<inter> {..< frame_count p} else {})) q"
    using range_now(1) [OF Cons.prems] now_avail_refl [OF Cons.prems] by (simp add: q_def)
  have r: "now_avail q (avail q \<union> (offered regions \<inter> {..< frame_count q}))
    (fold (\<lambda>r p. if r_usable r then release_range (r_base r) (r_length r) p else p) regions q)"
    by (rule Cons.IH) (use q in \<open>simp_all add: now_avail_def\<close>)
  have "avail q \<union> (offered regions \<inter> {..< frame_count q}) = avail p \<union> (offered (r # regions) \<inter> {..< frame_count p})"
    using q by (auto simp: now_avail_def offered_def split: if_splits)
  then show ?case using now_avail_trans [OF q r] by (simp add: q_def)
qed

lemma pmm_init_avail:
  assumes "pmm_init regions kstart kend mem = Some p"
  defines "count \<equiv> page_align_up (highest_of regions) div 4096"
  shows "pmm_ok p" "frame_count p = count" "refs p = None" "highest_usable p = highest_of regions"
    "avail p = offered regions \<inter> {..< count} - range_down 0 0x100000 - range_down kstart (sub64 kend kstart)
       - range_down (page_align_up kend) ((count + 63) div 64 * 8)"
proof -
  obtain t u where t: "t = fold (\<lambda>r t. if region_end r > t then region_end r else t) regions 0"
    "u = fold (\<lambda>r u. if r_usable r then u64 (u + r_length r) else u) regions 0" by blast
  define p0 where "p0 = \<lparr>bitmap = replicate ((count + 63) div 64) (- 1), frame_count = count, total_bytes = t,
    usable_bytes = u, highest_usable = highest_of regions, used_frames = count, free_frames = 0, search_hint = 0,
    refs = None, can_reach_frames = False, pages = mem, reports = []\<rparr>"
  have a0: "avail p0 = {}"
    by (auto simp: avail_def test_frame_def p0_def div_less_iff_less_mult)
  have ok0: "map_ok p0" "counts_ok p0"
    using page_align_up_bound a0 by (simp_all add: map_ok_def counts_ok_def) (simp_all add: p0_def count_def)
  define p1 where "p1 = fold (\<lambda>r p. if r_usable r then release_range (r_base r) (r_length r) p else p) regions p0"
  have p1: "now_avail p0 (offered regions \<inter> {..< count}) p1"
    using release_regions [OF ok0, of regions] a0 by (simp add: p1_def) (simp add: p0_def)
  have res: "now_avail p0 (A - range_down b l) (reserve_range b l q)" if "now_avail p0 A q" for A b l q
  proof -
    have "map_ok q" "counts_ok q" "avail q = A" using that by (simp_all add: now_avail_def)
    then show ?thesis using now_avail_trans [OF that] range_now(2) [of q] by simp
  qed
  define q where "q = reserve_range (page_align_up kend) ((count + 63) div 64 * 8)
    (reserve_range kstart (sub64 kend kstart) (reserve_range 0 0x100000 p1))"
  have q: "now_avail p0 (offered regions \<inter> {..< count} - range_down 0 0x100000 - range_down kstart (sub64 kend kstart)
       - range_down (page_align_up kend) ((count + 63) div 64 * 8)) q"
    unfolding q_def by (intro res p1)
  have p: "p = q\<lparr>search_hint := 0\<rparr>"
    using assms(1) unfolding pmm_init_def Let_def t [symmetric] highest_of_def [symmetric] count_def [symmetric]
      p0_def [symmetric] p1_def [symmetric] q_def [symmetric] by (simp split: if_splits)
  show "frame_count p = count" "refs p = None" "highest_usable p = highest_of regions"
    using q by (simp_all add: p now_avail_def p0_def)
  show "avail p = offered regions \<inter> {..< count} - range_down 0 0x100000 - range_down kstart (sub64 kend kstart)
       - range_down (page_align_up kend) ((count + 63) div 64 * 8)" using q by (simp add: p now_avail_def)
  have "0 \<in> range_down 0 0x100000" by (simp add: range_down_def page_align_down_def page_align_up_def)
  then show "pmm_ok p" using q by (auto simp: p pmm_ok_def now_avail_def map_ok_def counts_ok_def)
qed

lemma pmm_run_ok: "pmm_run p \<Longrightarrow> pmm_ok p"
proof (induction rule: pmm_run.induct)
  case (refcounts p room)
  then show ?case by (simp add: init_refcounts_def)
qed (auto simp: pmm_init_avail pmm_alloc_def alloc_locked_ok alloc_contiguous_ok pmm_free_def free_contiguous_ok
    share_ok pmm_release_ok use_direct_map_def intro!: free_locked_ok aligned_frame)

text \<open>A machine with sixteen megabytes, for the concrete instances.\<close>

definition demo_map :: "region list" where
  "demo_map = [\<lparr>r_base = 0, r_length = 0x1000000, r_usable = True\<rparr>]"

lemma demo_init: "\<exists>p. pmm_init demo_map 0x100000 0x200000 (\<lambda>f i. 0) = Some p"
  by (simp add: pmm_init_def demo_map_def Let_def region_end_def page_align_up_def)

section \<open>The guarantees\<close>

text \<open>
  C10. The counters of the frame allocator never drift: in every state it can reach, the number of
  free frames is the number of clear bits below the end of memory, used and free add up to all of
  them, and frame 0 is in use, so that the answer 0 can only mean that memory ran out.
\<close>

theorem pmm_counters_agree:
  assumes "pmm_run p"
  shows "free_frames p = card (avail p) \<and> used_frames p + free_frames p = frame_count p
    \<and> 0 \<notin> avail p \<and> search_hint p \<le> length (bitmap p)"
  using pmm_run_ok [OF assms] card_avail_le [of p] by (simp add: pmm_ok_def counts_ok_def)

theorem pmm_counters_agree_witness:
  "\<exists>p. pmm_init demo_map 0x100000 0x200000 (\<lambda>f i. 0) = Some p
    \<and> free_frames p = card (avail p) \<and> used_frames p + free_frames p = frame_count p
    \<and> 0 \<notin> avail p \<and> search_hint p \<le> length (bitmap p)"
proof -
  obtain p where p: "pmm_init demo_map 0x100000 0x200000 (\<lambda>f i. 0) = Some p" using demo_init by blast
  show ?thesis using p pmm_counters_agree [OF pmm_run.init [OF p]] by blast
qed

text \<open>
  C11. Allocation hands out a free frame, and one at a time: the answer is 0, with nothing changed,
  exactly when no frame is free; otherwise it is the address of a frame that was free, which is the
  one frame that stops being free, and no reference count and no frame's contents change.
\<close>

theorem alloc_hands_out_a_free_frame:
  assumes "pmm_run p" "pmm_alloc p = (a, q)"
  shows "(avail p = {} \<and> a = 0 \<and> q = p)
    \<or> (\<exists>f \<in> avail p. a = f * 4096 \<and> a \<noteq> 0 \<and> avail q = avail p - {f} \<and> refs q = refs p \<and> pages q = pages p)"
proof (cases "avail p = {}")
  case True
  then show ?thesis using alloc_none [OF pmm_run_ok [OF assms(1)]] assms(2) by (simp add: pmm_alloc_def)
next
  case False
  then obtain f where f: "f \<in> avail p" "f \<noteq> 0"
    "alloc_locked p = (f * 4096, check_poison f ((mark_used f p)\<lparr>search_hint := f div 64\<rparr>))"
    using alloc_some [OF pmm_run_ok [OF assms(1)]] by blast
  then show ?thesis using assms(2) alloc_result_avail [OF pmm_run_ok [OF assms(1)]]
    by (auto simp: pmm_alloc_def intro!: bexI [of _ f])
qed

theorem alloc_hands_out_a_free_frame_witness:
  "\<exists>p a q. pmm_init demo_map 0x100000 0x200000 (\<lambda>f i. 0) = Some p \<and> pmm_alloc p = (a, q)
    \<and> ((avail p = {} \<and> a = 0 \<and> q = p)
    \<or> (\<exists>f \<in> avail p. a = f * 4096 \<and> a \<noteq> 0 \<and> avail q = avail p - {f} \<and> refs q = refs p \<and> pages q = pages p))"
proof -
  obtain p where p: "pmm_init demo_map 0x100000 0x200000 (\<lambda>f i. 0) = Some p" using demo_init by blast
  obtain a q where q: "pmm_alloc p = (a, q)" by fastforce
  show ?thesis using p q alloc_hands_out_a_free_frame [OF pmm_run.init [OF p] q] by blast
qed

text \<open>
  C12. A request for several frames in a row succeeds exactly when there is such a run of free frames,
  and takes exactly the run it answers with.
\<close>

theorem alloc_contiguous_finds_a_run:
  assumes "pmm_run p" "2 \<le> n" "alloc_contiguous n p = (a, q)"
  shows "(a = 0 \<and> q = p \<and> \<not> (\<exists>s. {s ..< s + n} \<subseteq> avail p))
    \<or> (\<exists>s. a = s * 4096 \<and> s \<noteq> 0 \<and> {s ..< s + n} \<subseteq> avail p \<and> avail q = avail p - {s ..< s + n})"
proof (cases "find_run p n [0 ..< frame_count p] 0 0")
  case None
  then have "\<not> {s ..< s + n} \<subseteq> avail p" for s using find_run_complete [OF None, of s] assms(2) by simp
  then show ?thesis using None assms(2,3) by (simp add: alloc_contiguous_def)
next
  case (Some s)
  then have s: "{s ..< s + n} \<subseteq> avail p" using find_run_sound [OF Some] assms(2) by simp
  then have "s \<in> avail p" using assms(2) by auto
  then have "s \<noteq> 0" using pmm_okD(3) [OF pmm_run_ok [OF assms(1)]] by metis
  moreover have "avail (fold mark_used [s ..< s + n] p) = avail p - {s ..< s + n}"
    using fold_mark_used [OF pmm_okD(1,2), OF pmm_run_ok pmm_run_ok, OF assms(1,1), of "[s ..< s + n]"]
    by (simp add: now_avail_def)
  ultimately show ?thesis using s Some assms(2,3) by (auto simp: alloc_contiguous_def)
qed

theorem alloc_contiguous_finds_a_run_witness:
  "\<exists>p a q. pmm_init demo_map 0x100000 0x200000 (\<lambda>f i. 0) = Some p \<and> alloc_contiguous 3 p = (a, q)
    \<and> ((a = 0 \<and> q = p \<and> \<not> (\<exists>s. {s ..< s + 3} \<subseteq> avail p))
    \<or> (\<exists>s. a = s * 4096 \<and> s \<noteq> 0 \<and> {s ..< s + 3} \<subseteq> avail p \<and> avail q = avail p - {s ..< s + 3}))"
proof -
  obtain p where p: "pmm_init demo_map 0x100000 0x200000 (\<lambda>f i. 0) = Some p" using demo_init by blast
  obtain a q where q: "alloc_contiguous 3 p = (a, q)" by fastforce
  show ?thesis using p q alloc_contiguous_finds_a_run [OF pmm_run.init [OF p] _ q] by auto
qed

section \<open>Shared frames\<close>






section \<open>Writes to freed frames\<close>






end
