(* ===== verification/Kernel_Object.thy ===== *)
theory Kernel_Object
  imports Leah_Prelude
begin

text \<open>
  \<^verbatim>\<open>kernel/proc/object.cpp\<close> and \<^verbatim>\<open>kernel/include/leah/object.hpp\<close>: the handles processes hold kernel
  objects by. A table per process, found by pid, of 128 entries; a handle is a slot and the
  generation the slot had when the handle was issued, packed into a signed 32-bit number. The tables
  are a list of 96 places, \<open>None\<close> where none was made yet. Every operation runs under one lock, so
  each is one step here.
\<close>

datatype otype = TNone | TPort | TShm | TImage | TPty | TPipe | TProcess | TThread | TEvent

definition kRead :: "32 word" where "kRead = 1"
definition kWrite :: "32 word" where "kWrite = 2"
definition kExecute :: "32 word" where "kExecute = 4"
definition kMap :: "32 word" where "kMap = 8"
definition kSignal :: "32 word" where "kSignal = 16"
definition kWait :: "32 word" where "kWait = 32"
definition kDuplicate :: "32 word" where "kDuplicate = 64"
definition kTransfer :: "32 word" where "kTransfer = 128"
definition kDestroy :: "32 word" where "kDestroy = 256"
definition kAll :: "32 word" where "kAll = 0x1FF"

definition kMaxHandles :: nat where "kMaxHandles = 128"
definition kMaxTables :: nat where "kMaxTables = 96"
definition kNoHandle :: int where "kNoHandle = - 1"

record entry =
  en_type :: otype
  en_rights :: "32 word"
  en_pointer :: nat
  en_generation :: nat

record htable =
  t_used :: bool
  t_pid :: nat
  t_entries :: "entry list"

type_synonym tables = "htable option list"

definition no_entry :: entry where
  "no_entry = \<lparr>en_type = TNone, en_rights = 0, en_pointer = 0, en_generation = 0\<rparr>"

section \<open>Tables\<close>

definition holds_pid :: "nat \<Rightarrow> htable option \<Rightarrow> bool" where
  "holds_pid pid t = (case t of None \<Rightarrow> False | Some t \<Rightarrow> t_used t \<and> t_pid t = pid)"

definition in_use :: "htable option \<Rightarrow> bool" where
  "in_use t = (case t of None \<Rightarrow> False | Some t \<Rightarrow> t_used t)"

fun first_index :: "('a \<Rightarrow> bool) \<Rightarrow> 'a list \<Rightarrow> nat option" where
  "first_index P [] = None"
| "first_index P (x # xs) = (if P x then Some 0 else map_option Suc (first_index P xs))"

definition find_table :: "tables \<Rightarrow> nat \<Rightarrow> nat option" where
  "find_table ts pid = first_index (holds_pid pid) ts"

text \<open>\<open>room\<close> says whether the heap can hold another table.\<close>

definition find_or_make :: "bool \<Rightarrow> tables \<Rightarrow> nat \<Rightarrow> (nat \<times> tables) option" where
  "find_or_make room ts pid =
     (case find_table ts pid of
        Some i \<Rightarrow> Some (i, ts)
      | None \<Rightarrow>
          (case first_index (\<lambda>t. \<not> in_use t) ts of
             None \<Rightarrow> None
           | Some i \<Rightarrow>
               if ts ! i = None \<and> \<not> room then None
               else Some (i, ts[i := Some \<lparr>t_used = True, t_pid = pid, t_entries = replicate kMaxHandles no_entry\<rparr>])))"

section \<open>Handles\<close>

text \<open>\<^verbatim>\<open>(generation << 10) | slot\<close> in 32 bits, then read as a signed number.\<close>

definition encode :: "nat \<Rightarrow> nat \<Rightarrow> int" where
  "encode slot generation =
     (let v = u32 (generation * 1024) + slot in if v \<ge> 2147483648 then int v - 4294967296 else int v)"

text \<open>The slot a handle names in a table, when it names anything.\<close>

definition decode_handle :: "htable \<Rightarrow> int \<Rightarrow> nat option" where
  "decode_handle t h =
     (if h < 0 then None
      else let v = nat h; slot = v mod 1024 in
        if slot \<ge> kMaxHandles then None
        else let e = t_entries t ! slot in
          if en_type e = TNone \<or> en_generation e \<noteq> v div 1024 then None else Some slot)"

definition resolve :: "tables \<Rightarrow> nat \<Rightarrow> int \<Rightarrow> (nat \<times> nat) option" where
  "resolve ts pid h =
     (case find_table ts pid of
        None \<Rightarrow> None
      | Some i \<Rightarrow> map_option (\<lambda>slot. (i, slot)) (decode_handle (the (ts ! i)) h))"

definition entry_at :: "tables \<Rightarrow> nat \<times> nat \<Rightarrow> entry" where
  "entry_at ts = (\<lambda>(i, slot). t_entries (the (ts ! i)) ! slot)"

definition set_entry :: "tables \<Rightarrow> nat \<times> nat \<Rightarrow> entry \<Rightarrow> tables" where
  "set_entry ts = (\<lambda>(i, slot) e. ts[i := map_option (\<lambda>t. t\<lparr>t_entries := (t_entries t)[slot := e]\<rparr>) (ts ! i)])"

section \<open>Operations\<close>

definition next_generation :: "nat \<Rightarrow> nat" where
  "next_generation g = (let g' = u32 (g + 1) in if g' = 0 then 1 else g')"

definition give :: "bool \<Rightarrow> nat \<Rightarrow> otype \<Rightarrow> nat \<Rightarrow> 32 word \<Rightarrow> tables \<Rightarrow> int \<times> tables" where
  "give room pid ty ptr rights ts =
     (if ty = TNone then (kNoHandle, ts)
      else (case find_or_make room ts pid of
          None \<Rightarrow> (kNoHandle, ts)
        | Some (i, ts) \<Rightarrow>
            (case first_index (\<lambda>e. en_type e = TNone) (t_entries (the (ts ! i))) of
               None \<Rightarrow> (kNoHandle, ts)
             | Some slot \<Rightarrow>
                 let g = next_generation (en_generation (entry_at ts (i, slot)))
                 in (encode slot g,
                     set_entry ts (i, slot)
                       \<lparr>en_type = ty, en_rights = rights, en_pointer = ptr, en_generation = g\<rparr>))))"

text \<open>Exactly that type and every right that is needed, or nothing.\<close>

definition look :: "nat \<Rightarrow> int \<Rightarrow> otype \<Rightarrow> 32 word \<Rightarrow> tables \<Rightarrow> nat option" where
  "look pid h ty needed ts =
     (case resolve ts pid h of
        None \<Rightarrow> None
      | Some at \<Rightarrow>
          let e = entry_at ts at in
          if en_type e \<noteq> ty then None
          else if en_rights e AND needed \<noteq> needed then None
          else Some (en_pointer e))"

definition rights_of :: "nat \<Rightarrow> int \<Rightarrow> tables \<Rightarrow> 32 word" where
  "rights_of pid h ts = (case resolve ts pid h of None \<Rightarrow> 0 | Some at \<Rightarrow> en_rights (entry_at ts at))"

definition type_of :: "nat \<Rightarrow> int \<Rightarrow> tables \<Rightarrow> otype" where
  "type_of pid h ts = (case resolve ts pid h of None \<Rightarrow> TNone | Some at \<Rightarrow> en_type (entry_at ts at))"

definition duplicate :: "bool \<Rightarrow> nat \<Rightarrow> int \<Rightarrow> 32 word \<Rightarrow> tables \<Rightarrow> int \<times> tables" where
  "duplicate room pid h allow ts =
     (case resolve ts pid h of
        None \<Rightarrow> (kNoHandle, ts)
      | Some at \<Rightarrow>
          let e = entry_at ts at in
          if en_rights e AND kDuplicate = 0 then (kNoHandle, ts)
          else give room pid (en_type e) (en_pointer e) (en_rights e AND allow) ts)"

definition close_handle :: "nat \<Rightarrow> int \<Rightarrow> tables \<Rightarrow> bool \<times> tables" where
  "close_handle pid h ts =
     (case resolve ts pid h of
        None \<Rightarrow> (False, ts)
      | Some at \<Rightarrow>
          (True, set_entry ts at ((entry_at ts at)\<lparr>en_type := TNone, en_rights := 0, en_pointer := 0\<rparr>)))"

definition close_all :: "nat \<Rightarrow> tables \<Rightarrow> tables" where
  "close_all pid ts =
     (case find_table ts pid of
        None \<Rightarrow> ts
      | Some i \<Rightarrow> ts[i := map_option (\<lambda>t. t\<lparr>t_used := False\<rparr>) (ts ! i)])"

definition inherit :: "bool \<Rightarrow> nat \<Rightarrow> nat \<Rightarrow> tables \<Rightarrow> tables" where
  "inherit room from_pid to_pid ts =
     (case find_table ts from_pid of
        None \<Rightarrow> ts
      | Some i \<Rightarrow>
          let es = t_entries (the (ts ! i)) in
          (case find_or_make room ts to_pid of
             None \<Rightarrow> ts
           | Some (j, ts) \<Rightarrow>
               ts[j := map_option (\<lambda>t. t\<lparr>t_entries := es, t_pid := to_pid, t_used := True\<rparr>) (ts ! j)]))"

definition object_init :: tables where
  "object_init = replicate kMaxTables None"

end
