(* ===== verification/Kernel_Ipc.thy ===== *)
theory Kernel_Ipc
  imports Kernel_Object
begin

text \<open>
  \<^verbatim>\<open>kernel/proc/ipc.cpp\<close> and \<^verbatim>\<open>kernel/include/leah/ipc.hpp\<close>: synchronous message passing. Sixteen
  ports, and sixty-four requests in flight, each holding both halves of an exchange. Everything
  happens under one lock, except that the lock is let go while a thread sleeps; so an operation that
  sleeps is split where it sleeps, into the part before and the part after. The state holds the
  tables of handles too, because a reply carries capabilities, and \<open>woken\<close> records the channels the
  operations asked the scheduler to wake. The identity of the running thread and of its process,
  the clock and pending signals are arguments; \<open>later\<close> is the clock when it is read again at the
  head of a loop. The test against the deadline and the length of the nap read it a few instructions
  apart under the lock, which is one reading here.
\<close>

definition kMaxPorts :: nat where "kMaxPorts = 16"
definition kMaxRequests :: nat where "kMaxRequests = 64"
definition kMaxCarried :: nat where "kMaxCarried = 2"

datatype rstate = Free | Queued | Taken | Answered | Abandoned | Dropped

record message =
  tag :: nat
  nbytes :: nat
  word :: "int list"
  shm_key :: int
  shm_bytes :: nat
  handle :: "int list"
  handles :: nat
  inline :: bytes

text \<open>A capability in transit: what it names, not the number that named it.\<close>

record carried =
  ca_type :: otype
  ca_pointer :: nat
  ca_rights :: "32 word"

record request =
  rq_state :: rstate
  rq_port :: nat
  caller_pid :: nat
  server_pid :: nat
  body :: message
  carrying :: "carried list"
  carried_n :: nat

record port =
  po_used :: bool
  po_name :: nat
  po_owner :: nat

text \<open>The channels are addresses of ports and of requests.\<close>

datatype channel = Port_Channel nat | Request_Channel nat

record ipc =
  ports :: "port list"
  requests :: "request list"
  objs :: tables
  woken :: "channel list"

definition no_message :: message where
  "no_message = \<lparr>tag = 0, nbytes = 0, word = replicate 4 0, shm_key = 0, shm_bytes = 0,
     handle = replicate kMaxCarried 0, handles = 0, inline = replicate 256 0\<rparr>"

definition no_request :: request where
  "no_request = \<lparr>rq_state = Free, rq_port = 0, caller_pid = 0, server_pid = 0, body = no_message,
     carrying = replicate kMaxCarried \<lparr>ca_type = TNone, ca_pointer = 0, ca_rights = 0\<rparr>, carried_n = 0\<rparr>"

definition ipc_init :: ipc where
  "ipc_init = \<lparr>ports = replicate kMaxPorts \<lparr>po_used = False, po_name = 0, po_owner = 0\<rparr>,
     requests = replicate kMaxRequests no_request, objs = object_init, woken = []\<rparr>"

definition upd_request :: "nat \<Rightarrow> (request \<Rightarrow> request) \<Rightarrow> ipc \<Rightarrow> ipc" where
  "upd_request h f s = s\<lparr>requests := (requests s)[h := f (requests s ! h)]\<rparr>"

definition wake :: "channel list \<Rightarrow> ipc \<Rightarrow> ipc" where
  "wake cs s = s\<lparr>woken := woken s @ cs\<rparr>"

section \<open>Ports\<close>

definition find_port :: "nat \<Rightarrow> ipc \<Rightarrow> nat option" where
  "find_port name s = first_index (\<lambda>p. po_used p \<and> po_name p = name) (ports s)"

definition valid_port :: "int \<Rightarrow> ipc \<Rightarrow> bool" where
  "valid_port port s \<longleftrightarrow> 0 \<le> port \<and> port < int kMaxPorts \<and> po_used (ports s ! nat port)"

text \<open>\<open>abandon_one\<close> is a turn of the loop over the requests, with the channels collected so far.\<close>

definition abandon_one :: "nat \<Rightarrow> nat \<Rightarrow> ipc \<times> channel list \<Rightarrow> ipc \<times> channel list" where
  "abandon_one port i = (\<lambda>(s, wakes).
     let r = requests s ! i in
     if rq_port r \<noteq> port \<or> rq_state r = Free then (s, wakes)
     else (upd_request i (rq_state_update (\<lambda>_. Abandoned)) s,
           if length wakes < 8 then wakes @ [Request_Channel i] else wakes))"

definition port_destroy_locked :: "nat \<Rightarrow> int \<Rightarrow> ipc \<Rightarrow> channel list \<Rightarrow> int \<times> ipc \<times> channel list" where
  "port_destroy_locked cur port s wakes =
     (if \<not> valid_port port s \<or> po_owner (ports s ! nat port) \<noteq> cur then (-1, s, wakes)
      else let p = nat port;
               s = s\<lparr>ports := (ports s)[p := (ports s ! p)\<lparr>po_used := False\<rparr>]\<rparr>
           in (0, fold (abandon_one p) [0 ..< kMaxRequests] (s, wakes)))"

definition port_create :: "nat \<Rightarrow> nat \<Rightarrow> ipc \<Rightarrow> int \<times> ipc" where
  "port_create cur name s =
     (if name = 0 \<or> find_port name s \<noteq> None then (-1, s)
      else (case first_index (\<lambda>p. \<not> po_used p) (ports s) of
          None \<Rightarrow> (-1, s)
        | Some i \<Rightarrow> (int i, s\<lparr>ports := (ports s)[i := \<lparr>po_used = True, po_name = name, po_owner = cur\<rparr>]\<rparr>)))"

definition port_open :: "nat \<Rightarrow> ipc \<Rightarrow> int" where
  "port_open name s = (case find_port name s of None \<Rightarrow> -1 | Some i \<Rightarrow> int i)"

definition port_destroy :: "nat \<Rightarrow> int \<Rightarrow> ipc \<Rightarrow> int \<times> ipc" where
  "port_destroy cur port s =
     (let (answer, s, wakes) = port_destroy_locked cur port s [] in (answer, wake wakes s))"

section \<open>Calling\<close>

text \<open>How long to sleep, given the clock and the moment to be reached.\<close>

definition nap_until :: "nat \<Rightarrow> nat \<Rightarrow> nat" where
  "nap_until now deadline = (if deadline > now then deadline - now else 1)"

text \<open>
  The first part of \<^verbatim>\<open>call\<close>: take a free slot, queue the message and wake the server. The result is
  the slot to wait on, or the error.
\<close>

definition call_queue :: "nat \<Rightarrow> int \<Rightarrow> message option \<Rightarrow> bool \<Rightarrow> ipc \<Rightarrow> (int + nat) \<times> ipc" where
  "call_queue cur port request room_for_reply s =
     (case request of
        None \<Rightarrow> (Inl (-1), s)
      | Some msg \<Rightarrow>
          if \<not> valid_port port s \<or> \<not> room_for_reply then (Inl (-1), s)
          else (case first_index (\<lambda>r. rq_state r = Free) (requests s) of
              None \<Rightarrow> (Inl (-1), s)
            | Some h \<Rightarrow>
                (Inr h, wake [Port_Channel (nat port)]
                  (upd_request h (\<lambda>r. r\<lparr>rq_state := Queued, rq_port := nat port, caller_pid := cur,
                     server_pid := 0, body := msg\<rparr>) s))))"

text \<open>What a part of an operation ends with: the thread sleeps, or the operation returns.\<close>

datatype 'a outcome = Sleep nat | Return int 'a

definition stop_waiting :: "nat \<Rightarrow> int \<Rightarrow> ipc \<Rightarrow> message option outcome \<times> ipc" where
  "stop_waiting h code s =
     (Return code None,
      upd_request h (\<lambda>r. r\<lparr>rq_state := (if rq_state r = Taken then Dropped else Free)\<rparr>) s)"

text \<open>Installing one capability in the caller's table; \<open>rooms i\<close> is whether there is memory for it.\<close>

definition install :: "(nat \<Rightarrow> bool) \<Rightarrow> nat \<Rightarrow> nat \<Rightarrow> nat \<Rightarrow> ipc \<Rightarrow> ipc" where
  "install rooms tgid h i s =
     (let r = requests s ! h; c = carrying r ! i;
          (n, ts) = give (rooms i) tgid (ca_type c) (ca_pointer c) (ca_rights c) (objs s)
      in upd_request h (\<lambda>r. r\<lparr>body := (body r)\<lparr>handle := (handle (body r))[i := n]\<rparr>\<rparr>) (s\<lparr>objs := ts\<rparr>))"

definition blank :: "nat \<Rightarrow> nat \<Rightarrow> ipc \<Rightarrow> ipc" where
  "blank h i s =
     upd_request h (\<lambda>r. r\<lparr>body := (body r)\<lparr>handle := (handle (body r))[i := kNoHandle]\<rparr>\<rparr>) s"

text \<open>
  The end of \<^verbatim>\<open>call\<close>. Only the first of the three statements after the test belongs to it: the other
  numbers are blanked and the message copied out whether or not there was an answer.
\<close>

definition collect :: "(nat \<Rightarrow> bool) \<Rightarrow> nat \<Rightarrow> nat \<Rightarrow> ipc \<Rightarrow> message option outcome \<times> ipc" where
  "collect rooms tgid h s =
     (let ok = (rq_state (requests s ! h) = Answered);
          n = carried_n (requests s ! h);
          s = (if ok then fold (install rooms tgid h) [0 ..< min n kMaxCarried] s else s);
          s = fold (blank h) [n ..< kMaxCarried] s;
          out = body (requests s ! h)
      in (Return (if ok then 0 else -1) (Some out),
          upd_request h (rq_state_update (\<lambda>_. Free)) s))"

text \<open>The head of the loop in \<^verbatim>\<open>call\<close>, and what follows a wake-up.\<close>

definition settled :: "rstate \<Rightarrow> bool" where
  "settled st \<longleftrightarrow> st = Answered \<or> st = Abandoned"

definition call_wait ::
  "(nat \<Rightarrow> bool) \<Rightarrow> nat \<Rightarrow> nat \<Rightarrow> nat \<Rightarrow> nat \<Rightarrow> ipc \<Rightarrow> message option outcome \<times> ipc" where
  "call_wait rooms tgid now deadline h s =
     (if settled (rq_state (requests s ! h)) then collect rooms tgid h s
      else if deadline = 0 then (Sleep 0, s)
      else if now \<ge> deadline then stop_waiting h (-2) s
      else (Sleep (nap_until now deadline), s))"

definition call_woken ::
  "(nat \<Rightarrow> bool) \<Rightarrow> nat \<Rightarrow> nat \<Rightarrow> nat \<Rightarrow> nat \<Rightarrow> bool \<Rightarrow> nat \<Rightarrow> ipc \<Rightarrow> message option outcome \<times> ipc" where
  "call_woken rooms tgid now later deadline signal h s =
     (if settled (rq_state (requests s ! h)) then collect rooms tgid h s
      else if deadline \<noteq> 0 \<and> now \<ge> deadline then stop_waiting h (-2) s
      else if signal then stop_waiting h (-3) s
      else call_wait rooms tgid later deadline h s)"

section \<open>Serving\<close>

text \<open>The slot, the message and who sent it.\<close>

definition take_request :: "nat \<Rightarrow> nat \<Rightarrow> ipc \<Rightarrow> (nat \<times> message \<times> nat) option \<times> ipc" where
  "take_request cur port s =
     (case first_index (\<lambda>r. rq_state r = Queued \<and> rq_port r = port) (requests s) of
        None \<Rightarrow> (None, s)
      | Some h \<Rightarrow>
          (Some (h, body (requests s ! h), caller_pid (requests s ! h)),
           upd_request h (\<lambda>r. r\<lparr>rq_state := Taken, server_pid := cur\<rparr>) s))"

definition serves :: "nat \<Rightarrow> int \<Rightarrow> ipc \<Rightarrow> bool" where
  "serves cur port s \<longleftrightarrow> valid_port port s \<and> po_owner (ports s ! nat port) = cur"

definition try_recv :: "nat \<Rightarrow> int \<Rightarrow> ipc \<Rightarrow> (nat \<times> message \<times> nat) option \<times> ipc" where
  "try_recv cur port s = (if \<not> serves cur port s then (None, s) else take_request cur (nat port) s)"

text \<open>The head of the loop in \<^verbatim>\<open>recv\<close>, its entry, and what follows a wake-up.\<close>

definition recv_loop :: "nat \<Rightarrow> nat \<Rightarrow> nat \<Rightarrow> nat \<Rightarrow> ipc \<Rightarrow> (message \<times> nat) option outcome \<times> ipc" where
  "recv_loop cur now deadline port s =
     (case take_request cur port s of
        (Some (h, msg, who), s) \<Rightarrow> (Return (int h) (Some (msg, who)), s)
      | (None, s) \<Rightarrow>
          if deadline = 0 then (Sleep 0, s)
          else if now \<ge> deadline then (Return (-2) None, s)
          else (Sleep (nap_until now deadline), s))"

definition recv :: "nat \<Rightarrow> nat \<Rightarrow> nat \<Rightarrow> int \<Rightarrow> ipc \<Rightarrow> (message \<times> nat) option outcome \<times> ipc" where
  "recv cur now deadline port s =
     (if \<not> serves cur port s then (Return (-1) None, s) else recv_loop cur now deadline (nat port) s)"

definition recv_woken ::
  "nat \<Rightarrow> nat \<Rightarrow> nat \<Rightarrow> nat \<Rightarrow> bool \<Rightarrow> nat \<Rightarrow> ipc \<Rightarrow> (message \<times> nat) option outcome \<times> ipc" where
  "recv_woken cur now later deadline signal port s =
     (if deadline = 0 then
        if signal then (Return (-3) None, s)
        else if \<not> valid_port (int port) s then (Return (-1) None, s)
        else recv_loop cur later deadline port s
      else if \<not> valid_port (int port) s then (Return (-1) None, s)
      else (case take_request cur port s of
          (Some (h, msg, who), s) \<Rightarrow> (Return (int h) (Some (msg, who)), s)
        | (None, s) \<Rightarrow>
            if now \<ge> deadline then (Return (-2) None, s)
            else if signal then (Return (-3) None, s)
            else recv_loop cur later deadline port s))"

text \<open>One handle of a reply, resolved in the table of the server.\<close>

definition carry :: "nat \<Rightarrow> tables \<Rightarrow> nat \<Rightarrow> request \<Rightarrow> request" where
  "carry server ts i r =
     (let hd = handle (body r) ! i; ty = type_of server hd ts in
      if ty = TNone then r
      else r\<lparr>carrying := (carrying r)[carried_n r :=
               \<lparr>ca_type = ty, ca_pointer = (case look server hd ty 0 ts of None \<Rightarrow> 0 | Some p \<Rightarrow> p),
                ca_rights = rights_of server hd ts\<rparr>],
             carried_n := carried_n r + 1\<rparr>)"

definition answered :: "nat \<Rightarrow> tables \<Rightarrow> message \<Rightarrow> request \<Rightarrow> request" where
  "answered server ts msg r =
     (let r = r\<lparr>body := msg, carried_n := 0\<rparr>;
          offered = (if handles msg > kMaxCarried then kMaxCarried else handles msg);
          r = fold (carry server ts) [0 ..< offered] r
      in r\<lparr>body := (body r)\<lparr>handles := carried_n r\<rparr>, rq_state := Answered\<rparr>)"

definition reply :: "nat \<Rightarrow> nat \<Rightarrow> int \<Rightarrow> message option \<Rightarrow> ipc \<Rightarrow> int \<times> ipc" where
  "reply cur tgid h msg s =
     (case msg of
        None \<Rightarrow> (-1, s)
      | Some msg \<Rightarrow>
          if h < 0 \<or> h \<ge> int kMaxRequests then (-1, s)
          else let k = nat h; r = requests s ! k in
            if rq_state r = Dropped \<and> server_pid r = cur
            then (-1, upd_request k (rq_state_update (\<lambda>_. Free)) s)
            else if rq_state r \<noteq> Taken \<or> server_pid r \<noteq> cur then (-1, s)
            else (0, wake [Request_Channel k] (upd_request k (answered tgid (objs s) msg) s)))"

section \<open>A process ends\<close>

definition close_port :: "nat \<Rightarrow> nat \<Rightarrow> nat \<Rightarrow> ipc \<times> channel list \<Rightarrow> ipc \<times> channel list" where
  "close_port cur pid i = (\<lambda>(s, wakes).
     if po_used (ports s ! i) \<and> po_owner (ports s ! i) = pid
     then snd (port_destroy_locked cur (int i) s wakes) else (s, wakes))"

definition let_go :: "nat \<Rightarrow> nat \<Rightarrow> ipc \<times> channel list \<Rightarrow> ipc \<times> channel list" where
  "let_go pid i = (\<lambda>(s, wakes).
     let r = requests s ! i in
     if rq_state r = Free then (s, wakes)
     else if server_pid r = pid \<and> rq_state r = Dropped
     then (upd_request i (rq_state_update (\<lambda>_. Free)) s, wakes)
     else if server_pid r = pid \<and> rq_state r = Taken
     then (upd_request i (rq_state_update (\<lambda>_. Abandoned)) s,
           if length wakes < 8 then wakes @ [Request_Channel i] else wakes)
     else if caller_pid r = pid
     then (upd_request i (\<lambda>r. r\<lparr>rq_state := (if rq_state r = Taken then Dropped else Free)\<rparr>) s, wakes)
     else (s, wakes))"

text \<open>\<open>cur\<close> is the last thread of the process \<open>pid\<close>, and need not be the one that gave it its number.\<close>

definition abandon :: "nat \<Rightarrow> nat \<Rightarrow> ipc \<Rightarrow> ipc" where
  "abandon cur pid s =
     (let (s, wakes) = fold (let_go pid) [0 ..< kMaxRequests]
                         (fold (close_port cur pid) [0 ..< kMaxPorts] (s, []))
      in wake wakes s)"

end
