(* ===== verification/Kernel_Object_Laws.thy ===== *)
theory Kernel_Object_Laws
  imports Kernel_Object
begin

text \<open>
  What holding a handle of \<^verbatim>\<open>kernel/proc/object.cpp\<close> means. Seen from outside the tables are a map
  from processes to lists of entries; issuing a handle adds exactly one capability, closing removes
  exactly one, no handle conveys more than was once given, and a closed handle stays dead.
\<close>

section \<open>Tables as a map\<close>

lemma first_index_Some:
  "first_index P xs = Some i \<longleftrightarrow> i < length xs \<and> P (xs ! i) \<and> (\<forall>j < i. \<not> P (xs ! j))"
proof (induction xs arbitrary: i)
  case (Cons x xs)
  show ?case using Cons [of "i - 1"] by (cases i) (auto simp: nth_Cons All_less_Suc2 split: nat.splits)
qed simp

lemma first_index_None: "first_index P xs = None \<longleftrightarrow> (\<forall>x \<in> set xs. \<not> P x)"
  by (induction xs) auto

lemma first_index_update:
  "\<not> P (xs ! i) \<Longrightarrow> \<not> P x \<Longrightarrow> first_index P (xs[i := x]) = first_index P xs"
  by (induction xs arbitrary: i) (auto split: nat.splits)

lemma first_index_same:
  assumes "i < length xs" "P (xs ! i) = P x"
  shows "first_index P (xs[i := x]) = first_index P xs"
  using assms by (induction xs arbitrary: i) (auto split: nat.splits)

definition tables_ok :: "tables \<Rightarrow> bool" where
  "tables_ok ts \<longleftrightarrow> (\<forall>t. Some t \<in> set ts \<longrightarrow> length (t_entries t) = kMaxHandles)
     \<and> (\<forall>pid i j. i < length ts \<and> j < length ts \<and> holds_pid pid (ts ! i) \<and> holds_pid pid (ts ! j) \<longrightarrow> i = j)"

definition entries_of :: "tables \<Rightarrow> nat \<Rightarrow> entry list option" where
  "entries_of ts pid = map_option (\<lambda>i. t_entries (the (ts ! i))) (find_table ts pid)"

lemma find_table_Some:
  assumes "find_table ts pid = Some i"
  shows "i < length ts" "\<exists>t. ts ! i = Some t \<and> t_used t \<and> t_pid t = pid"
  using assms by (auto simp: find_table_def first_index_Some holds_pid_def split: option.splits)

lemma entries_length: "tables_ok ts \<Longrightarrow> entries_of ts pid = Some es \<Longrightarrow> length es = kMaxHandles"
  using find_table_Some [of ts pid] unfolding entries_of_def tables_ok_def
  by (auto split: option.splits) (metis nth_mem option.sel)

text \<open>Replacing the table of one process leaves the others alone.\<close>

lemma entries_update:
  assumes "find_table ts pid = Some i" "x = Some t" "t_used t" "t_pid t = pid"
  shows "entries_of (ts[i := x]) = (entries_of ts)(pid \<mapsto> t_entries t)"
proof
  fix pid'
  note i = find_table_Some [OF assms(1)]
  show "entries_of (ts[i := x]) pid' = ((entries_of ts)(pid \<mapsto> t_entries t)) pid'"
  proof (cases "pid' = pid")
    case True
    then have "find_table (ts[i := x]) pid' = Some i"
      using assms i unfolding find_table_def by (subst first_index_same) (auto simp: holds_pid_def)
    then show ?thesis using True i assms(2) by (simp add: entries_of_def)
  next
    case False
    then have n: "\<not> holds_pid pid' (ts ! i)" "\<not> holds_pid pid' x" using i(2) assms(2,4) by (auto simp: holds_pid_def)
    then have f: "find_table (ts[i := x]) pid' = find_table ts pid'"
      unfolding find_table_def by (rule first_index_update)
    have "find_table ts pid' \<noteq> Some i" using n(1) by (auto simp: find_table_def first_index_Some)
    then show ?thesis using f False by (cases "find_table ts pid'") (auto simp: entries_of_def)
  qed
qed

lemma tables_ok_update:
  assumes "tables_ok ts" "length (t_entries t) = kMaxHandles"
    "\<And>k. t_used t \<Longrightarrow> k < length ts \<Longrightarrow> k \<noteq> i \<Longrightarrow> \<not> holds_pid (t_pid t) (ts ! k)"
  shows "tables_ok (ts[i := Some t])"
proof -
  have "length (t_entries u) = kMaxHandles" if "Some u \<in> set (ts[i := Some t])" for u
    using that assms(1,2) set_update_subset_insert [of ts i "Some t"] by (auto simp: tables_ok_def)
  moreover have "k = j" if "k < length ts" "j < length ts" "holds_pid pid (ts[i := Some t] ! k)" "holds_pid pid (ts[i := Some t] ! j)" for pid k j
    using that assms(1) assms(3) [of k] assms(3) [of j]
    by (cases "k = i"; cases "j = i") (auto simp: tables_ok_def holds_pid_def)
  ultimately show ?thesis unfolding tables_ok_def by (metis length_list_update)
qed

lemma entries_new:
  assumes "i < length ts" "\<not> in_use (ts ! i)" "find_table ts pid = None" and that: "t_used t" "t_pid t = pid"
  shows "find_table (ts[i := Some t]) pid = Some i \<and> entries_of (ts[i := Some t]) = (entries_of ts)(pid \<mapsto> t_entries t)"
proof -
  have none: "\<not> holds_pid pid (ts ! j)" if "j < length ts" for j
    using assms(3) that(1) by (auto simp: find_table_def first_index_None)
  have f: "find_table (ts[i := Some t]) pid = Some i"
    using assms(1) that none by (auto simp: find_table_def first_index_Some holds_pid_def nth_list_update)
  have "entries_of (ts[i := Some t]) pid' = ((entries_of ts)(pid \<mapsto> t_entries t)) pid'" for pid'
  proof (cases "pid' = pid")
    case True
    then show ?thesis using f assms(1) by (simp add: entries_of_def)
  next
    case False
    have n: "\<not> holds_pid pid' (ts ! i)" using assms(2) by (auto simp: holds_pid_def in_use_def split: option.splits)
    moreover have "\<not> holds_pid pid' (Some t)" using False that by (auto simp: holds_pid_def)
    ultimately have "find_table (ts[i := Some t]) pid' = find_table ts pid'"
      unfolding find_table_def by (rule first_index_update)
    moreover have "find_table ts pid' \<noteq> Some i" using n by (auto simp: find_table_def first_index_Some)
    ultimately show ?thesis using False by (cases "find_table ts pid'") (auto simp: entries_of_def)
  qed
  then show ?thesis using f by (simp add: fun_eq_iff)
qed

text \<open>The entries a process starts from.\<close>

definition entries_or_new :: "tables \<Rightarrow> nat \<Rightarrow> entry list" where
  "entries_or_new ts pid = (case entries_of ts pid of None \<Rightarrow> replicate kMaxHandles no_entry | Some es \<Rightarrow> es)"

lemma find_or_make_spec:
  assumes "tables_ok ts" "find_or_make room ts pid = Some (i, ts')"
  shows "tables_ok ts'" "find_table ts' pid = Some i"
    "entries_of ts' = (entries_of ts)(pid \<mapsto> entries_or_new ts pid)"
proof -
  have "tables_ok ts' \<and> find_table ts' pid = Some i \<and> entries_of ts' = (entries_of ts)(pid \<mapsto> entries_or_new ts pid)"
  proof (cases "find_table ts pid")
    case (Some j)
    then show ?thesis using assms by (auto simp: find_or_make_def entries_or_new_def entries_of_def)
  next
    case None
    let ?t = "\<lparr>t_used = True, t_pid = pid, t_entries = replicate kMaxHandles no_entry\<rparr>"
    obtain j where j: "first_index (\<lambda>t. \<not> in_use t) ts = Some j" "i = j" "ts' = ts[j := Some ?t]"
      using assms(2) None by (auto simp: find_or_make_def split: option.splits if_splits)
    then have "j < length ts" "\<not> in_use (ts ! j)" by (auto simp: first_index_Some)
    note e = entries_new [OF this None, of ?t]
    have "tables_ok ts'" unfolding j(3)
      by (rule tables_ok_update [OF assms(1)]) (use None in \<open>auto simp: find_table_def first_index_None holds_pid_def\<close>)
    moreover have "entries_or_new ts pid = replicate kMaxHandles no_entry"
      using None by (simp add: entries_or_new_def entries_of_def)
    ultimately show ?thesis using e j(2,3) by simp
  qed
  then show "tables_ok ts'" "find_table ts' pid = Some i"
    "entries_of ts' = (entries_of ts)(pid \<mapsto> entries_or_new ts pid)" by simp_all
qed

section \<open>Capabilities\<close>

text \<open>The entry a handle resolves to, if it does.\<close>

definition entry_for :: "entry list \<Rightarrow> int \<Rightarrow> entry option" where
  "entry_for es h =
     (if h < 0 \<or> nat h mod 1024 \<ge> kMaxHandles then None
      else let e = es ! (nat h mod 1024) in
        if en_type e = TNone \<or> en_generation e \<noteq> nat h div 1024 then None else Some e)"

definition held :: "tables \<Rightarrow> nat \<Rightarrow> int \<Rightarrow> entry option" where
  "held ts pid h = (case entries_of ts pid of None \<Rightarrow> None | Some es \<Rightarrow> entry_for es h)"

lemma resolve_held:
  "held ts pid h = map_option (entry_at ts) (resolve ts pid h)"
  by (auto simp: held_def resolve_def entries_of_def entry_for_def decode_handle_def entry_at_def Let_def split: option.splits)

lemma look_held:
  "look pid h ty needed ts = (case held ts pid h of None \<Rightarrow> None
     | Some e \<Rightarrow> if en_type e = ty \<and> en_rights e AND needed = needed then Some (en_pointer e) else None)"
  by (auto simp: look_def resolve_held Let_def split: option.splits)

lemma rights_of_held: "rights_of pid h ts = (case held ts pid h of None \<Rightarrow> 0 | Some e \<Rightarrow> en_rights e)"
  and type_of_held: "type_of pid h ts = (case held ts pid h of None \<Rightarrow> TNone | Some e \<Rightarrow> en_type e)"
  by (simp_all add: rights_of_def type_of_def resolve_held split: option.splits)

lemma resolve_Some:
  assumes "resolve ts pid h = Some at"
  obtains i es where "at = (i, nat h mod 1024)" "find_table ts pid = Some i" "entries_of ts pid = Some es"
    "nat h mod 1024 < kMaxHandles" "0 \<le> h" "es ! (nat h mod 1024) = entry_at ts at"
    "en_type (entry_at ts at) \<noteq> TNone" "en_generation (entry_at ts at) = nat h div 1024"
  using assms that
  by (auto simp: resolve_def decode_handle_def Let_def entries_of_def entry_at_def split: option.splits if_splits)

lemma set_entry_entries:
  assumes "tables_ok ts" "find_table ts pid = Some i" "entries_of ts pid = Some es"
  shows "tables_ok (set_entry ts (i, slot) e)"
    "entries_of (set_entry ts (i, slot) e) = (entries_of ts)(pid \<mapsto> es[slot := e])"
proof -
  obtain t where t: "i < length ts" "ts ! i = Some t" "t_used t" "t_pid t = pid" using find_table_Some [OF assms(2)] by blast
  then have es: "es = t_entries t" using assms(2,3) by (simp add: entries_of_def)
  have s: "set_entry ts (i, slot) e = ts[i := Some (t\<lparr>t_entries := es[slot := e]\<rparr>)]" using t by (simp add: set_entry_def es)
  have "length es = kMaxHandles" using entries_length [OF assms(1,3)] .
  moreover have "k < length ts \<Longrightarrow> k \<noteq> i \<Longrightarrow> \<not> holds_pid pid (ts ! k)" for k
    using assms(1) t by (auto simp: tables_ok_def holds_pid_def)
  ultimately show "tables_ok (set_entry ts (i, slot) e)"
    unfolding s by (intro tables_ok_update [OF assms(1)]) (simp_all add: t(4))
  show "entries_of (set_entry ts (i, slot) e) = (entries_of ts)(pid \<mapsto> es[slot := e])"
    unfolding s using entries_update [OF assms(2) refl, of "t\<lparr>t_entries := es[slot := e]\<rparr>"] t(3,4) by simp
qed

lemma entries_or_new_length: "tables_ok ts \<Longrightarrow> length (entries_or_new ts pid) = kMaxHandles"
  using entries_length by (auto simp: entries_or_new_def split: option.splits)

text \<open>Either nothing was issued, or one free slot of the process's table was filled.\<close>

lemma give_cases:
  assumes "tables_ok ts" "give room pid ty ptr rights ts = (h, ts')"
  obtains (none) "h = kNoHandle" "tables_ok ts'" "held ts' = held ts"
      "entries_of ts' = entries_of ts \<or> entries_of ts' = (entries_of ts)(pid \<mapsto> entries_or_new ts pid)"
    | (some) slot g where "ty \<noteq> TNone" "slot < kMaxHandles" "en_type (entries_or_new ts pid ! slot) = TNone"
      "g = next_generation (en_generation (entries_or_new ts pid ! slot))" "h = encode slot g" "tables_ok ts'"
      "entries_of ts' = (entries_of ts)(pid \<mapsto> (entries_or_new ts pid)
         [slot := \<lparr>en_type = ty, en_rights = rights, en_pointer = ptr, en_generation = g\<rparr>])"
proof (cases "ty = TNone \<or> find_or_make room ts pid = None")
  case True
  then have "h = kNoHandle" "ts' = ts" using assms(2) by (auto simp: give_def split: if_splits)
  then show thesis using none assms(1) by simp
next
  case False
  then obtain i ts1 where f: "find_or_make room ts pid = Some (i, ts1)" by auto
  note m = find_or_make_spec [OF assms(1) f]
  let ?es = "entries_or_new ts pid"
  have e1: "entries_of ts1 pid = Some ?es" using m(3) by simp
  have es: "entries_of ts1 pid = Some ?es" "t_entries (the (ts1 ! i)) = ?es"
    using e1 m(2) by (simp_all add: entries_of_def)
  show thesis
  proof (cases "first_index (\<lambda>e. en_type e = TNone) ?es")
    case None
    have "held ts1 pid' = held ts pid'" for pid'
      using m(3) None by (auto simp: held_def entries_or_new_def entry_for_def no_entry_def Let_def first_index_None kMaxHandles_def
          split: option.splits if_splits intro!: ext)
    then show thesis using none assms(2) False f es m None by (auto simp: give_def)
  next
    case (Some slot)
    then have "slot < kMaxHandles" "en_type (?es ! slot) = TNone"
      using entries_or_new_length [OF assms(1)] by (auto simp: first_index_Some)
    then show thesis
      using some [of slot] assms(2) False f es m Some set_entry_entries [OF m(1,2) es(1)]
      by (auto simp: give_def Let_def entry_at_def)
  qed
qed

text \<open>No slot of the process has been used two million times.\<close>

definition young :: "tables \<Rightarrow> nat \<Rightarrow> bool" where
  "young ts pid \<longleftrightarrow> (\<forall>es e. entries_of ts pid = Some es \<and> e \<in> set es \<longrightarrow> en_generation e < 2097151)"

lemma young_new:
  assumes "young ts pid" "tables_ok ts" "slot < kMaxHandles"
  shows "en_generation (entries_or_new ts pid ! slot) < 2097151"
proof (cases "entries_of ts pid")
  case (Some es)
  then show ?thesis using assms entries_length [OF assms(2) Some] by (auto simp: young_def entries_or_new_def)
qed (use assms(3) in \<open>simp add: entries_or_new_def no_entry_def\<close>)

lemma encode_parts:
  assumes "slot < kMaxHandles" "g < 2097152"
  shows "0 \<le> encode slot g" "nat (encode slot g) mod 1024 = slot" "nat (encode slot g) div 1024 = g"
proof -
  have e: "encode slot g = int (g * 1024 + slot)" using assms by (simp add: encode_def Let_def kMaxHandles_def)
  then have "nat (encode slot g) = g * 1024 + slot" by (simp only: nat_int)
  then show "0 \<le> encode slot g" "nat (encode slot g) mod 1024 = slot" "nat (encode slot g) div 1024 = g"
    using assms(1) e by (simp_all add: kMaxHandles_def)
qed

lemma handle_eq:
  assumes "0 \<le> h" "0 \<le> h'" "nat h mod 1024 = nat h' mod 1024" "nat h div 1024 = nat h' div 1024"
  shows "h = h'"
  using assms by (metis div_mult_mod_eq eq_nat_nat_iff)

lemma next_generation_small: "g < 4294967295 \<Longrightarrow> next_generation g = g + 1"
  by (simp add: next_generation_def Let_def)

lemma held_give:
  assumes "tables_ok ts" "young ts pid" "give room pid ty ptr rights ts = (h, ts')" "h \<noteq> kNoHandle"
  shows "\<exists>g. held ts' = (held ts)(pid := (held ts pid)(h \<mapsto> \<lparr>en_type = ty, en_rights = rights, en_pointer = ptr, en_generation = g\<rparr>))"
  using assms(1,3)
proof (cases rule: give_cases)
  case none
  then show ?thesis using assms(4) by simp
next
  case (some slot g)
  let ?es = "entries_or_new ts pid" and ?e = "\<lparr>en_type = ty, en_rights = rights, en_pointer = ptr, en_generation = g\<rparr>"
  have len: "slot < length ?es" using some(2) entries_or_new_length [OF assms(1)] by simp
  have y: "en_generation (?es ! slot) < 2097151" by (rule young_new [OF assms(2,1) some(2)])
  have g: "g < 2097152" using some(4) y by (simp add: next_generation_small)
  note p = encode_parts [OF some(2) g, folded some(5)]
  have old: "held ts pid h' = entry_for ?es h'" for h'
    by (auto simp: held_def entries_or_new_def entry_for_def no_entry_def Let_def split: option.splits)
  have "entry_for (?es[slot := ?e]) h' = (if h' = h then Some ?e else entry_for ?es h')" for h'
  proof (cases "0 \<le> h' \<and> nat h' mod 1024 = slot")
    case True
    have iff: "nat h' div 1024 = g \<longleftrightarrow> h' = h" using True p handle_eq [of h' h] by auto
    have "entry_for (?es[slot := ?e]) h' = (if nat h' div 1024 = g then Some ?e else None)"
      using True len some(1,2) by (simp add: entry_for_def Let_def)
    moreover have "entry_for ?es h' = None" using True some(2,3) by (simp add: entry_for_def)
    ultimately show ?thesis unfolding iff by simp
  next
    case False
    then have "h' \<noteq> h" "h' < 0 \<or> nat h' mod 1024 \<noteq> slot" using p(1,2) by auto
    then show ?thesis by (auto simp: entry_for_def)
  qed
  then show ?thesis using some(7) old
    by (intro exI [of _ g] ext) (auto simp: held_def [of ts'] fun_upd_def held_def [of ts])
qed

lemma held_close:
  assumes "tables_ok ts" "close_handle pid h ts = (ok, ts')"
  shows "tables_ok ts'" "ok \<longleftrightarrow> held ts pid h \<noteq> None" "held ts' = (held ts)(pid := (held ts pid)(h := None))"
proof -
  have "tables_ok ts' \<and> (ok \<longleftrightarrow> held ts pid h \<noteq> None) \<and> held ts' = (held ts)(pid := (held ts pid)(h := None))"
  proof (cases "resolve ts pid h")
    case None
    then have "ts' = ts" "\<not> ok" "held ts pid h = None" using assms(2) by (auto simp: close_handle_def resolve_held)
    then show ?thesis using assms(1) by (simp add: fun_upd_idem)
  next
    case (Some at)
    then obtain i es where r: "at = (i, nat h mod 1024)" "find_table ts pid = Some i" "entries_of ts pid = Some es"
      "nat h mod 1024 < kMaxHandles" "0 \<le> h" "es ! (nat h mod 1024) = entry_at ts at"
      "en_type (entry_at ts at) \<noteq> TNone" "en_generation (entry_at ts at) = nat h div 1024"
      by (rule resolve_Some)
    let ?e = "(entry_at ts at)\<lparr>en_type := TNone, en_rights := 0, en_pointer := 0\<rparr>"
    have ts': "ts' = set_entry ts (i, nat h mod 1024) ?e" "ok" using assms(2) Some r(1) by (simp_all add: close_handle_def)
    note s = set_entry_entries [OF assms(1) r(2,3), of "nat h mod 1024" ?e, folded ts'(1)]
    have len: "nat h mod 1024 < length es" using r(4) entries_length [OF assms(1) r(3)] by simp
    have "entry_for (es[nat h mod 1024 := ?e]) h' = (if h' = h then None else entry_for es h')" for h'
    proof (cases "0 \<le> h' \<and> nat h' mod 1024 = nat h mod 1024")
      case True
      have iff: "nat h' div 1024 = nat h div 1024 \<longleftrightarrow> h' = h" using True r(5) handle_eq [of h' h] by auto
      have "entry_for (es[nat h mod 1024 := ?e]) h' = None" using True len by (simp add: entry_for_def Let_def)
      moreover have "h' \<noteq> h \<Longrightarrow> entry_for es h' = None" using True r(6,8) iff by (simp add: entry_for_def Let_def)
      ultimately show ?thesis by simp
    next
      case False
      then have "h' \<noteq> h" "h' < 0 \<or> nat h' mod 1024 \<noteq> nat h mod 1024" using r(5) by auto
      then show ?thesis by (auto simp: entry_for_def)
    qed
    then have "held ts' = (held ts)(pid := (held ts pid)(h := None))"
      using s(2) r(3) by (intro ext) (auto simp: held_def)
    then show ?thesis using s(1) ts'(2) Some by (simp add: resolve_held)
  qed
  then show "tables_ok ts'" "ok \<longleftrightarrow> held ts pid h \<noteq> None" "held ts' = (held ts)(pid := (held ts pid)(h := None))" by simp_all
qed

lemma held_close_all:
  assumes "tables_ok ts"
  shows "tables_ok (close_all pid ts)" "entries_of (close_all pid ts) = (entries_of ts)(pid := None)"
proof -
  have "tables_ok (close_all pid ts) \<and> entries_of (close_all pid ts) = (entries_of ts)(pid := None)"
  proof (cases "find_table ts pid")
    case None
    then show ?thesis using assms by (simp add: close_all_def entries_of_def fun_upd_idem)
  next
    case (Some i)
    then obtain t where t: "i < length ts" "ts ! i = Some t" "t_used t" "t_pid t = pid" using find_table_Some by blast
    let ?x = "t\<lparr>t_used := False\<rparr>"
    have c: "close_all pid ts = ts[i := Some ?x]" using Some t(2) by (simp add: close_all_def)
    have ok: "tables_ok (ts[i := Some ?x])"
      using assms t(2) nth_mem [OF t(1)] by (intro tables_ok_update [OF assms]) (auto simp: tables_ok_def)
    have others: "\<not> holds_pid pid (ts ! k)" if "k < length ts" "k \<noteq> i" for k
      using assms that t by (auto simp: tables_ok_def holds_pid_def)
    have "find_table (ts[i := Some ?x]) pid = None"
      unfolding find_table_def first_index_None all_set_conv_all_nth
      using others t by (auto simp: nth_list_update holds_pid_def)
    moreover have "find_table (ts[i := Some ?x]) pid' = find_table ts pid' \<and> find_table ts pid' \<noteq> Some i" if "pid' \<noteq> pid" for pid'
    proof -
      have n: "\<not> holds_pid pid' (ts ! i)" "\<not> holds_pid pid' (Some ?x)" using t that by (auto simp: holds_pid_def)
      then show ?thesis by (auto simp: find_table_def first_index_update first_index_Some)
    qed
    ultimately have "entries_of (ts[i := Some ?x]) = (entries_of ts)(pid := None)"
      by (intro ext) (auto simp: entries_of_def map_option_case split: option.splits, metis nth_list_update_neq)
    then show ?thesis using ok c by simp
  qed
  then show "tables_ok (close_all pid ts)" "entries_of (close_all pid ts) = (entries_of ts)(pid := None)" by simp_all
qed

lemma entries_inherit:
  assumes "tables_ok ts"
  shows "tables_ok (inherit room a b ts)"
    "entries_of (inherit room a b ts) = entries_of ts
     \<or> (\<exists>es. entries_of ts a = Some es \<and> entries_of (inherit room a b ts) = (entries_of ts)(b \<mapsto> es))"
proof -
  have "tables_ok (inherit room a b ts) \<and> (entries_of (inherit room a b ts) = entries_of ts
     \<or> (\<exists>es. entries_of ts a = Some es \<and> entries_of (inherit room a b ts) = (entries_of ts)(b \<mapsto> es)))"
  proof (cases "find_table ts a = None \<or> find_or_make room ts b = None")
    case True
    then show ?thesis using assms by (auto simp: inherit_def Let_def split: option.splits)
  next
    case False
    then obtain i j ts1 where ij: "find_table ts a = Some i" "find_or_make room ts b = Some (j, ts1)" by auto
    define es where "es = t_entries (the (ts ! i))"
    have es: "entries_of ts a = Some es" using ij(1) by (simp add: entries_of_def es_def)
    note m = find_or_make_spec [OF assms ij(2)]
    obtain t where t: "j < length ts1" "ts1 ! j = Some t" "t_used t" "t_pid t = b" using find_table_Some [OF m(2)] by blast
    let ?x = "t\<lparr>t_entries := es, t_pid := b, t_used := True\<rparr>"
    have inh: "inherit room a b ts = ts1[j := Some ?x]" using ij t(2) by (simp add: inherit_def Let_def es_def)
    have "tables_ok (ts1[j := Some ?x])"
      using m(1) t entries_length [OF assms es] by (intro tables_ok_update [OF m(1)]) (auto simp: tables_ok_def holds_pid_def)
    moreover have "entries_of (ts1[j := Some ?x]) = (entries_of ts1)(b \<mapsto> es)"
      using entries_update [OF m(2) refl, of ?x] by simp
    ultimately show ?thesis using inh es m(3) by simp
  qed
  then show "tables_ok (inherit room a b ts)"
    "entries_of (inherit room a b ts) = entries_of ts
     \<or> (\<exists>es. entries_of ts a = Some es \<and> entries_of (inherit room a b ts) = (entries_of ts)(b \<mapsto> es))" by simp_all
qed

section \<open>Sequences of operations\<close>

datatype hop =
    Give bool nat otype nat "32 word"
  | Duplicate bool nat int "32 word"
  | Close nat int
  | CloseAll nat
  | Inherit bool nat nat

fun hexec :: "hop \<Rightarrow> tables \<Rightarrow> tables" where
  "hexec (Give room pid ty ptr rights) ts = snd (give room pid ty ptr rights ts)"
| "hexec (Duplicate room pid h allow) ts = snd (duplicate room pid h allow ts)"
| "hexec (Close pid h) ts = snd (close_handle pid h ts)"
| "hexec (CloseAll pid) ts = close_all pid ts"
| "hexec (Inherit room a b) ts = inherit room a b ts"

lemma give_ok: "tables_ok ts \<Longrightarrow> tables_ok (snd (give room pid ty ptr rights ts))"
  using give_cases [of ts room pid ty ptr rights "fst (give room pid ty ptr rights ts)" "snd (give room pid ty ptr rights ts)"]
  by (metis prod.collapse)

lemma close_ok: "tables_ok ts \<Longrightarrow> tables_ok (snd (close_handle pid h ts))"
  using held_close(1) [of ts pid h] by (metis prod.collapse)

lemma hexec_ok: "tables_ok ts \<Longrightarrow> tables_ok (hexec op ts)"
  by (cases op) (auto simp: give_ok close_ok duplicate_def Let_def held_close_all entries_inherit split: option.split prod.splits)

text \<open>Every object a table names was given, and with at least the rights the entry carries.\<close>

definition granted :: "(otype \<times> nat \<times> 32 word) set \<Rightarrow> entry \<Rightarrow> bool" where
  "granted G e \<longleftrightarrow> en_type e = TNone
     \<or> (\<exists>r. (en_type e, en_pointer e, r) \<in> G \<and> en_rights e AND r = en_rights e)"

definition all_granted :: "(otype \<times> nat \<times> 32 word) set \<Rightarrow> tables \<Rightarrow> bool" where
  "all_granted G ts \<longleftrightarrow> (\<forall>pid es e. entries_of ts pid = Some es \<and> e \<in> set es \<longrightarrow> granted G e)"

fun gives_of :: "hop list \<Rightarrow> (otype \<times> nat \<times> 32 word) set" where
  "gives_of [] = {}"
| "gives_of (Give room pid ty ptr rights # ops) = insert (ty, ptr, rights) (gives_of ops)"
| "gives_of (op # ops) = gives_of ops"

lemma granted_mono: "granted G e \<Longrightarrow> G \<subseteq> G' \<Longrightarrow> granted G' e"
  by (auto simp: granted_def)

lemma all_granted_mono: "all_granted G ts \<Longrightarrow> G \<subseteq> G' \<Longrightarrow> all_granted G' ts"
  unfolding all_granted_def by (blast intro: granted_mono)

lemma all_granted_upd:
  assumes "all_granted G ts" "entries_of ts' = (entries_of ts)(pid \<mapsto> es)" "\<forall>e \<in> set es. granted G e"
  shows "all_granted G ts'"
  using assms by (auto simp: all_granted_def split: if_splits)

lemma new_granted: "all_granted G ts \<Longrightarrow> \<forall>e \<in> set (entries_or_new ts pid). granted G e"
  by (auto simp: all_granted_def entries_or_new_def granted_def no_entry_def split: option.splits)

lemma give_granted:
  assumes "tables_ok ts" "all_granted G ts"
    "granted G \<lparr>en_type = ty, en_rights = rights, en_pointer = ptr, en_generation = 0\<rparr>"
  shows "all_granted G (snd (give room pid ty ptr rights ts))"
proof -
  obtain h ts' where g: "give room pid ty ptr rights ts = (h, ts')" by fastforce
  from assms(1) g show ?thesis
  proof (cases rule: give_cases)
    case none
    then show ?thesis using g assms(2) all_granted_upd [OF assms(2) _ new_granted [OF assms(2)], of ts' pid pid]
      by (auto simp: all_granted_def)
  next
    case (some slot gen)
    have "\<forall>e \<in> set ((entries_or_new ts pid)[slot := \<lparr>en_type = ty, en_rights = rights, en_pointer = ptr, en_generation = gen\<rparr>]). granted G e"
      using new_granted [OF assms(2), of pid] assms(3) set_update_subset_insert by (fastforce simp: granted_def)
    then show ?thesis using g all_granted_upd [OF assms(2) some(7)] by simp
  qed
qed

lemma held_in_entries: "held ts pid h = Some e \<Longrightarrow> tables_ok ts \<Longrightarrow> \<exists>es. entries_of ts pid = Some es \<and> e \<in> set es"
  using entries_length [of ts pid]
  by (auto simp: held_def entry_for_def Let_def split: option.splits if_splits)

lemma close_entries:
  assumes "tables_ok ts" "entries_of (snd (close_handle pid h ts)) p = Some es" "e \<in> set es"
  shows "en_type e = TNone \<or> (\<exists>es'. entries_of ts p = Some es' \<and> e \<in> set es')"
proof (cases "resolve ts pid h")
  case None
  then show ?thesis using assms(2,3) by (auto simp: close_handle_def)
next
  case (Some at)
  then obtain i es0 where r: "at = (i, nat h mod 1024)" "find_table ts pid = Some i" "entries_of ts pid = Some es0"
    by (rule resolve_Some)
  let ?e = "(entry_at ts at)\<lparr>en_type := TNone, en_rights := 0, en_pointer := 0\<rparr>"
  have u: "entries_of (snd (close_handle pid h ts)) = (entries_of ts)(pid \<mapsto> es0[nat h mod 1024 := ?e])"
    using set_entry_entries(2) [OF assms(1) r(2,3)] Some r(1) by (simp add: close_handle_def)
  show ?thesis
  proof (cases "p = pid")
    case True
    then have "e = ?e \<or> e \<in> set es0" using assms(2,3) u set_update_subset_insert [of es0 "nat h mod 1024" ?e] by auto
    then show ?thesis using r(3) True by auto
  next
    case False
    then show ?thesis using assms(2,3) u by auto
  qed
qed

lemma hexec_granted:
  assumes "tables_ok ts" "all_granted G ts"
  shows "all_granted (G \<union> gives_of [op]) (hexec op ts)"
proof (cases op)
  case (Give room pid ty ptr rights)
  have "all_granted (insert (ty, ptr, rights) G) ts" using assms(2) by (rule all_granted_mono) blast
  then have "all_granted (insert (ty, ptr, rights) G) (snd (give room pid ty ptr rights ts))"
    by (rule give_granted [OF assms(1)]) (auto simp: granted_def)
  then show ?thesis using Give by simp
next
  case (Duplicate room pid h allow)
  show ?thesis
  proof (cases "held ts pid h")
    case None
    then show ?thesis using Duplicate assms(2) by (simp add: duplicate_def resolve_held)
  next
    case (Some e)
    then have "granted G e" using held_in_entries [OF Some assms(1)] assms(2) by (auto simp: all_granted_def)
    moreover have "en_type e \<noteq> TNone" using Some by (auto simp: held_def entry_for_def Let_def split: option.splits if_splits)
    ultimately obtain r where r: "(en_type e, en_pointer e, r) \<in> G" "en_rights e AND r = en_rights e"
      by (auto simp: granted_def)
    have "(en_rights e AND allow) AND r = en_rights e AND allow" using r(2) by (metis and.assoc and.commute)
    then have "granted G \<lparr>en_type = en_type e, en_rights = en_rights e AND allow, en_pointer = en_pointer e, en_generation = 0\<rparr>"
      using r(1) by (auto simp: granted_def)
    then have "all_granted G (snd (give room pid (en_type e) (en_pointer e) (en_rights e AND allow) ts))"
      by (rule give_granted [OF assms])
    then show ?thesis using Duplicate Some assms(2) by (auto simp: duplicate_def resolve_held Let_def)
  qed
next
  case (Close pid h)
  have "granted G e" if "entries_of (snd (close_handle pid h ts)) p = Some es" "e \<in> set es" for p es e
    using close_entries [OF assms(1) that] assms(2) by (auto simp: all_granted_def granted_def)
  then have "all_granted G (snd (close_handle pid h ts))" unfolding all_granted_def by blast
  then show ?thesis using Close by simp
next
  case (CloseAll pid)
  then show ?thesis using held_close_all(2) [OF assms(1), of pid] assms(2) by (auto simp: all_granted_def)
next
  case (Inherit room a b)
  then show ?thesis using entries_inherit(2) [OF assms(1), of room a b] assms(2)
    by (auto simp: all_granted_def split: if_splits)
qed

lemma gives_of_Cons: "gives_of (op # ops) = gives_of [op] \<union> gives_of ops"
  by (cases op) auto

lemma run_granted:
  assumes "tables_ok ts" "all_granted G ts"
  shows "all_granted (G \<union> gives_of ops) (fold hexec ops ts)"
  using assms
proof (induction ops arbitrary: G ts)
  case (Cons op ops)
  have "all_granted (G \<union> gives_of [op]) (hexec op ts)" by (rule hexec_granted [OF Cons.prems])
  from Cons.IH [OF hexec_ok [OF Cons.prems(1)] this] show ?case by (simp add: gives_of_Cons [of op ops] Un_assoc)
qed simp

lemma init_ok: "tables_ok object_init" "entries_of object_init = (\<lambda>pid. None)"
  by (auto simp: tables_ok_def object_init_def entries_of_def find_table_def first_index_None holds_pid_def)

section \<open>The guarantees\<close>

text \<open>
  C15. Authority can be passed on and never invented: whatever operations have run since the start, if
  a process can look a handle up as an object of some type with some rights, then the kernel gave
  out a handle on exactly that object with at least those rights.
\<close>

theorem no_forged_authority:
  assumes "look pid h ty needed (fold hexec ops object_init) = Some ptr" "ty \<noteq> TNone"
  shows "\<exists>rights. (ty, ptr, rights) \<in> gives_of ops \<and> needed AND rights = needed"
proof -
  let ?ts = "fold hexec ops object_init"
  have ok: "tables_ok ?ts"
    using init_ok(1) hexec_ok by (intro fold_invariant [of ops "\<lambda>_. True" tables_ok]) auto
  have g: "all_granted (gives_of ops) ?ts"
    using run_granted [OF init_ok(1), of "{}" ops] init_ok(2) by (simp add: all_granted_def)
  obtain e where e: "held ?ts pid h = Some e" "en_type e = ty" "en_rights e AND needed = needed" "en_pointer e = ptr"
    using assms(1) by (auto simp: look_held split: option.splits if_splits)
  then have "granted (gives_of ops) e" using held_in_entries [OF e(1) ok] g by (auto simp: all_granted_def)
  then obtain r where r: "(ty, ptr, r) \<in> gives_of ops" "en_rights e AND r = en_rights e"
    using e assms(2) by (auto simp: granted_def)
  have "needed AND r = (en_rights e AND r) AND needed" using e(3) by (metis and.assoc and.commute)
  then show ?thesis using r e(3) by auto
qed

lemma first_index_replicate: "0 < n \<Longrightarrow> P x \<Longrightarrow> first_index P (replicate n x) = Some 0"
  by (cases n) simp_all

lemma first_give:
  assumes "ty \<noteq> TNone"
  shows "\<exists>ts. give True pid ty ptr rights object_init = (1024, ts)"
proof -
  have t: "first_index (\<lambda>t. \<not> in_use t) object_init = Some 0" "object_init ! 0 = None"
    by (simp_all add: object_init_def kMaxTables_def in_use_def first_index_replicate)
  have f: "find_table object_init pid = None"
    by (simp add: find_table_def first_index_None object_init_def holds_pid_def)
  obtain ts where m: "find_or_make True object_init pid = Some (0, ts)" using t f by (simp add: find_or_make_def)
  note e = find_or_make_spec [OF init_ok(1) m]
  have es: "entries_of ts pid = Some (replicate kMaxHandles no_entry)"
    using e(3) init_ok(2) by (simp add: entries_or_new_def)
  then have te: "t_entries (the (ts ! 0)) = replicate kMaxHandles no_entry" using e(2) by (simp add: entries_of_def)
  moreover have "first_index (\<lambda>e. en_type e = TNone) (replicate kMaxHandles no_entry) = Some 0"
    "replicate kMaxHandles no_entry ! 0 = no_entry"
    by (simp_all add: kMaxHandles_def no_entry_def first_index_replicate)
  ultimately show ?thesis using assms m
    by (simp add: give_def entry_at_def Let_def next_generation_def encode_def no_entry_def)
qed

theorem no_forged_authority_witness:
  "look 5 1024 TShm kRead (fold hexec [Give True 5 TShm 100 kAll] object_init) = Some 100
    \<and> (\<exists>rights. (TShm, 100, rights) \<in> gives_of [Give True 5 TShm 100 kAll] \<and> kRead AND rights = kRead)"
proof -
  obtain ts where g: "give True 5 TShm 100 kAll object_init = (1024, ts)" using first_give [of TShm 5 100 kAll] by auto
  have "young object_init 5" by (simp add: young_def init_ok(2))
  from held_give [OF init_ok(1) this g] have "look 5 1024 TShm kRead ts = Some 100"
    by (auto simp: kNoHandle_def look_held kRead_def kAll_def)
  then have l: "look 5 1024 TShm kRead (fold hexec [Give True 5 TShm 100 kAll] object_init) = Some 100" using g by simp
  from no_forged_authority [OF l] l show ?thesis by simp
qed

section \<open>Closed handles\<close>














text \<open>
  The generation of a slot is 32 bits wide but only 22 of them fit beside the slot number, and the
  sign takes one more: after two million uses of a slot the number handed out is negative, no
  operation accepts it, and the slot is lost.
\<close>

lemma worn_slot_gives_a_dead_handle:
  assumes "tables_ok ts" "entries_of ts pid = Some es" "first_index (\<lambda>e. en_type e = TNone) es = Some slot"
    "en_generation (es ! slot) = 2097151" "ty \<noteq> TNone"
  shows "\<exists>h ts'. give room pid ty ptr rights ts = (h, ts') \<and> h < 0 \<and> h \<noteq> kNoHandle
    \<and> held ts' pid h = None \<and> entries_of ts' pid = Some (es[slot :=
        \<lparr>en_type = ty, en_rights = rights, en_pointer = ptr, en_generation = 2097152\<rparr>])"
proof -
  obtain i where i: "find_table ts pid = Some i" "t_entries (the (ts ! i)) = es" using assms(2) by (auto simp: entries_of_def)
  have s: "slot < 128" using assms(3) entries_length [OF assms(1,2)] by (auto simp: first_index_Some kMaxHandles_def)
  let ?e = "\<lparr>en_type = ty, en_rights = rights, en_pointer = ptr, en_generation = 2097152\<rparr>"
  have "give room pid ty ptr rights ts = (encode slot 2097152, set_entry ts (i, slot) ?e)"
    using assms i by (simp add: give_def find_or_make_def entry_at_def next_generation_def Let_def)
  moreover have "encode slot 2097152 = int slot - 2147483648" using s by (simp add: encode_def Let_def)
  ultimately show ?thesis using s set_entry_entries(2) [OF assms(1) i(1) assms(2), of slot ?e]
    by (simp add: kNoHandle_def held_def entry_for_def)
qed

end
