(* ===== verification/Kernel_Ipc_Laws.thy ===== *)
theory Kernel_Ipc_Laws
  imports Kernel_Ipc Kernel_Object_Laws
begin

text \<open>
  Message passing as a system of threads: \<open>istep\<close> is one thread going through one part of an
  operation under the lock, \<open>irun\<close> a sequence of these. A slot belongs to the thread that waits on
  it until that thread has its answer; an answer once given reaches its caller; and capabilities
  travel without growing.
\<close>

section \<open>Slots\<close>

lemma upd_request_simps [simp]:
  "requests (upd_request h f s) = (requests s)[h := f (requests s ! h)]"
  "ports (upd_request h f s) = ports s" "objs (upd_request h f s) = objs s" "woken (upd_request h f s) = woken s"
  by (simp_all add: upd_request_def)

lemma wake_simps [simp]:
  "requests (wake cs s) = requests s" "ports (wake cs s) = ports s" "objs (wake cs s) = objs s"
  "woken (wake cs s) = woken s @ cs"
  by (simp_all add: wake_def)

text \<open>What closing a port, and the end of a process, do to one request.\<close>

definition orphan :: "nat \<Rightarrow> request \<Rightarrow> request" where
  "orphan port r = (if rq_port r \<noteq> port \<or> rq_state r = Free then r else r\<lparr>rq_state := Abandoned\<rparr>)"

definition released :: "nat \<Rightarrow> request \<Rightarrow> request" where
  "released pid r =
     (if rq_state r = Free then r
      else if server_pid r = pid \<and> rq_state r = Dropped then r\<lparr>rq_state := Free\<rparr>
      else if server_pid r = pid \<and> rq_state r = Taken then r\<lparr>rq_state := Abandoned\<rparr>
      else if caller_pid r = pid then r\<lparr>rq_state := (if rq_state r = Taken then Dropped else Free)\<rparr>
      else r)"

lemma list_update_same: "xs ! i = x \<Longrightarrow> xs[i := x] = xs"
  by (metis list_update_id)

lemma abandon_one_requests:
  "requests (fst (abandon_one p i x)) = (requests (fst x))[i := orphan p (requests (fst x) ! i)]"
  "ports (fst (abandon_one p i x)) = ports (fst x)" "objs (fst (abandon_one p i x)) = objs (fst x)"
  "woken (fst (abandon_one p i x)) = woken (fst x)"
  by (auto simp: abandon_one_def orphan_def Let_def split: prod.splits)

lemma let_go_requests:
  "requests (fst (let_go pid i x)) = (requests (fst x))[i := released pid (requests (fst x) ! i)]"
  "ports (fst (let_go pid i x)) = ports (fst x)" "objs (fst (let_go pid i x)) = objs (fst x)"
  by (auto simp: let_go_def released_def Let_def split: prod.splits)

text \<open>A loop over the slots that rewrites each on its own rewrites them all.\<close>

lemma fold_slots:
  assumes "\<And>i x. requests (fst (step i x)) = (requests (fst x))[i := f (requests (fst x) ! i)]"
  shows "requests (fst (fold step [0 ..< n] x)) = map f (take n (requests (fst x))) @ drop n (requests (fst x))"
proof (induction n)
  case (Suc n)
  show ?case
  proof (cases "n < length (requests (fst x))")
    case True
    then show ?thesis
      by (simp add: assms Suc take_Suc_conv_app_nth list_update_append nth_append Cons_nth_drop_Suc [symmetric])
  qed (simp add: assms Suc list_update_beyond)
qed simp

lemma fold_keeps:
  assumes "\<And>i x. g (fst (step i x)) = g (fst x)"
  shows "g (fst (fold step is x)) = g (fst x)"
  using assms by (induction "is" arbitrary: x) simp_all

lemma abandon_all:
  assumes "length (requests s) = kMaxRequests"
  shows "requests (fst (fold (abandon_one p) [0 ..< kMaxRequests] (s, wakes))) = map (orphan p) (requests s)"
  using fold_slots [of "abandon_one p" "orphan p" kMaxRequests "(s, wakes)"] assms
  by (simp add: abandon_one_requests)

lemma abandon_keeps:
  "objs (fst (fold (abandon_one p) is x)) = objs (fst x)"
  "ports (fst (fold (abandon_one p) is x)) = ports (fst x)"
  "woken (fst (fold (abandon_one p) is x)) = woken (fst x)"
  by (rule fold_keeps, simp add: abandon_one_requests)+

lemma destroy_locked_requests:
  assumes "length (requests s) = kMaxRequests" "port_destroy_locked cur port s wakes = (answer, s', wakes')"
  shows "requests s' = (if answer = 0 then map (orphan (nat port)) (requests s) else requests s)"
    "objs s' = objs s" "length (ports s') = length (ports s)" "answer = 0 \<or> s' = s" "woken s' = woken s"
proof -
  let ?s = "s\<lparr>ports := (ports s)[nat port := (ports s ! nat port)\<lparr>po_used := False\<rparr>]\<rparr>"
  let ?x = "fold (abandon_one (nat port)) [0 ..< kMaxRequests] (?s, wakes)"
  have x: "requests (fst ?x) = map (orphan (nat port)) (requests s)" "objs (fst ?x) = objs s"
    "length (ports (fst ?x)) = length (ports s)" "woken (fst ?x) = woken s"
    using abandon_all [of ?s "nat port" wakes] assms(1) by (simp_all add: abandon_keeps)
  have "(answer = 0 \<and> s' = fst ?x) \<or> (answer = -1 \<and> s' = s)"
    using assms(2) unfolding port_destroy_locked_def Let_def by (auto split: if_splits)
  then show "requests s' = (if answer = 0 then map (orphan (nat port)) (requests s) else requests s)"
    "objs s' = objs s" "length (ports s') = length (ports s)" "answer = 0 \<or> s' = s" "woken s' = woken s"
    using x by auto
qed

text \<open>What the loop over the ports of a dying process may do to a request: leave it, or orphan it.\<close>

definition left_or_orphaned :: "request \<Rightarrow> request \<Rightarrow> bool" where
  "left_or_orphaned r r' \<longleftrightarrow> r' = r \<or> (rq_state r \<noteq> Free \<and> r' = r\<lparr>rq_state := Abandoned\<rparr>)"

lemma orphan_step: "left_or_orphaned r r' \<Longrightarrow> left_or_orphaned r (orphan p r')"
  by (auto simp: left_or_orphaned_def orphan_def)

lemma close_ports:
  assumes "length (requests (fst x)) = kMaxRequests"
  shows "list_all2 left_or_orphaned (requests (fst x)) (requests (fst (fold (close_port cur pid) is x)))
    \<and> objs (fst (fold (close_port cur pid) is x)) = objs (fst x)
    \<and> length (ports (fst (fold (close_port cur pid) is x))) = length (ports (fst x))"
proof (induction "is" rule: rev_induct)
  case Nil
  then show ?case by (simp add: list.rel_refl left_or_orphaned_def)
next
  case (snoc i "is")
  obtain s wakes where s: "fold (close_port cur pid) is x = (s, wakes)" by fastforce
  with snoc have rel: "list_all2 left_or_orphaned (requests (fst x)) (requests s)" by simp
  then have "length (requests s) = kMaxRequests" using assms list_all2_lengthD by fastforce
  moreover obtain answer s' wakes' where d: "port_destroy_locked cur (int i) s wakes = (answer, s', wakes')"
    by (metis prod_cases3)
  ultimately have d': "requests s' = (if answer = 0 then map (orphan i) (requests s) else requests s)"
    "objs s' = objs s" "length (ports s') = length (ports s)"
    using destroy_locked_requests [OF _ d] by simp_all
  have "list_all2 left_or_orphaned (requests (fst x)) (map (orphan i) (requests s))"
    using rel by (auto simp: list_all2_conv_all_nth orphan_step)
  moreover have "close_port cur pid i (s, wakes) = (if po_used (ports s ! i) \<and> po_owner (ports s ! i) = pid then (s', wakes') else (s, wakes))"
    using d by (simp add: close_port_def)
  ultimately show ?case using snoc s d' rel by simp
qed

lemma abandon_requests:
  assumes "length (requests s) = kMaxRequests"
  obtains rs where "list_all2 left_or_orphaned (requests s) rs" "requests (abandon cur pid s) = map (released pid) rs"
    "objs (abandon cur pid s) = objs s" "length (ports (abandon cur pid s)) = length (ports s)"
proof -
  let ?x = "fold (close_port cur pid) [0 ..< kMaxPorts] (s, [])"
  let ?y = "fold (let_go pid) [0 ..< kMaxRequests] ?x"
  have x: "list_all2 left_or_orphaned (requests s) (requests (fst ?x))" "objs (fst ?x) = objs s"
    "length (ports (fst ?x)) = length (ports s)"
    using close_ports [of "(s, [])" cur pid "[0 ..< kMaxPorts]"] assms by simp_all
  have "length (requests (fst ?x)) = kMaxRequests" using x(1) assms list_all2_lengthD by fastforce
  then have y: "requests (fst ?y) = map (released pid) (requests (fst ?x))"
    using fold_slots [of "let_go pid" "released pid" kMaxRequests ?x] by (simp add: let_go_requests)
  have "objs (fst ?y) = objs (fst ?x)" "ports (fst ?y) = ports (fst ?x)"
    by (rule fold_keeps, simp add: let_go_requests)+
  moreover have "abandon cur pid s = wake (snd ?y) (fst ?y)"
    by (simp add: abandon_def case_prod_beta)
  ultimately show thesis using x y that [of "requests (fst ?x)"] by simp
qed

text \<open>The end of a call frees its slot and touches no other.\<close>

definition retexted :: "nat \<Rightarrow> message \<Rightarrow> tables \<Rightarrow> ipc \<Rightarrow> ipc" where
  "retexted h b ts s = s\<lparr>requests := (requests s)[h := (requests s ! h)\<lparr>body := b\<rparr>], objs := ts\<rparr>"

lemma retexted_same: "retexted h (body (requests s ! h)) (objs s) s = s"
  by (simp add: retexted_def)

lemma retexted_twice: "retexted h b' ts' (retexted h b ts s) = retexted h b' ts' s"
  by (cases "h < length (requests s)") (simp_all add: retexted_def list_update_beyond)

lemma install_step: "\<exists>b ts. install rooms tgid h i s = retexted h b ts s"
proof -
  let ?c = "carrying (requests s ! h) ! i"
  obtain n ts where "give (rooms i) tgid (ca_type ?c) (ca_pointer ?c) (ca_rights ?c) (objs s) = (n, ts)" by fastforce
  then have "install rooms tgid h i s = retexted h ((body (requests s ! h))\<lparr>handle := (handle (body (requests s ! h)))[i := n]\<rparr>) ts s"
    by (simp add: install_def upd_request_def retexted_def)
  then show ?thesis by blast
qed

lemma blank_step: "\<exists>b. blank h i s = retexted h b (objs s) s"
  by (rule exI [of _ "(body (requests s ! h))\<lparr>handle := (handle (body (requests s ! h)))[i := kNoHandle]\<rparr>"])
    (simp add: blank_def upd_request_def retexted_def)

lemma install_fold: "\<exists>b ts. fold (install rooms tgid h) is s = retexted h b ts s"
proof (induction "is" rule: rev_induct)
  case Nil
  show ?case using retexted_same [of h s] by (metis fold_simps(1))
next
  case (snoc i "is")
  then show ?case using install_step [of rooms tgid h i] by (auto simp: retexted_twice) (metis retexted_twice)
qed

lemma blank_fold: "\<exists>b. fold (blank h) is s = retexted h b (objs s) s"
proof (induction "is" rule: rev_induct)
  case Nil
  show ?case using retexted_same [of h s] by (metis fold_simps(1))
next
  case (snoc i "is")
  then obtain b where "fold (blank h) is s = retexted h b (objs s) s" by blast
  moreover have "objs (retexted h b (objs s) s) = objs s" by (simp add: retexted_def)
  ultimately show ?case using blank_step [of h i "retexted h b (objs s) s"] by (auto simp: retexted_twice)
qed

lemma collect_state:
  assumes "collect rooms tgid h s = (out, s')"
  obtains b ts where "s' = upd_request h (rq_state_update (\<lambda>_. Free)) (retexted h b ts s)"
proof -
  let ?n = "carried_n (requests s ! h)"
  let ?s1 = "if rq_state (requests s ! h) = Answered then fold (install rooms tgid h) [0 ..< min ?n kMaxCarried] s else s"
  obtain b ts where 1: "?s1 = retexted h b ts s"
    using install_fold [of rooms tgid h "[0 ..< min ?n kMaxCarried]" s] retexted_same [of h s]
    by (cases "rq_state (requests s ! h) = Answered") (auto, metis)
  obtain b' where 2: "fold (blank h) [?n ..< kMaxCarried] ?s1 = retexted h b' (objs ?s1) ?s1"
    using blank_fold by blast
  have "s' = upd_request h (rq_state_update (\<lambda>_. Free)) (fold (blank h) [?n ..< kMaxCarried] ?s1)"
    using assms unfolding collect_def Let_def by simp
  then show thesis using that unfolding 2 unfolding 1 retexted_twice by blast
qed

lemma collect_requests:
  assumes "collect rooms tgid h s = (out, s')" "h < length (requests s)"
  obtains b where "requests s' = (requests s)[h := (requests s ! h)\<lparr>body := b, rq_state := Free\<rparr>]" "ports s' = ports s"
proof -
  obtain b ts where "s' = upd_request h (rq_state_update (\<lambda>_. Free)) (retexted h b ts s)"
    using collect_state [OF assms(1)] by blast
  with assms(2) that show thesis by (simp add: retexted_def)
qed

section \<open>Threads\<close>

text \<open>
  One part of an operation by one thread. The thread is the first argument, its process the second
  where the operation needs it.
\<close>

datatype iop =
    Create nat nat
  | Destroy nat int
  | Call nat int "message option" bool
  | Wait nat nat "nat \<Rightarrow> bool" nat nat
  | Woken nat nat "nat \<Rightarrow> bool" nat nat nat bool
  | Try_Recv nat int
  | Recv nat nat nat int
  | Recv_Woken nat nat nat nat bool nat
  | Reply nat nat int "message option"
  | Exit nat nat
  | Objects nat hop

fun actor :: "iop \<Rightarrow> nat" where
  "actor (Create cur name) = cur"
| "actor (Destroy cur port) = cur"
| "actor (Call cur port msg room) = cur"
| "actor (Wait cur tgid rooms now deadline) = cur"
| "actor (Woken cur tgid rooms now later deadline signal) = cur"
| "actor (Try_Recv cur port) = cur"
| "actor (Recv cur now deadline port) = cur"
| "actor (Recv_Woken cur now later deadline signal port) = cur"
| "actor (Reply cur tgid h msg) = cur"
| "actor (Exit cur pid) = cur"
| "actor (Objects cur op) = cur"

text \<open>The system, and for each thread that is inside \<^verbatim>\<open>call\<close> the slot it waits on.\<close>

record world =
  sys :: ipc
  waits :: "nat \<Rightarrow> nat option"

fun still_waiting :: "nat \<Rightarrow> 'a outcome \<Rightarrow> (nat \<Rightarrow> nat option) \<Rightarrow> nat \<Rightarrow> nat option" where
  "still_waiting cur (Sleep n) f = f"
| "still_waiting cur (Return code x) f = f(cur := None)"

text \<open>
  A thread that waits in \<^verbatim>\<open>call\<close> does nothing else, and a process ends only once none of its threads is
  inside a call: a thread that is killed there comes back through the test for signals.
\<close>

inductive istep :: "world \<Rightarrow> iop \<Rightarrow> world \<Rightarrow> bool" where
  create: "waits w cur = None \<Longrightarrow> port_create cur name (sys w) = (n, s) \<Longrightarrow>
    istep w (Create cur name) (w\<lparr>sys := s\<rparr>)"
| destroy: "waits w cur = None \<Longrightarrow> port_destroy cur port (sys w) = (n, s) \<Longrightarrow>
    istep w (Destroy cur port) (w\<lparr>sys := s\<rparr>)"
| call_fails: "waits w cur = None \<Longrightarrow> call_queue cur port msg room (sys w) = (Inl code, s) \<Longrightarrow>
    istep w (Call cur port msg room) (w\<lparr>sys := s\<rparr>)"
| call: "waits w cur = None \<Longrightarrow> call_queue cur port msg room (sys w) = (Inr h, s) \<Longrightarrow>
    istep w (Call cur port msg room) \<lparr>sys = s, waits = (waits w)(cur \<mapsto> h)\<rparr>"
| wait: "waits w cur = Some h \<Longrightarrow> call_wait rooms tgid now deadline h (sys w) = (out, s) \<Longrightarrow>
    istep w (Wait cur tgid rooms now deadline) \<lparr>sys = s, waits = still_waiting cur out (waits w)\<rparr>"
| woken: "waits w cur = Some h \<Longrightarrow> call_woken rooms tgid now later deadline signal h (sys w) = (out, s) \<Longrightarrow>
    istep w (Woken cur tgid rooms now later deadline signal) \<lparr>sys = s, waits = still_waiting cur out (waits w)\<rparr>"
| try_recv: "waits w cur = None \<Longrightarrow> try_recv cur port (sys w) = (got, s) \<Longrightarrow>
    istep w (Try_Recv cur port) (w\<lparr>sys := s\<rparr>)"
| recv: "waits w cur = None \<Longrightarrow> recv cur now deadline port (sys w) = (got, s) \<Longrightarrow>
    istep w (Recv cur now deadline port) (w\<lparr>sys := s\<rparr>)"
| recv_woken: "waits w cur = None \<Longrightarrow> recv_woken cur now later deadline signal port (sys w) = (got, s) \<Longrightarrow>
    istep w (Recv_Woken cur now later deadline signal port) (w\<lparr>sys := s\<rparr>)"
| reply: "waits w cur = None \<Longrightarrow> reply cur tgid h msg (sys w) = (n, s) \<Longrightarrow>
    istep w (Reply cur tgid h msg) (w\<lparr>sys := s\<rparr>)"
| exit: "waits w cur = None \<Longrightarrow> waits w pid = None \<Longrightarrow>
    istep w (Exit cur pid) (w\<lparr>sys := abandon cur pid (sys w)\<rparr>)"
| objects: "waits w cur = None \<Longrightarrow>
    istep w (Objects cur op) (w\<lparr>sys := (sys w)\<lparr>objs := hexec op (objs (sys w))\<rparr>\<rparr>)"

inductive irun :: "world \<Rightarrow> iop list \<Rightarrow> world \<Rightarrow> bool" where
  none: "irun w [] w"
| more: "irun w ops w' \<Longrightarrow> istep w' op w'' \<Longrightarrow> irun w (ops @ [op]) w''"

definition world_init :: world where
  "world_init = \<lparr>sys = ipc_init, waits = \<lambda>_. None\<rparr>"

section \<open>A slot belongs to its caller\<close>

definition slot_ok :: "(nat \<Rightarrow> nat option) \<Rightarrow> nat \<Rightarrow> request \<Rightarrow> bool" where
  "slot_ok f h r \<longleftrightarrow>
     (\<forall>p. f p = Some h \<longrightarrow> p = caller_pid r \<and> rq_state r \<notin> {Free, Dropped})
     \<and> (rq_state r \<in> {Queued, Taken, Answered} \<longrightarrow> f (caller_pid r) = Some h)"

definition slots_ok :: "world \<Rightarrow> bool" where
  "slots_ok w \<longleftrightarrow> length (requests (sys w)) = kMaxRequests
     \<and> (\<forall>p h. waits w p = Some h \<longrightarrow> h < kMaxRequests)
     \<and> (\<forall>h < kMaxRequests. slot_ok (waits w) h (requests (sys w) ! h))"

lemma slots_okI:
  assumes "length (requests s) = kMaxRequests" "\<And>p h. f p = Some h \<Longrightarrow> h < kMaxRequests"
    "\<And>h. h < kMaxRequests \<Longrightarrow> slot_ok f h (requests s ! h)"
  shows "slots_ok \<lparr>sys = s, waits = f\<rparr>"
  using assms by (simp add: slots_ok_def)

lemma slots_ok_same: "slots_ok w \<Longrightarrow> requests s = requests (sys w) \<Longrightarrow> slots_ok (w\<lparr>sys := s\<rparr>)"
  by (simp add: slots_ok_def)

text \<open>A step that rewrites one slot, and one that rewrites them all alike.\<close>

lemma slots_ok_one:
  assumes "slots_ok w" "requests s = (requests (sys w))[h := r]" "h < kMaxRequests \<Longrightarrow> slot_ok (waits w) h r"
  shows "slots_ok (w\<lparr>sys := s\<rparr>)"
proof -
  have "slot_ok (waits w) k ((requests (sys w))[h := r] ! k)" if "k < kMaxRequests" for k
    using assms that by (cases "k = h") (simp_all add: slots_ok_def)
  with assms(1,2) show ?thesis by (simp add: slots_ok_def)
qed

lemma slots_ok_all:
  assumes "slots_ok w" "length (requests s) = kMaxRequests"
    "\<And>h. h < kMaxRequests \<Longrightarrow> slot_ok (waits w) h (requests (sys w) ! h) \<Longrightarrow> slot_ok (waits w) h (requests s ! h)"
  shows "slots_ok (w\<lparr>sys := s\<rparr>)"
  using assms by (auto simp: slots_ok_def)

lemma slots_okD:
  assumes "slots_ok w"
  shows "length (requests (sys w)) = kMaxRequests" "waits w p = Some h \<Longrightarrow> h < kMaxRequests"
    "h < kMaxRequests \<Longrightarrow> slot_ok (waits w) h (requests (sys w) ! h)"
    "waits w p = Some h \<Longrightarrow> caller_pid (requests (sys w) ! h) = p \<and> rq_state (requests (sys w) ! h) \<notin> {Free, Dropped}"
    "h < kMaxRequests \<Longrightarrow> rq_state (requests (sys w) ! h) \<in> {Queued, Taken, Answered} \<Longrightarrow>
      waits w (caller_pid (requests (sys w) ! h)) = Some h"
  using assms unfolding slots_ok_def slot_ok_def by blast+

lemma init_slots: "slots_ok world_init"
  by (simp add: slots_ok_def world_init_def ipc_init_def slot_ok_def no_request_def)

lemma slot_okI:
  assumes "\<And>p. f p = Some h \<Longrightarrow> p = caller_pid r" "\<And>p. f p = Some h \<Longrightarrow> rq_state r \<noteq> Free \<and> rq_state r \<noteq> Dropped"
    "rq_state r \<in> {Queued, Taken, Answered} \<Longrightarrow> f (caller_pid r) = Some h"
  shows "slot_ok f h r"
  using assms unfolding slot_ok_def by blast

lemma slot_okD:
  assumes "slot_ok f h r"
  shows "f p = Some h \<Longrightarrow> p = caller_pid r" "f p = Some h \<Longrightarrow> rq_state r \<noteq> Free \<and> rq_state r \<noteq> Dropped"
    "rq_state r = Queued \<or> rq_state r = Taken \<or> rq_state r = Answered \<Longrightarrow> f (caller_pid r) = Some h"
  using assms unfolding slot_ok_def by blast+

lemma slot_ok_frame:
  assumes "slot_ok f h r" "\<And>p. f' p = Some h \<Longrightarrow> f p = Some h"
    "rq_state r \<in> {Queued, Taken, Answered} \<Longrightarrow> f (caller_pid r) = Some h \<Longrightarrow> f' (caller_pid r) = Some h"
  shows "slot_ok f' h r"
  using assms unfolding slot_ok_def by blast

lemma slot_ok_orphan:
  assumes "slot_ok f h r" "left_or_orphaned r r'"
  shows "slot_ok f h r'"
proof (cases "r' = r")
  case False
  with assms(2) have "r' = r\<lparr>rq_state := Abandoned\<rparr>" by (simp add: left_or_orphaned_def)
  then show ?thesis by (intro slot_okI) (simp_all add: slot_okD(1) [OF assms(1)])
qed (simp add: assms(1))

lemma released_simps:
  "caller_pid (released pid r) = caller_pid r"
  "rq_state (released pid r) \<in> {Queued, Taken, Answered} \<Longrightarrow> rq_state r = rq_state (released pid r)"
  "caller_pid r \<noteq> pid \<Longrightarrow> rq_state r \<noteq> Free \<Longrightarrow> rq_state r \<noteq> Dropped \<Longrightarrow>
    rq_state (released pid r) = rq_state r \<or> rq_state (released pid r) = Abandoned"
  unfolding released_def by (simp_all split: if_split_asm) blast

lemma slot_ok_released:
  assumes "slot_ok f h r" "f pid = None"
  shows "slot_ok f h (released pid r)"
proof (rule slot_okI)
  fix p
  assume p: "f p = Some h"
  then show "p = caller_pid (released pid r)" using slot_okD(1) [OF assms(1)] by (simp add: released_simps)
  have "p \<noteq> pid" using p assms(2) by auto
  then have "caller_pid r \<noteq> pid" using slot_okD(1) [OF assms(1) p] by simp
  then show "rq_state (released pid r) \<noteq> Free \<and> rq_state (released pid r) \<noteq> Dropped"
    using released_simps(3) [of r pid] slot_okD(2) [OF assms(1) p] by auto
next
  assume "rq_state (released pid r) \<in> {Queued, Taken, Answered}"
  then show "f (caller_pid (released pid r)) = Some h"
    using released_simps(1,2) [of pid r] slot_okD(3) [OF assms(1)] by auto
qed

text \<open>The part of a call that ends it.\<close>

definition ends :: "nat \<Rightarrow> ipc \<Rightarrow> ipc \<Rightarrow> bool" where
  "ends h s s' \<longleftrightarrow> (\<exists>r. requests s' = (requests s)[h := r] \<and> caller_pid r = caller_pid (requests s ! h)
     \<and> rq_state r \<in> {Free, Dropped}) \<and> ports s' = ports s"

lemma endsI:
  "requests s' = (requests s)[h := r] \<Longrightarrow> caller_pid r = caller_pid (requests s ! h) \<Longrightarrow>
    rq_state r \<in> {Free, Dropped} \<Longrightarrow> ports s' = ports s \<Longrightarrow> ends h s s'"
  unfolding ends_def by blast

lemma stop_waiting_ends: "stop_waiting h code s = (out, s') \<Longrightarrow> ends h s s' \<and> out = Return code None"
  by (rule conjI, rule endsI [of _ _ _ "(requests s ! h)\<lparr>rq_state := (if rq_state (requests s ! h) = Taken then Dropped else Free)\<rparr>"])
    (auto simp: stop_waiting_def)

lemma collect_ends:
  assumes "collect rooms tgid h s = (out, s')" "h < length (requests s)"
  shows "ends h s s' \<and> (\<exists>code x. out = Return code x)"
proof
  obtain b where "requests s' = (requests s)[h := (requests s ! h)\<lparr>body := b, rq_state := Free\<rparr>]" "ports s' = ports s"
    using collect_requests [OF assms] by blast
  from endsI [OF this(1) _ _ this(2)] show "ends h s s'" by simp
  show "\<exists>code x. out = Return code x" using assms(1) by (simp add: collect_def Let_def) blast
qed

lemma call_wait_cases:
  assumes "call_wait rooms tgid now deadline h s = (out, s')" "h < length (requests s)"
  shows "(s' = s \<and> (\<exists>n. out = Sleep n)) \<or> (ends h s s' \<and> (\<exists>code x. out = Return code x))"
  using assms stop_waiting_ends [of h _ s out s'] collect_ends [of rooms tgid h s out s']
  unfolding call_wait_def by (auto split: if_splits)

lemma call_woken_cases:
  assumes "call_woken rooms tgid now later deadline signal h s = (out, s')" "h < length (requests s)"
  shows "(s' = s \<and> (\<exists>n. out = Sleep n)) \<or> (ends h s s' \<and> (\<exists>code x. out = Return code x))"
  using assms stop_waiting_ends [of h _ s out s'] collect_ends [of rooms tgid h s out s']
    call_wait_cases [of rooms tgid later deadline h s out s']
  unfolding call_woken_def by (auto split: if_splits)

lemma slots_ok_ends:
  assumes "slots_ok w" "waits w cur = Some h" "ends h (sys w) s"
  shows "slots_ok \<lparr>sys = s, waits = (waits w)(cur := None)\<rparr>"
proof -
  obtain r where r: "requests s = (requests (sys w))[h := r]" "caller_pid r = caller_pid (requests (sys w) ! h)"
    "rq_state r \<in> {Free, Dropped}"
    using assms(3) unfolding ends_def by blast
  have h: "h < kMaxRequests" and cur: "caller_pid (requests (sys w) ! h) = cur"
    using slots_okD(2,4) [OF assms(1) assms(2)] by blast+
  show ?thesis
  proof (rule slots_okI)
    show "length (requests s) = kMaxRequests" using r(1) slots_okD(1) [OF assms(1)] by simp
    show "k < kMaxRequests" if "((waits w)(cur := None)) p = Some k" for p k
      using that slots_okD(2) [OF assms(1)] by (simp split: if_split_asm)
    fix k
    assume k: "k < kMaxRequests"
    note ok = slots_okD(3) [OF assms(1) k]
    show "slot_ok ((waits w)(cur := None)) k (requests s ! k)"
    proof (cases "k = h")
      case True
      have "p = cur" if "waits w p = Some h" for p using slots_okD(4) [OF assms(1) that] cur by simp
      then have "((waits w)(cur := None)) p \<noteq> Some h" for p by auto
      then show ?thesis using r(1,3) slots_okD(1) [OF assms(1)] h True by (auto intro!: slot_okI)
    next
      case False
      then have "requests s ! k = requests (sys w) ! k" using r(1) by simp
      moreover have "slot_ok ((waits w)(cur := None)) k (requests (sys w) ! k)"
        by (rule slot_ok_frame [OF ok]) (use assms(2) False in \<open>auto split: if_split_asm\<close>)
      ultimately show ?thesis by simp
    qed
  qed
qed

lemma slots_ok_queue:
  assumes "slots_ok w" "waits w cur = None" "call_queue cur port msg room (sys w) = (Inr h, s)"
  shows "slots_ok \<lparr>sys = s, waits = (waits w)(cur \<mapsto> h)\<rparr>"
proof -
  obtain r where f: "first_index (\<lambda>r. rq_state r = Free) (requests (sys w)) = Some h"
    and r: "requests s = (requests (sys w))[h := r]" "caller_pid r = cur" "rq_state r = Queued"
    using assms(3) by (auto simp: call_queue_def split: option.splits if_splits)
  have h: "h < kMaxRequests" "rq_state (requests (sys w) ! h) = Free"
    using f slots_okD(1) [OF assms(1)] by (auto simp: first_index_Some)
  show ?thesis
  proof (rule slots_okI)
    show "length (requests s) = kMaxRequests" using r(1) slots_okD(1) [OF assms(1)] by simp
    show "k < kMaxRequests" if "((waits w)(cur \<mapsto> h)) p = Some k" for p k
      using that slots_okD(2) [OF assms(1)] h by (auto split: if_split_asm)
    fix k
    assume k: "k < kMaxRequests"
    note ok = slots_okD(3) [OF assms(1) k]
    show "slot_ok ((waits w)(cur \<mapsto> h)) k (requests s ! k)"
    proof (cases "k = h")
      case True
      have "waits w p \<noteq> Some h" for p using slot_okD(2) [OF ok] h(2) True by auto
      then show ?thesis using r slots_okD(1) [OF assms(1)] h True by (auto intro!: slot_okI split: if_split_asm)
    next
      case False
      then have "requests s ! k = requests (sys w) ! k" using r(1) by simp
      moreover have "slot_ok ((waits w)(cur \<mapsto> h)) k (requests (sys w) ! k)"
        by (rule slot_ok_frame [OF ok]) (use assms(2) False in \<open>auto split: if_split_asm\<close>)
      ultimately show ?thesis by simp
    qed
  qed
qed

lemma call_queue_fails: "call_queue cur port msg room s = (Inl code, s') \<Longrightarrow> s' = s \<and> code = -1"
  by (auto simp: call_queue_def split: option.splits if_splits)

text \<open>Taking and answering keep the caller and leave the slot with it.\<close>

lemma take_requests:
  assumes "take_request cur port s = (got, s')"
  shows "(got = None \<and> s' = s) \<or> (\<exists>h. h < length (requests s) \<and> rq_state (requests s ! h) = Queued
    \<and> s' = upd_request h (\<lambda>r. r\<lparr>rq_state := Taken, server_pid := cur\<rparr>) s
    \<and> got = Some (h, body (requests s ! h), caller_pid (requests s ! h)))"
  using assms by (auto simp: take_request_def first_index_Some split: option.splits)

lemma recv_requests:
  assumes "recv_woken cur now later deadline signal port s = (out, s') \<or> recv cur now deadline iport s = (out, s') \<or> try_recv cur iport s = (got, s')"
  shows "s' = s \<or> (\<exists>h. h < length (requests s) \<and> rq_state (requests s ! h) = Queued
    \<and> s' = upd_request h (\<lambda>r. r\<lparr>rq_state := Taken, server_pid := cur\<rparr>) s)"
proof -
  have t: "s' = s \<or> (\<exists>h. h < length (requests s) \<and> rq_state (requests s ! h) = Queued
    \<and> s' = upd_request h (\<lambda>r. r\<lparr>rq_state := Taken, server_pid := cur\<rparr>) s)"
    if "take_request cur p s = (got, s')" for p got
    using take_requests [OF that] by blast
  have l: "s' = s \<or> (\<exists>h. h < length (requests s) \<and> rq_state (requests s ! h) = Queued
    \<and> s' = upd_request h (\<lambda>r. r\<lparr>rq_state := Taken, server_pid := cur\<rparr>) s)"
    if "recv_loop cur n d p s = (out, s')" for n d p
  proof (cases "take_request cur p s")
    case (Pair got s1)
    with that have "s' = s1" by (auto simp: recv_loop_def split: option.splits if_splits)
    with Pair t show ?thesis by blast
  qed
  obtain g1 s1 where g: "take_request cur port s = (g1, s1)" by fastforce
  consider "recv_woken cur now later deadline signal port s = (out, s')" | "recv cur now deadline iport s = (out, s')"
    | "try_recv cur iport s = (got, s')" using assms by blast
  then show ?thesis
  proof cases
    case 1
    then have "s' = s \<or> s' = s1 \<or> recv_loop cur later deadline port s = (out, s') \<or> g1 = None \<and> recv_loop cur later deadline port s1 = (out, s')"
      using g by (auto simp: recv_woken_def split: if_splits option.splits)
    moreover have "g1 = None \<Longrightarrow> s1 = s" using take_requests [OF g] by blast
    ultimately show ?thesis using l t g by blast
  next
    case 2
    then show ?thesis using l by (auto simp: recv_def split: if_splits)
  next
    case 3
    then show ?thesis using t by (auto simp: try_recv_def split: if_splits)
  qed
qed

lemma carry_keeps:
  "caller_pid (carry server ts i r) = caller_pid r" "body (carry server ts i r) = body r"
  "server_pid (carry server ts i r) = server_pid r" "rq_port (carry server ts i r) = rq_port r"
  by (simp_all add: carry_def Let_def)

lemma carry_fold:
  "caller_pid (fold (carry server ts) is r) = caller_pid r" "body (fold (carry server ts) is r) = body r"
  "server_pid (fold (carry server ts) is r) = server_pid r" "rq_port (fold (carry server ts) is r) = rq_port r"
  by (induction "is" arbitrary: r) (simp_all add: carry_keeps)

lemma answered_simps:
  "caller_pid (answered server ts msg r) = caller_pid r" "rq_state (answered server ts msg r) = Answered"
  "body (answered server ts msg r) = msg\<lparr>handles := carried_n (answered server ts msg r)\<rparr>"
  by (simp_all add: answered_def Let_def carry_fold)

lemma reply_cases:
  assumes "reply cur tgid h msg s = (n, s')"
  obtains (refused) "n = -1" "s' = s"
  | (late) k where "n = -1" "h = int k" "k < kMaxRequests" "rq_state (requests s ! k) = Dropped"
      "s' = upd_request k (rq_state_update (\<lambda>_. Free)) s"
  | (given) k m where "n = 0" "h = int k" "k < kMaxRequests" "msg = Some m" "rq_state (requests s ! k) = Taken"
      "server_pid (requests s ! k) = cur"
      "s' = wake [Request_Channel k] (upd_request k (answered tgid (objs s) m) s)"
proof -
  let ?r = "requests s ! nat h"
  show thesis
  proof (cases msg)
    case None
    then show thesis using assms by (intro refused) (simp_all add: reply_def)
  next
    case (Some m)
    show thesis
    proof (cases "h < 0 \<or> h \<ge> int kMaxRequests")
      case True
      then show thesis using assms Some by (intro refused) (simp_all add: reply_def)
    next
      case False
      then have h: "h = int (nat h)" "nat h < kMaxRequests" by auto
      consider (d) "rq_state ?r = Dropped \<and> server_pid ?r = cur" | (t) "rq_state ?r = Taken \<and> server_pid ?r = cur"
        | (o) "\<not> (rq_state ?r = Dropped \<and> server_pid ?r = cur)" "rq_state ?r \<noteq> Taken \<or> server_pid ?r \<noteq> cur" by blast
      then show thesis
      proof cases
        case d
        then show thesis using assms Some False by (intro late [OF _ h]) (simp_all add: reply_def Let_def)
      next
        case t
        then show thesis using assms Some False by (intro given [OF _ h Some]) (simp_all add: reply_def Let_def)
      next
        case o
        have "reply cur tgid h msg s = (-1, s)"
          using Some False unfolding reply_def Let_def by (simp only: o if_False if_True option.case)
        then show thesis using assms by (intro refused) simp_all
      qed
    qed
  qed
qed

lemma slots_ok_set:
  assumes "slots_ok w" "requests s = (requests (sys w))[h := r]" "caller_pid r = caller_pid (requests (sys w) ! h)"
    "rq_state (requests (sys w) ! h) = Queued \<and> rq_state r = Taken \<or> rq_state (requests (sys w) ! h) = Taken \<and> rq_state r = Answered
     \<or> rq_state (requests (sys w) ! h) = Dropped \<and> rq_state r = Free"
  shows "slots_ok (w\<lparr>sys := s\<rparr>)"
proof (rule slots_ok_one [OF assms(1,2)])
  assume "h < kMaxRequests"
  note ok = slot_okD [OF slots_okD(3) [OF assms(1) this]]
  show "slot_ok (waits w) h r"
  proof (rule slot_okI)
    fix p
    assume p: "waits w p = Some h"
    show "p = caller_pid r" using ok(1) [OF p] assms(3) by simp
    show "rq_state r \<noteq> Free \<and> rq_state r \<noteq> Dropped" using ok(2) [OF p] assms(4) by auto
  next
    assume "rq_state r \<in> {Queued, Taken, Answered}"
    then show "waits w (caller_pid r) = Some h" using ok(3) assms(3,4) by auto
  qed
qed

lemma world_eta: "\<lparr>sys = s, waits = waits w\<rparr> = w\<lparr>sys := s\<rparr>"
  by simp

lemma slots_ok_after:
  assumes "slots_ok w" "waits w cur = Some h"
    "(s = sys w \<and> (\<exists>n. out = Sleep n)) \<or> (ends h (sys w) s \<and> (\<exists>code x. out = Return code x))"
  shows "slots_ok \<lparr>sys = s, waits = still_waiting cur out (waits w)\<rparr>"
  using assms(3)
proof
  assume "s = sys w \<and> (\<exists>n. out = Sleep n)"
  then have "\<lparr>sys = s, waits = still_waiting cur out (waits w)\<rparr> = w" by auto
  then show ?thesis using assms(1) by simp
next
  assume "ends h (sys w) s \<and> (\<exists>code x. out = Return code x)"
  then show ?thesis using slots_ok_ends [OF assms(1,2), of s] by auto
qed

lemma slots_ok_abandon:
  assumes "slots_ok w" "waits w pid = None"
  shows "slots_ok (w\<lparr>sys := abandon cur pid (sys w)\<rparr>)"
proof -
  obtain rs where rs: "list_all2 left_or_orphaned (requests (sys w)) rs"
    "requests (abandon cur pid (sys w)) = map (released pid) rs"
    using abandon_requests [OF slots_okD(1) [OF assms(1)]] by metis
  have len: "length rs = kMaxRequests" using rs(1) slots_okD(1) [OF assms(1)] list_all2_lengthD by fastforce
  show ?thesis
  proof (rule slots_ok_all [OF assms(1)])
    show "length (requests (abandon cur pid (sys w))) = kMaxRequests" using rs(2) len by simp
    fix h
    assume h: "h < kMaxRequests" "slot_ok (waits w) h (requests (sys w) ! h)"
    then have "left_or_orphaned (requests (sys w) ! h) (rs ! h)" using rs(1) len list_all2_nthD2 by fastforce
    from slot_ok_released [OF slot_ok_orphan [OF h(2) this] assms(2)]
    show "slot_ok (waits w) h (requests (abandon cur pid (sys w)) ! h)" using rs(2) len h(1) by simp
  qed
qed

lemma slots_ok_destroy:
  assumes "slots_ok w" "port_destroy cur port (sys w) = (n, s)"
  shows "slots_ok (w\<lparr>sys := s\<rparr>)"
proof -
  obtain answer s' wakes where d: "port_destroy_locked cur port (sys w) [] = (answer, s', wakes)" by (metis prod_cases3)
  note r = destroy_locked_requests [OF slots_okD(1) [OF assms(1)] d]
  have s: "requests s = requests s'" using assms(2) d by (auto simp: port_destroy_def)
  show ?thesis
  proof (rule slots_ok_all [OF assms(1)])
    show "length (requests s) = kMaxRequests" using s r(1) slots_okD(1) [OF assms(1)] by simp
    fix h
    assume h: "h < kMaxRequests" "slot_ok (waits w) h (requests (sys w) ! h)"
    have "left_or_orphaned (requests (sys w) ! h) (orphan (nat port) (requests (sys w) ! h))"
      by (rule orphan_step) (simp add: left_or_orphaned_def)
    from slot_ok_orphan [OF h(2) this] show "slot_ok (waits w) h (requests s ! h)"
      using s r(1) h slots_okD(1) [OF assms(1)] by simp
  qed
qed

lemma istep_slots:
  assumes "istep w op w'" "slots_ok w"
  shows "slots_ok w'"
  using assms(1)
proof (cases rule: istep.cases)
  case (create cur name n s)
  then have "requests s = requests (sys w)" by (auto simp: port_create_def split: if_splits option.splits)
  with create assms(2) show ?thesis using slots_ok_same by blast
next
  case (destroy cur port n s)
  then show ?thesis using slots_ok_destroy [OF assms(2)] by simp
next
  case (call_fails cur port msg room code s)
  then show ?thesis using call_queue_fails [of cur port msg room "sys w" code s] assms(2) by simp
next
  case (call cur port msg room h s)
  then show ?thesis using slots_ok_queue [OF assms(2)] by simp
next
  case (wait cur h rooms tgid now deadline out s)
  have "h < length (requests (sys w))" using slots_okD(1,2) [OF assms(2)] wait(3) by simp
  from slots_ok_after [OF assms(2) wait(3) call_wait_cases [OF wait(4) this]] wait(2) show ?thesis by simp
next
  case (woken cur h rooms tgid now later deadline signal out s)
  have "h < length (requests (sys w))" using slots_okD(1,2) [OF assms(2)] woken(3) by simp
  from slots_ok_after [OF assms(2) woken(3) call_woken_cases [OF woken(4) this]] woken(2) show ?thesis by simp
next
  case (try_recv cur port got s)
  then show ?thesis using recv_requests [of cur _ _ _ _ _ "sys w" _ s port got] slots_ok_set [OF assms(2)] assms(2) by fastforce
next
  case (recv cur now deadline port got s)
  then show ?thesis using recv_requests [of cur now _ deadline _ _ "sys w" got s port] slots_ok_set [OF assms(2)] assms(2) by fastforce
next
  case (recv_woken cur now later deadline signal port got s)
  then show ?thesis using recv_requests [of cur now later deadline signal port "sys w" got s] slots_ok_set [OF assms(2)] assms(2) by fastforce
next
  case (reply cur tgid h msg n s)
  from reply(4) show ?thesis
  proof (cases rule: reply_cases)
    case refused
    then show ?thesis using reply(2) assms(2) by simp
  next
    case (late k)
    then show ?thesis using reply(2) slots_ok_set [OF assms(2), of s k] by simp
  next
    case (given k m)
    then show ?thesis using reply(2) slots_ok_set [OF assms(2), of s k] by (simp add: answered_simps)
  qed
next
  case (exit cur pid)
  then show ?thesis using slots_ok_abandon [OF assms(2)] by simp
next
  case (objects cur op)
  then show ?thesis using slots_ok_same [OF assms(2)] by simp
qed

lemma irun_slots: "irun w ops w' \<Longrightarrow> slots_ok w \<Longrightarrow> slots_ok w'"
  by (induction rule: irun.induct) (auto intro: istep_slots)

text \<open>
  C18. In every state the system can reach, a thread inside \<^verbatim>\<open>call\<close> waits on a slot that holds its own
  request, a slot no two threads wait on; and a request that is queued, being worked on or answered
  has its caller waiting on it. So no slot is given to another request under a waiting caller, and no
  reply is delivered to anyone but the thread that asked.
\<close>

theorem slots_belong_to_callers:
  assumes "irun world_init ops w"
  shows "(\<forall>p h. waits w p = Some h \<longrightarrow>
      h < kMaxRequests \<and> caller_pid (requests (sys w) ! h) = p \<and> rq_state (requests (sys w) ! h) \<notin> {Free, Dropped})
    \<and> (\<forall>p q h. waits w p = Some h \<and> waits w q = Some h \<longrightarrow> p = q)
    \<and> (\<forall>h < kMaxRequests. rq_state (requests (sys w) ! h) \<in> {Queued, Taken, Answered} \<longrightarrow>
      waits w (caller_pid (requests (sys w) ! h)) = Some h)"
proof -
  have ok: "slots_ok w" using irun_slots [OF assms init_slots] .
  have "h < kMaxRequests \<and> caller_pid (requests (sys w) ! h) = p \<and> rq_state (requests (sys w) ! h) \<notin> {Free, Dropped}"
    if "waits w p = Some h" for p h
    using slots_okD(2,4) [OF ok that] by blast
  moreover from this have "p = q" if "waits w p = Some h" "waits w q = Some h" for p q h using that by metis
  moreover have "waits w (caller_pid (requests (sys w) ! h)) = Some h"
    if "h < kMaxRequests" "rq_state (requests (sys w) ! h) \<in> {Queued, Taken, Answered}" for h
    using slots_okD(5) [OF ok that] .
  ultimately show ?thesis by blast
qed

section \<open>An answer reaches its caller\<close>

fun closes_port :: "iop \<Rightarrow> bool" where
  "closes_port (Destroy cur port) = True"
| "closes_port (Exit cur pid) = True"
| "closes_port op = False"

text \<open>What a step of another thread may rewrite: never a slot that holds an answer.\<close>

lemma istep_one_slot:
  assumes "istep w op w'" "slots_ok w" "\<not> closes_port op"
  shows "requests (sys w') = requests (sys w) \<or> (\<exists>h r. requests (sys w') = (requests (sys w))[h := r]
    \<and> (rq_state (requests (sys w) ! h) \<in> {Free, Queued, Taken, Dropped} \<or> waits w (actor op) = Some h))"
  using assms(1)
proof (cases rule: istep.cases)
  case (create cur name n s)
  then show ?thesis by (auto simp: port_create_def split: if_splits option.splits)
next
  case (call_fails cur port msg room code s)
  then show ?thesis using call_queue_fails [of cur port msg room "sys w" code s] by simp
next
  case (call cur port msg room h s)
  then have "requests (sys w') = (requests (sys w))[h := requests (sys w') ! h]" "rq_state (requests (sys w) ! h) = Free"
    by (auto simp: call_queue_def first_index_Some split: option.splits if_splits)
  then show ?thesis by blast
next
  case (wait cur h rooms tgid now deadline out s)
  have "h < length (requests (sys w))" using slots_okD(1,2) [OF assms(2)] wait(3) by simp
  from call_wait_cases [OF wait(4) this] wait(1,2,3) show ?thesis by (auto simp: ends_def)
next
  case (woken cur h rooms tgid now later deadline signal out s)
  have "h < length (requests (sys w))" using slots_okD(1,2) [OF assms(2)] woken(3) by simp
  from call_woken_cases [OF woken(4) this] woken(1,2,3) show ?thesis by (auto simp: ends_def)
next
  case (try_recv cur port got s)
  then show ?thesis using recv_requests [of cur _ _ _ _ _ "sys w" _ s port got] by fastforce
next
  case (recv cur now deadline port got s)
  then show ?thesis using recv_requests [of cur now _ deadline _ _ "sys w" got s port] by fastforce
next
  case (recv_woken cur now later deadline signal port got s)
  then show ?thesis using recv_requests [of cur now later deadline signal port "sys w" got s] by fastforce
next
  case (reply cur tgid h msg n s)
  from reply(4) show ?thesis
  proof (cases rule: reply_cases)
    case (late k)
    then show ?thesis using reply(2) by (intro disjI2 exI [of _ k]) auto
  next
    case (given k m)
    then show ?thesis using reply(2) by (intro disjI2 exI [of _ k]) auto
  qed (use reply(2) in simp)
qed (use assms(3) in auto)

lemma answer_stays:
  assumes "istep w op w'" "slots_ok w" "\<not> closes_port op" "k < kMaxRequests"
    "rq_state (requests (sys w) ! k) = Answered" "actor op \<noteq> caller_pid (requests (sys w) ! k)"
  shows "requests (sys w') ! k = requests (sys w) ! k"
proof -
  have "waits w (actor op) \<noteq> Some k" using slots_okD(4) [OF assms(2)] assms(6) by metis
  with istep_one_slot [OF assms(1-3)] assms(5) show ?thesis
    by (metis insertE nth_list_update_neq rstate.distinct(5,11,17,25) singletonD rstate.simps)
qed

lemma answer_stays_run:
  assumes "irun w ops w'" "slots_ok w" "k < kMaxRequests" "rq_state (requests (sys w) ! k) = Answered"
    "\<forall>op \<in> set ops. \<not> closes_port op \<and> actor op \<noteq> caller_pid (requests (sys w) ! k)"
  shows "requests (sys w') ! k = requests (sys w) ! k"
  using assms
proof (induction rule: irun.induct)
  case (more w ops w' op w'')
  then have same: "requests (sys w') ! k = requests (sys w) ! k" by simp
  have "slots_ok w'" using irun_slots more.hyps(1) more.prems(1) by blast
  from answer_stays [OF more.hyps(2) this _ more.prems(2)] more.prems(3,4) same show ?case by simp
qed simp

text \<open>The parts of a message that travel unchanged.\<close>

definition same_text :: "message \<Rightarrow> message \<Rightarrow> bool" where
  "same_text m m' \<longleftrightarrow> tag m = tag m' \<and> nbytes m = nbytes m' \<and> word m = word m' \<and> shm_key m = shm_key m'
     \<and> shm_bytes m = shm_bytes m' \<and> inline m = inline m'"

lemma same_text_trans: "same_text a b \<Longrightarrow> same_text b c \<Longrightarrow> same_text a c"
  by (simp add: same_text_def)

lemma install_text:
  assumes "h < length (requests s)"
  shows "same_text (body (requests (install rooms tgid h i s) ! h)) (body (requests s ! h))"
proof -
  let ?c = "carrying (requests s ! h) ! i"
  obtain n ts where "give (rooms i) tgid (ca_type ?c) (ca_pointer ?c) (ca_rights ?c) (objs s) = (n, ts)" by fastforce
  then show ?thesis using assms by (simp add: install_def same_text_def)
qed

lemma blank_text:
  "h < length (requests s) \<Longrightarrow> same_text (body (requests (blank h i s) ! h)) (body (requests s ! h))"
  by (simp add: blank_def same_text_def)

lemma fold_text:
  assumes "\<And>i s. h < length (requests s) \<Longrightarrow> same_text (body (requests (f i s) ! h)) (body (requests s ! h))"
    "\<And>i s. length (requests (f i s)) = length (requests s)" "h < length (requests s)"
  shows "same_text (body (requests (fold f is s) ! h)) (body (requests s ! h)) \<and> length (requests (fold f is s)) = length (requests s)"
  using assms(3)
proof (induction "is" arbitrary: s)
  case Nil
  then show ?case by (simp add: same_text_def)
next
  case (Cons i "is")
  then show ?case using assms(1,2) same_text_trans by (metis (no_types, lifting) fold_simps(2))
qed

lemma install_length: "length (requests (install rooms tgid h i s)) = length (requests s)"
  using install_step [of rooms tgid h i s] by (auto simp: retexted_def)

lemma blank_length: "length (requests (blank h i s)) = length (requests s)"
  by (simp add: blank_def)

lemma collect_answer:
  assumes "h < length (requests s)" "rq_state (requests s ! h) = Answered"
  obtains m s' where "collect rooms tgid h s = (Return 0 (Some m), s')" "same_text m (body (requests s ! h))"
proof -
  let ?n = "carried_n (requests s ! h)"
  let ?s1 = "fold (install rooms tgid h) [0 ..< min ?n kMaxCarried] s"
  let ?s2 = "fold (blank h) [?n ..< kMaxCarried] ?s1"
  have 1: "same_text (body (requests ?s1 ! h)) (body (requests s ! h))" "length (requests ?s1) = length (requests s)"
    using fold_text [of h "install rooms tgid h" s] assms(1) install_text install_length by blast+
  have 2: "same_text (body (requests ?s2 ! h)) (body (requests ?s1 ! h))"
    using fold_text [of h "blank h" ?s1] assms(1) 1(2) blank_text blank_length by simp
  have "collect rooms tgid h s = (Return 0 (Some (body (requests ?s2 ! h))), upd_request h (rq_state_update (\<lambda>_. Free)) ?s2)"
    using assms(2) by (simp add: collect_def Let_def)
  then show thesis using that same_text_trans [OF 2 1(1)] by blast
qed

text \<open>
  C19. A reply that the kernel accepts reaches its caller: the caller is waiting on that slot and is
  woken, and whatever other threads do before it runs, short of closing a port or a process
  ending, the call returns success with the message of the reply, even if its deadline has passed or a
  signal has come in the meantime. Handle numbers are the caller's own, the rest is the server's.
\<close>

theorem answer_reaches_caller:
  assumes "irun world_init ops w" "reply cur server (int h) (Some msg) (sys w) = (0, s)"
    "irun (w\<lparr>sys := s\<rparr>) ops' w'"
    "\<forall>op \<in> set ops'. \<not> closes_port op \<and> actor op \<noteq> caller_pid (requests (sys w) ! h)"
  shows "waits w (caller_pid (requests (sys w) ! h)) = Some h \<and> Request_Channel h \<in> set (woken s)
    \<and> (\<exists>m s'. call_woken rooms tgid now later deadline signal h (sys w') = (Return 0 (Some m), s') \<and> same_text m msg)"
proof -
  have ok: "slots_ok w" using irun_slots [OF assms(1) init_slots] .
  from assms(2) obtain h: "h < kMaxRequests" and t: "rq_state (requests (sys w) ! h) = Taken"
    and s: "s = wake [Request_Channel h] (upd_request h (answered server (objs (sys w)) msg) (sys w))"
    by (cases rule: reply_cases) auto
  let ?r = "answered server (objs (sys w)) msg (requests (sys w) ! h)"
  have r: "requests s ! h = ?r" using s h slots_okD(1) [OF ok] by simp
  have ok': "slots_ok (w\<lparr>sys := s\<rparr>)"
    using slots_ok_set [OF ok, of s h ?r] s t by (simp add: answered_simps)
  have "requests (sys w') ! h = ?r"
    using answer_stays_run [OF assms(3) ok' h] r assms(4) by (simp add: answered_simps)
  moreover have "h < length (requests (sys w'))" using irun_slots [OF assms(3) ok'] slots_okD(1) h by simp
  ultimately obtain m s' where "collect rooms tgid h (sys w') = (Return 0 (Some m), s')" "same_text m (body ?r)"
    using collect_answer [of h "sys w'" rooms tgid] by (metis answered_simps(2))
  moreover have "same_text (body ?r) msg" by (simp add: answered_simps same_text_def)
  moreover have "call_woken rooms tgid now later deadline signal h (sys w') = collect rooms tgid h (sys w')"
    using \<open>requests (sys w') ! h = ?r\<close> by (simp add: call_woken_def settled_def answered_simps)
  moreover note same_text_trans
  moreover have "waits w (caller_pid (requests (sys w) ! h)) = Some h" using slots_okD(5) [OF ok h] t by simp
  ultimately show ?thesis using s by simp
qed

section \<open>Capabilities in transit\<close>

definition as_entry :: "carried \<Rightarrow> entry" where
  "as_entry c = \<lparr>en_type = ca_type c, en_rights = ca_rights c, en_pointer = ca_pointer c, en_generation = 0\<rparr>"

definition carried_ok :: "(otype \<times> nat \<times> 32 word) set \<Rightarrow> carried list \<Rightarrow> bool" where
  "carried_ok G cs \<longleftrightarrow> length cs = kMaxCarried \<and> (\<forall>c \<in> set cs. granted G (as_entry c))"

text \<open>Everything the tables hold and everything on its way was granted.\<close>

definition authority :: "(otype \<times> nat \<times> 32 word) set \<Rightarrow> ipc \<Rightarrow> bool" where
  "authority G s \<longleftrightarrow> tables_ok (objs s) \<and> all_granted G (objs s) \<and> (\<forall>r \<in> set (requests s). carried_ok G (carrying r))"

lemma authority_mono: "authority G s \<Longrightarrow> G \<subseteq> G' \<Longrightarrow> authority G' s"
  by (auto simp: authority_def carried_ok_def intro: all_granted_mono granted_mono)

lemma authority_cong:
  "authority G s \<Longrightarrow> map carrying (requests s') = map carrying (requests s) \<Longrightarrow> objs s' = objs s \<Longrightarrow> authority G s'"
proof -
  assume "authority G s" "map carrying (requests s') = map carrying (requests s)" "objs s' = objs s"
  moreover from this(2) have "carrying ` set (requests s') = carrying ` set (requests s)" by (metis list.set_map)
  ultimately show ?thesis unfolding authority_def by (metis image_iff)
qed

lemma carrying_update:
  "carrying r = carrying (xs ! i) \<Longrightarrow> map carrying (xs[i := r]) = map carrying xs"
  by (simp add: map_update list_update_same) (metis list_update_beyond list_update_id map_update nth_map not_le)

lemma carrying_orphan: "carrying (orphan p r) = carrying r" "carrying (released pid r) = carrying r"
  by (simp_all add: orphan_def released_def)

lemma carrying_left: "list_all2 left_or_orphaned rs rs' \<Longrightarrow> map carrying rs' = map carrying rs"
  by (induction rule: list_all2_induct) (auto simp: left_or_orphaned_def)

lemma authority_install:
  assumes "authority G s" "h < length (requests s)" "i < kMaxCarried"
  shows "authority G (install rooms tgid h i s)"
proof -
  let ?c = "carrying (requests s ! h) ! i"
  obtain n ts where g: "give (rooms i) tgid (ca_type ?c) (ca_pointer ?c) (ca_rights ?c) (objs s) = (n, ts)" by fastforce
  have "carried_ok G (carrying (requests s ! h))" using assms(1,2) by (auto simp: authority_def)
  then have "granted G (as_entry ?c)" using assms(3) by (simp add: carried_ok_def)
  then have "all_granted G ts"
    using give_granted [of "objs s" G "ca_type ?c" "ca_rights ?c" "ca_pointer ?c" "rooms i" tgid] assms(1) g
    by (simp add: authority_def as_entry_def)
  moreover have "tables_ok ts" using give_ok [of "objs s" "rooms i" tgid] assms(1) g by (metis authority_def snd_conv)
  ultimately show ?thesis using assms(1,2) g
    by (auto simp: authority_def install_def dest!: set_update_subset_insert [THEN subsetD])
qed

lemma authority_blank: "authority G s \<Longrightarrow> authority G (blank h i s)"
  by (rule authority_cong) (simp_all add: blank_def carrying_update)

lemma authority_collect:
  assumes "authority G s" "h < length (requests s)" "collect rooms tgid h s = (out, s')"
  shows "authority G s'"
proof -
  let ?n = "carried_n (requests s ! h)"
  have inst: "authority G (fold (install rooms tgid h) is s) \<and> length (requests (fold (install rooms tgid h) is s)) = length (requests s)"
    if "\<forall>i \<in> set is. i < kMaxCarried" for "is"
    using that by (induction "is" rule: rev_induct) (auto simp: assms install_length intro: authority_install)
  have bl: "authority G (fold (blank h) is x)" if "authority G x" for "is" x
    using that by (induction "is" arbitrary: x) (simp_all add: authority_blank)
  have up: "authority G (upd_request h (rq_state_update (\<lambda>_. Free)) x)" if "authority G x" for x
    by (rule authority_cong [OF that]) (simp_all add: carrying_update)
  have "s' = upd_request h (rq_state_update (\<lambda>_. Free)) (fold (blank h) [?n ..< kMaxCarried]
      (if rq_state (requests s ! h) = Answered then fold (install rooms tgid h) [0 ..< min ?n kMaxCarried] s else s))"
    using assms(3) unfolding collect_def Let_def by simp
  then show ?thesis using up bl inst [of "[0 ..< min ?n kMaxCarried]"] assms(1) by simp
qed

lemma stop_waiting_authority: "authority G s \<Longrightarrow> stop_waiting h code s = (out, s') \<Longrightarrow> authority G s'"
  by (erule authority_cong) (auto simp: stop_waiting_def carrying_update)

lemma authority_wait:
  assumes "authority G s" "h < length (requests s)"
    "call_wait rooms tgid now deadline h s = (out, s') \<or> call_woken rooms tgid now' now deadline signal h s = (out, s')"
  shows "authority G s'"
proof -
  have w: "s' = s \<or> collect rooms tgid h s = (out, s') \<or> (\<exists>code. stop_waiting h code s = (out, s'))"
    if "call_wait rooms tgid now deadline h s = (out, s')"
    using that unfolding call_wait_def by (simp split: if_split_asm) blast+
  have "call_wait rooms tgid now deadline h s = (out, s') \<or> collect rooms tgid h s = (out, s') \<or> (\<exists>code. stop_waiting h code s = (out, s'))"
    if "call_woken rooms tgid now' now deadline signal h s = (out, s')"
    using that unfolding call_woken_def by (simp split: if_split_asm) blast+
  with w assms(3) have "s' = s \<or> collect rooms tgid h s = (out, s') \<or> (\<exists>code. stop_waiting h code s = (out, s'))" by blast
  then show ?thesis using authority_collect [OF assms(1,2)] stop_waiting_authority [OF assms(1)] assms(1) by blast
qed

text \<open>A reply picks up only what the table of the server holds.\<close>

lemma carry_ok:
  assumes "tables_ok ts" "all_granted G ts" "carried_ok G (carrying r)"
  shows "carried_ok G (carrying (carry server ts i r))"
proof (cases "held ts server (handle (body r) ! i)")
  case None
  then show ?thesis using assms(3) by (simp add: carry_def Let_def type_of_held)
next
  case (Some e)
  then obtain es where "entries_of ts server = Some es" "e \<in> set es" using held_in_entries [OF _ assms(1)] by blast
  then have "granted G e" using assms(2) by (auto simp: all_granted_def)
  then have "granted G (as_entry \<lparr>ca_type = en_type e, ca_pointer = en_pointer e, ca_rights = en_rights e\<rparr>)"
    by (simp add: granted_def as_entry_def)
  then show ?thesis using assms(3) Some
    by (auto simp: carry_def Let_def type_of_held look_held rights_of_held carried_ok_def
        dest!: set_update_subset_insert [THEN subsetD])
qed

lemma authority_reply:
  assumes "authority G s" "h < length (requests s)"
  shows "authority G (upd_request h (answered server (objs s) msg) s)"
proof -
  have f: "carried_ok G (carrying (fold (carry server (objs s)) is r))" if "carried_ok G (carrying r)" for "is" r
    using that assms(1) by (induction "is" arbitrary: r) (auto simp: authority_def intro: carry_ok)
  have "carried_ok G (carrying (requests s ! h))" using assms by (auto simp: authority_def)
  then have "carried_ok G (carrying (answered server (objs s) msg (requests s ! h)))"
    by (simp add: answered_def Let_def f)
  then show ?thesis using assms(1)
    by (auto simp: authority_def dest!: set_update_subset_insert [THEN subsetD])
qed

fun grants_of :: "iop \<Rightarrow> (otype \<times> nat \<times> 32 word) set" where
  "grants_of (Objects cur op) = gives_of [op]"
| "grants_of op = {}"

lemma take_carrying:
  "map carrying (requests (upd_request h (\<lambda>r. r\<lparr>rq_state := Taken, server_pid := cur\<rparr>) s)) = map carrying (requests s)"
  by (simp add: carrying_update)

lemma istep_authority:
  assumes "istep w op w'" "slots_ok w" "authority G (sys w)"
  shows "authority (G \<union> grants_of op) (sys w')"
  using assms(1)
proof (cases rule: istep.cases)
  case (create cur name n s)
  then have "requests s = requests (sys w)" "objs s = objs (sys w)" by (auto simp: port_create_def split: if_splits option.splits)
  with create assms(3) show ?thesis by (simp add: authority_def)
next
  case (destroy cur port n s)
  obtain answer s' wakes where d: "port_destroy_locked cur port (sys w) [] = (answer, s', wakes)" by (metis prod_cases3)
  then have "s = wake wakes s'" using destroy(4) by (simp add: port_destroy_def)
  moreover note destroy_locked_requests [OF slots_okD(1) [OF assms(2)] d]
  ultimately have "map carrying (requests s) = map carrying (requests (sys w))" "objs s = objs (sys w)"
    by (simp_all add: carrying_orphan o_def)
  from authority_cong [OF assms(3) this] destroy(1,2) show ?thesis by simp
next
  case (call_fails cur port msg room code s)
  then show ?thesis using call_queue_fails [of cur port msg room "sys w" code s] assms(3) by simp
next
  case (call cur port msg room h s)
  then have "map carrying (requests s) = map carrying (requests (sys w))" "objs s = objs (sys w)"
    by (auto simp: call_queue_def carrying_update split: option.splits if_splits)
  from authority_cong [OF assms(3) this] call(1,2) show ?thesis by simp
next
  case (wait cur h rooms tgid now deadline out s)
  have "h < length (requests (sys w))" using slots_okD(1,2) [OF assms(2)] wait(3) by simp
  from authority_wait [OF assms(3) this disjI1 [OF wait(4)]] wait(1,2) show ?thesis by simp
next
  case (woken cur h rooms tgid now later deadline signal out s)
  have "h < length (requests (sys w))" using slots_okD(1,2) [OF assms(2)] woken(3) by simp
  from authority_wait [OF assms(3) this disjI2 [OF woken(4)]] woken(1,2) show ?thesis by simp
next
  case (try_recv cur port got s)
  then have "map carrying (requests s) = map carrying (requests (sys w)) \<and> objs s = objs (sys w)"
    using recv_requests [of cur _ _ _ _ _ "sys w" _ s port got] take_carrying by fastforce
  with authority_cong [OF assms(3)] try_recv(1,2) show ?thesis by simp
next
  case (recv cur now deadline port got s)
  then have "map carrying (requests s) = map carrying (requests (sys w)) \<and> objs s = objs (sys w)"
    using recv_requests [of cur now _ deadline _ _ "sys w" got s port] take_carrying by fastforce
  with authority_cong [OF assms(3)] recv(1,2) show ?thesis by simp
next
  case (recv_woken cur now later deadline signal port got s)
  then have "map carrying (requests s) = map carrying (requests (sys w)) \<and> objs s = objs (sys w)"
    using recv_requests [of cur now later deadline signal port "sys w" got s] take_carrying by fastforce
  with authority_cong [OF assms(3)] recv_woken(1,2) show ?thesis by simp
next
  case (reply cur tgid h msg n s)
  from reply(4) show ?thesis
  proof (cases rule: reply_cases)
    case refused
    then show ?thesis using reply(1,2) assms(3) by simp
  next
    case (late k)
    then have "map carrying (requests s) = map carrying (requests (sys w))" "objs s = objs (sys w)" by (simp_all add: carrying_update)
    from authority_cong [OF assms(3) this] reply(1,2) show ?thesis by simp
  next
    case (given k m)
    have "k < length (requests (sys w))" using given(3) slots_okD(1) [OF assms(2)] by simp
    from authority_reply [OF assms(3) this] given(7) reply(1,2) show ?thesis by (simp add: authority_def)
  qed
next
  case (exit cur pid)
  obtain rs where "list_all2 left_or_orphaned (requests (sys w)) rs"
    "requests (abandon cur pid (sys w)) = map (released pid) rs" "objs (abandon cur pid (sys w)) = objs (sys w)"
    using abandon_requests [OF slots_okD(1) [OF assms(2)]] by metis
  then have "map carrying (requests (abandon cur pid (sys w))) = map carrying (requests (sys w))" "objs (abandon cur pid (sys w)) = objs (sys w)"
    by (simp_all add: carrying_orphan o_def carrying_left)
  from authority_cong [OF assms(3) this] exit(1,2) show ?thesis by simp
next
  case (objects cur op')
  have "tables_ok (objs (sys w))" "all_granted G (objs (sys w))" using assms(3) by (simp_all add: authority_def)
  from hexec_ok [OF this(1)] hexec_granted [OF this] authority_mono [OF assms(3), of "G \<union> gives_of [op']"] objects(1,2)
  show ?thesis by (simp add: authority_def)
qed

lemma authority_init: "authority {} ipc_init"
  using init_ok by (auto simp: authority_def ipc_init_def all_granted_def no_request_def carried_ok_def granted_def as_entry_def)

lemma irun_authority:
  assumes "irun world_init ops w"
  shows "authority (\<Union>op \<in> set ops. grants_of op) (sys w)"
  using assms
proof (induction world_init ops w rule: irun.induct)
  case none
  then show ?case using authority_init by (simp add: world_init_def)
next
  case (more ops w' op w'')
  then have "slots_ok w'" using irun_slots init_slots by blast
  from istep_authority [OF more.hyps(3) this more.hyps(2)] show ?case by (simp add: Un_commute)
qed

text \<open>
  C20. Message passing invents no authority. In any run of threads calling, serving, replying with
  handles and dying, interleaved with operations on the handles themselves, an object that a process
  can reach with some rights was granted by the kernel in that run to some process with at least those
  rights.
\<close>

theorem messages_convey_no_new_authority:
  assumes "irun world_init ops w" "look pid h ty needed (objs (sys w)) = Some ptr" "ty \<noteq> TNone"
  shows "\<exists>rights. (ty, ptr, rights) \<in> (\<Union>op \<in> set ops. grants_of op) \<and> needed AND rights = needed"
proof -
  have a: "tables_ok (objs (sys w))" "all_granted (\<Union>op \<in> set ops. grants_of op) (objs (sys w))"
    using irun_authority [OF assms(1)] by (simp_all add: authority_def)
  obtain e where e: "held (objs (sys w)) pid h = Some e" "en_type e = ty" "en_rights e AND needed = needed" "en_pointer e = ptr"
    using assms(2) by (auto simp: look_held split: option.splits if_splits)
  obtain es where "entries_of (objs (sys w)) pid = Some es" "e \<in> set es" using held_in_entries [OF e(1) a(1)] by blast
  then have "granted (\<Union>op \<in> set ops. grants_of op) e" using a(2) by (auto simp: all_granted_def)
  then obtain r where "(ty, ptr, r) \<in> (\<Union>op \<in> set ops. grants_of op)" "en_rights e AND r = en_rights e"
    using e assms(3) by (auto simp: granted_def)
  moreover from this(2) e(3) have "needed AND r = needed" by (metis and.assoc and.commute)
  ultimately show ?thesis by blast
qed

end
