(* ===== verification/Kernel_Ipc_Runs.thy ===== *)
theory Kernel_Ipc_Runs
  imports Kernel_Ipc_Laws
begin

text \<open>
  What happens around the ends of ports and processes, where the code does less than its comments
  say; the transfer of one capability from end to end; and concrete runs.
\<close>

section \<open>A dropped request whose port is closed\<close>

text \<open>A slot marked for a caller that has gone: nobody will collect it.\<close>

definition lost :: "nat \<Rightarrow> nat \<Rightarrow> world \<Rightarrow> bool" where
  "lost h who w \<longleftrightarrow> h < kMaxRequests \<and> rq_state (requests (sys w) ! h) = Abandoned
     \<and> caller_pid (requests (sys w) ! h) = who \<and> (\<forall>p. waits w p \<noteq> Some h)"

lemma istep_waits:
  assumes "istep w op w'" "waits w' p = Some h"
  shows "waits w p = Some h \<or> rq_state (requests (sys w) ! h) = Free"
  using assms(1)
proof (cases rule: istep.cases)
  case (call cur port msg room k s)
  then have "rq_state (requests (sys w) ! k) = Free"
    by (auto simp: call_queue_def first_index_Some split: option.splits if_splits)
  with call(2) assms(2) show ?thesis by (auto split: if_splits)
next
  case (wait cur k rooms tgid now deadline out s)
  with assms(2) show ?thesis by (cases out) (auto split: if_splits)
next
  case (woken cur k rooms tgid now later deadline signal out s)
  with assms(2) show ?thesis by (cases out) (auto split: if_splits)
qed (use assms(2) in auto)

lemma abandoned_stays:
  assumes "istep w op w'" "slots_ok w" "h < kMaxRequests" "rq_state (requests (sys w) ! h) = Abandoned"
    "waits w (actor op) \<noteq> Some h" "\<And>cur. op \<noteq> Exit cur (caller_pid (requests (sys w) ! h))"
  shows "requests (sys w') ! h = requests (sys w) ! h"
proof (cases "closes_port op")
  case False
  then have "requests (sys w') = requests (sys w) \<or> (\<exists>k r. requests (sys w') = (requests (sys w))[k := r]
    \<and> (rq_state (requests (sys w) ! k) \<in> {Free, Queued, Taken, Dropped} \<or> waits w (actor op) = Some k))"
    by (rule istep_one_slot [OF assms(1,2)])
  then consider "requests (sys w') = requests (sys w)"
    | k r where "requests (sys w') = (requests (sys w))[k := r]" "rq_state (requests (sys w) ! k) \<in> {Free, Queued, Taken, Dropped} \<or> waits w (actor op) = Some k"
    by blast
  then show ?thesis
  proof cases
    case (2 k r)
    then have "k \<noteq> h" using assms(4,5) by auto
    with 2(1) show ?thesis by simp
  qed simp
next
  case True
  have len: "length (requests (sys w)) = kMaxRequests" using slots_okD(1) [OF assms(2)] .
  have keep: "orphan p (requests (sys w) ! h) = requests (sys w) ! h" for p
    using assms(4) by (simp add: orphan_def)
  from assms(1) True show ?thesis
  proof (cases rule: istep.cases)
    case (destroy cur port n s)
    obtain answer s' wakes where d: "port_destroy_locked cur port (sys w) [] = (answer, s', wakes)" by (metis prod_cases3)
    then have "s = wake wakes s'" using destroy(4) by (simp add: port_destroy_def)
    with destroy_locked_requests(1) [OF len d] destroy(2) keep assms(3) len show ?thesis by simp
  next
    case (exit cur pid)
    obtain rs where rs: "list_all2 left_or_orphaned (requests (sys w)) rs" "requests (abandon cur pid (sys w)) = map (released pid) rs"
      using abandon_requests [OF len] by metis
    have rlen: "length rs = kMaxRequests" using list_all2_lengthD [OF rs(1)] len by simp
    have "left_or_orphaned (requests (sys w) ! h) (rs ! h)" using list_all2_nthD2 [OF rs(1)] rlen assms(3) by simp
    then have "rs ! h = requests (sys w) ! h" using assms(4) by (auto simp: left_or_orphaned_def)
    moreover have "caller_pid (requests (sys w) ! h) \<noteq> pid" using assms(6) exit(1) by blast
    ultimately show ?thesis using exit(2) rs(2) rlen assms(3,4) by (simp add: released_def)
  qed simp_all
qed

lemma istep_lost:
  assumes "istep w op w'" "slots_ok w" "lost h who w" "\<And>cur. op \<noteq> Exit cur who"
  shows "lost h who w'"
proof -
  have "requests (sys w') ! h = requests (sys w) ! h"
    using abandoned_stays [OF assms(1,2), of h] assms(3,4) by (simp add: lost_def)
  moreover have "waits w' p \<noteq> Some h" for p
    using istep_waits [OF assms(1), of p h] assms(3) by (auto simp: lost_def)
  ultimately show ?thesis using assms(3) by (simp add: lost_def)
qed

lemma irun_lost:
  assumes "irun w ops w'" "slots_ok w" "lost h who w" "\<forall>cur. Exit cur who \<notin> set ops"
  shows "lost h who w'"
  using assms
proof (induction rule: irun.induct)
  case (more w ops w' op w'')
  then have "slots_ok w'" "lost h who w'" using irun_slots by auto
  then show ?case using istep_lost [OF more.hyps(2)] more.prems(3) by auto
qed

text \<open>
  C22. The slot of a request that its caller has stopped waiting for is lost when the server then
  closes the port instead of answering. The comment on \<^verbatim>\<open>Dropped\<close> gives the slot to the server, to be
  freed when the answer comes or the server dies; but closing a port, which is also the first thing
  that happens when the server dies, turns the request into \<^verbatim>\<open>Abandoned\<close>, the state that is addressed to
  the caller. From then on no operation of any thread frees the slot, until the process that had
  called exits.
\<close>

theorem dropped_slot_is_lost:
  assumes "irun world_init ops w" "h < kMaxRequests" "rq_state (requests (sys w) ! h) = Dropped"
    "port_destroy cur (int (rq_port (requests (sys w) ! h))) (sys w) = (0, s)"
    "irun (w\<lparr>sys := s\<rparr>) ops' w'" "\<forall>t. Exit t (caller_pid (requests (sys w) ! h)) \<notin> set ops'"
  shows "rq_state (requests (sys w') ! h) = Abandoned \<and> (\<forall>p. waits w' p \<noteq> Some h)"
proof -
  let ?r = "requests (sys w) ! h"
  have ok: "slots_ok w" using irun_slots [OF assms(1) init_slots] .
  have len: "length (requests (sys w)) = kMaxRequests" using slots_okD(1) [OF ok] .
  obtain answer s' wakes where d: "port_destroy_locked cur (int (rq_port ?r)) (sys w) [] = (answer, s', wakes)" by (metis prod_cases3)
  then have s: "answer = 0" "s = wake wakes s'" using assms(4) by (simp_all add: port_destroy_def)
  then have "requests s ! h = ?r\<lparr>rq_state := Abandoned\<rparr>"
    using destroy_locked_requests(1) [OF len d] len assms(2,3) by (simp add: orphan_def)
  moreover have "waits w p \<noteq> Some h" for p using slots_okD(4) [OF ok, of p h] assms(3) by auto
  ultimately have "lost h (caller_pid ?r) (w\<lparr>sys := s\<rparr>)" using assms(2) by (simp add: lost_def)
  from irun_lost [OF assms(5) slots_ok_destroy [OF ok assms(4)] this assms(6)] show ?thesis by (simp add: lost_def)
qed

section \<open>Eight wake-ups\<close>

lemma abandon_wakes:
  "length (snd (fold (abandon_one p) is (s, wakes))) \<le> max 8 (length wakes)"
proof (induction "is" arbitrary: s wakes)
  case (Cons i "is")
  obtain s' wakes' where x: "abandon_one p i (s, wakes) = (s', wakes')" by fastforce
  then have "length wakes' \<le> max 8 (length wakes)" by (auto simp: abandon_one_def Let_def split: if_splits)
  then show ?case using Cons.IH [of s' wakes'] x by simp
qed simp

lemma destroy_wakes:
  assumes "port_destroy_locked cur port s [] = (answer, s', wakes)"
  shows "length wakes \<le> 8"
proof (cases "\<not> valid_port port s \<or> po_owner (ports s ! nat port) \<noteq> cur")
  case True
  then show ?thesis using assms by (simp add: port_destroy_locked_def)
next
  case False
  let ?x = "fold (abandon_one (nat port)) [0 ..< kMaxRequests]
    (s\<lparr>ports := (ports s)[nat port := (ports s ! nat port)\<lparr>po_used := False\<rparr>]\<rparr>, [])"
  have "(answer, s', wakes) = (0, ?x)" using assms False by (simp only: port_destroy_locked_def Let_def if_False)
  then have "wakes = snd ?x" by (metis snd_conv)
  then show ?thesis using abandon_wakes [of "nat port" "[0 ..< kMaxRequests]" _ "[]"] by simp
qed

text \<open>
  C23. Closing a port wakes at most eight of the threads waiting on it. When more than eight requests
  are open on the port, one of them is marked as abandoned without its channel being woken: a
  caller asleep there without a deadline stays asleep.
\<close>

theorem ninth_caller_not_woken:
  assumes "irun world_init ops w" "port_destroy cur (int p) (sys w) = (0, s)"
    "8 < card {h. h < kMaxRequests \<and> rq_port (requests (sys w) ! h) = p \<and> rq_state (requests (sys w) ! h) \<noteq> Free}"
  shows "\<exists>h < kMaxRequests. rq_port (requests (sys w) ! h) = p \<and> rq_state (requests (sys w) ! h) \<noteq> Free
    \<and> rq_state (requests s ! h) = Abandoned
    \<and> (\<exists>wakes. woken s = woken (sys w) @ wakes \<and> Request_Channel h \<notin> set wakes)"
proof -
  let ?H = "{h. h < kMaxRequests \<and> rq_port (requests (sys w) ! h) = p \<and> rq_state (requests (sys w) ! h) \<noteq> Free}"
  have len: "length (requests (sys w)) = kMaxRequests" using slots_okD(1) [OF irun_slots [OF assms(1) init_slots]] .
  obtain answer s' wakes where d: "port_destroy_locked cur (int p) (sys w) [] = (answer, s', wakes)" by (metis prod_cases3)
  then have s: "answer = 0" "s = wake wakes s'" using assms(2) by (simp_all add: port_destroy_def)
  note r = destroy_locked_requests [OF len d]
  have "length wakes \<le> 8" using destroy_wakes [OF d] .
  then have "card (set wakes) \<le> 8" using card_length [of wakes] by linarith
  have "\<not> Request_Channel ` ?H \<subseteq> set wakes"
  proof
    assume "Request_Channel ` ?H \<subseteq> set wakes"
    then have "card (Request_Channel ` ?H) \<le> 8"
      using card_mono [OF finite_set, of "Request_Channel ` ?H" wakes] \<open>card (set wakes) \<le> 8\<close> by linarith
    moreover have "card (Request_Channel ` ?H) = card ?H" by (rule card_image) (simp add: inj_on_def)
    ultimately show False using assms(3) by simp
  qed
  then obtain h where h: "h \<in> ?H" "Request_Channel h \<notin> set wakes" by blast
  moreover have "rq_state (requests s ! h) = Abandoned" using h(1) r(1) s len by (simp add: orphan_def)
  moreover have "woken s = woken (sys w) @ wakes" using s r(5) by simp
  ultimately show ?thesis by blast
qed

section \<open>The last thread out\<close>

lemma close_port_other: "cur \<noteq> pid \<Longrightarrow> close_port cur pid i x = x"
  by (auto simp: close_port_def port_destroy_locked_def split: prod.splits)

text \<open>
  C24. The ports of a process are closed on its death only when its last thread is the one whose
  number is the process's: the check in the shared body compares the owner with the running thread.
  After another thread was the last to leave, the ports keep their names, and requests queued on them
  stay queued.
\<close>

theorem ports_outlive_process:
  assumes "cur \<noteq> pid"
  shows "ports (abandon cur pid s) = ports s"
proof -
  have "fold (close_port cur pid) is x = x" for "is" x
    using assms by (induction "is") (simp_all add: close_port_other)
  moreover have "ports (fst (fold (let_go pid) is x)) = ports (fst x)" for "is" x
    by (rule fold_keeps) (simp add: let_go_requests)
  ultimately show ?thesis by (simp add: abandon_def case_prod_beta)
qed

section \<open>One capability from end to end\<close>






section \<open>Concrete runs\<close>

text \<open>Thread 10 serves port 0, and thread 20 has one request with it; \<open>ts\<close> are the tables of handles.\<close>

definition start :: "tables \<Rightarrow> world" where
  "start ts = \<lparr>sys = ipc_init\<lparr>objs := ts\<rparr>, waits = \<lambda>_. None\<rparr>"

definition serving :: "tables \<Rightarrow> rstate \<Rightarrow> nat \<Rightarrow> (nat \<Rightarrow> nat option) \<Rightarrow> world" where
  "serving ts st server f =
     \<lparr>sys = ipc_init\<lparr>ports := (ports ipc_init)[0 := \<lparr>po_used = True, po_name = 7, po_owner = 10\<rparr>],
        requests := (requests ipc_init)[0 := no_request\<lparr>rq_state := st, caller_pid := 20, server_pid := server\<rparr>],
        objs := ts, woken := [Port_Channel 0]\<rparr>, waits = f\<rparr>"

definition opened :: "tables \<Rightarrow> world" where
  "opened ts = \<lparr>sys = ipc_init\<lparr>ports := (ports ipc_init)[0 := \<lparr>po_used = True, po_name = 7, po_owner = 10\<rparr>], objs := ts\<rparr>,
     waits = \<lambda>_. None\<rparr>"

lemmas demo_defs = ipc_init_def kMaxPorts_def kMaxRequests_def no_request_def valid_port_def upd_request_def wake_def

lemma start_opened: "istep (start ts) (Create 10 7) (opened ts)"
proof -
  have "port_create 10 7 (sys (start ts)) = (0, sys (opened ts))"
    by (simp add: port_create_def find_port_def start_def opened_def demo_defs first_index_None first_index_replicate)
  from istep.create [OF _ this] show ?thesis by (simp add: start_def opened_def)
qed

lemma opened_queued: "istep (opened ts) (Call 20 0 (Some no_message) True) (serving ts Queued 0 [20 \<mapsto> 0])"
proof -
  have "call_queue 20 0 (Some no_message) True (sys (opened ts)) = (Inr 0, sys (serving ts Queued 0 [20 \<mapsto> 0]))"
    by (simp add: call_queue_def opened_def serving_def demo_defs first_index_replicate)
  from istep.call [OF _ this] show ?thesis by (simp add: opened_def serving_def)
qed

lemma queued_taken: "istep (serving ts Queued 0 [20 \<mapsto> 0]) (Try_Recv 10 0) (serving ts Taken 10 [20 \<mapsto> 0])"
proof -
  have "first_index (\<lambda>r. rq_state r = Queued \<and> rq_port r = 0) (requests (sys (serving ts Queued 0 [20 \<mapsto> 0]))) = Some 0"
    by (simp add: first_index_Some serving_def demo_defs)
  then have "try_recv 10 0 (sys (serving ts Queued 0 [20 \<mapsto> 0])) = (Some (0, no_message, 20), sys (serving ts Taken 10 [20 \<mapsto> 0]))"
    by (simp add: try_recv_def serves_def take_request_def) (simp add: serving_def demo_defs)
  from istep.try_recv [OF _ this] show ?thesis by (simp add: serving_def)
qed

lemma taken_dropped: "istep (serving ts Taken 10 [20 \<mapsto> 0]) (Woken 20 20 (\<lambda>_. True) 5 5 3 False) (serving ts Dropped 10 (\<lambda>_. None))"
proof -
  have "call_woken (\<lambda>_. True) 20 5 5 3 False 0 (sys (serving ts Taken 10 [20 \<mapsto> 0])) = (Return (-2) None, sys (serving ts Dropped 10 (\<lambda>_. None)))"
    by (simp add: call_woken_def settled_def stop_waiting_def serving_def demo_defs)
  moreover have "waits (serving ts Taken 10 [20 \<mapsto> 0]) 20 = Some 0" by (simp add: serving_def)
  moreover have "\<lparr>sys = sys (serving ts Dropped 10 (\<lambda>_. None)), waits = still_waiting 20 (Return (-2) (None :: message option))
    (waits (serving ts Taken 10 [20 \<mapsto> 0]))\<rparr> = serving ts Dropped 10 (\<lambda>_. None)"
    by (auto simp: serving_def)
  ultimately show ?thesis using istep.woken by metis
qed

lemma run_taken:
  assumes "irun world_init ops (start ts)"
  shows "irun world_init (ops @ [Create 10 7, Call 20 0 (Some no_message) True, Try_Recv 10 0]) (serving ts Taken 10 [20 \<mapsto> 0])"
  using irun.more [OF irun.more [OF irun.more [OF assms start_opened] opened_queued] queued_taken] by simp

lemma start_init: "irun world_init [] (start object_init)"
proof -
  have "start object_init = world_init" by (simp add: start_def world_init_def ipc_init_def)
  then show ?thesis by (simp add: irun.none)
qed

text \<open>A request taken by its server, in a run from the start.\<close>

lemma demo_taken:
  "irun world_init [Create 10 7, Call 20 0 (Some no_message) True, Try_Recv 10 0] (serving object_init Taken 10 [20 \<mapsto> 0])"
  using run_taken [OF start_init] by simp

lemma demo_slot:
  "caller_pid (requests (sys (serving ts st server f)) ! 0) = 20" "rq_state (requests (sys (serving ts st server f)) ! 0) = st"
  "rq_port (requests (sys (serving ts st server f)) ! 0) = 0" "server_pid (requests (sys (serving ts st server f)) ! 0) = server"
  by (simp_all add: serving_def demo_defs)

lemma demo_reply:
  "\<exists>s. reply 10 10 (int 0) (Some msg) (sys (serving ts Taken 10 [20 \<mapsto> 0])) = (0, s)"
  using demo_slot [of ts Taken 10 "[20 \<mapsto> 0]"] by (simp add: reply_def Let_def kMaxRequests_def)

theorem slots_belong_to_callers_witness:
  "waits (serving object_init Taken 10 [20 \<mapsto> 0]) 20 = Some 0
    \<and> caller_pid (requests (sys (serving object_init Taken 10 [20 \<mapsto> 0])) ! 0) = 20"
proof -
  have "waits (serving object_init Taken 10 [20 \<mapsto> 0]) 20 = Some 0" by (simp add: serving_def)
  with slots_belong_to_callers [OF demo_taken] show ?thesis by blast
qed

theorem answer_reaches_caller_witness:
  "\<exists>s m s'. reply 10 10 (int 0) (Some no_message) (sys (serving object_init Taken 10 [20 \<mapsto> 0])) = (0, s)
    \<and> call_woken (\<lambda>_. True) 20 9 9 3 True 0 s = (Return 0 (Some m), s') \<and> same_text m no_message"
proof -
  let ?w = "serving object_init Taken 10 [20 \<mapsto> 0]"
  obtain s where s: "reply 10 10 (int 0) (Some no_message) (sys ?w) = (0, s)" using demo_reply by blast
  show ?thesis using s answer_reaches_caller [OF demo_taken s irun.none, of "\<lambda>_. True" 20 9 9 3 True] by auto
qed

text \<open>Process 10 was granted a segment of shared memory, and nobody else anything.\<close>

definition demo_tables :: tables where
  "demo_tables = object_init[0 := Some \<lparr>t_used = True, t_pid = 10, t_entries =
     (replicate kMaxHandles no_entry)[0 := \<lparr>en_type = TShm, en_rights = kAll, en_pointer = 100, en_generation = 1\<rparr>]\<rparr>]"

lemma free_entry: "first_index (\<lambda>e. en_type e = TNone) (replicate kMaxHandles no_entry) = Some 0"
  by (simp add: kMaxHandles_def no_entry_def first_index_replicate)

lemma give_to_new:
  assumes "find_table ts pid = None" "first_index (\<lambda>t. \<not> in_use t) ts = Some i" "ty \<noteq> TNone"
  shows "give True pid ty ptr rights ts = (1024, ts[i := Some \<lparr>t_used = True, t_pid = pid, t_entries =
    (replicate kMaxHandles no_entry)[0 := \<lparr>en_type = ty, en_rights = rights, en_pointer = ptr, en_generation = 1\<rparr>]\<rparr>])"
proof -
  have "i < length ts" using assms(2) by (simp add: first_index_Some)
  moreover have "replicate kMaxHandles no_entry ! 0 = no_entry" by (simp add: kMaxHandles_def)
  moreover have "next_generation (en_generation no_entry) = 1" "encode 0 1 = 1024"
    by (simp_all add: next_generation_def encode_def no_entry_def)
  ultimately show ?thesis using assms
    by (simp add: give_def find_or_make_def free_entry Let_def entry_at_def set_entry_def)
qed

lemma demo_give: "give True 10 TShm 100 kAll object_init = (1024, demo_tables)"
proof -
  have "find_table object_init 10 = None" by (simp add: find_table_def first_index_None object_init_def holds_pid_def)
  moreover have "first_index (\<lambda>t. \<not> in_use t) object_init = Some 0"
    by (simp add: object_init_def kMaxTables_def in_use_def first_index_replicate)
  ultimately show ?thesis by (simp add: give_to_new demo_tables_def)
qed


lemma demo_held: "held demo_tables 10 1024 = Some \<lparr>en_type = TShm, en_rights = kAll, en_pointer = 100, en_generation = 1\<rparr>"
proof -
  have "find_table demo_tables 10 = Some 0"
    by (simp add: find_table_def first_index_Some demo_tables_def object_init_def kMaxTables_def holds_pid_def)
  then have "entries_of demo_tables 10 = Some ((replicate kMaxHandles no_entry)[0 := \<lparr>en_type = TShm, en_rights = kAll, en_pointer = 100, en_generation = 1\<rparr>])"
    by (simp add: entries_of_def demo_tables_def object_init_def kMaxTables_def)
  then show ?thesis by (simp add: held_def entry_for_def kMaxHandles_def)
qed


lemma demo_granted: "irun world_init [Objects 10 (Give True 10 TShm 100 kAll)] (start demo_tables)"
proof -
  have "istep (start object_init) (Objects 10 (Give True 10 TShm 100 kAll)) (start demo_tables)"
    using istep.objects [of "start object_init" 10 "Give True 10 TShm 100 kAll"] demo_give by (simp add: start_def)
  from irun.more [OF start_init this] show ?thesis by simp
qed

theorem messages_convey_no_new_authority_witness:
  "look 10 1024 TShm kRead demo_tables = Some 100
    \<and> (\<exists>rights. (TShm, 100, rights) \<in> gives_of [Give True 10 TShm 100 kAll] \<and> kRead AND rights = kRead)"
proof -
  have l: "look 10 1024 TShm kRead (objs (sys (start demo_tables))) = Some 100"
    by (simp add: look_held demo_held kRead_def kAll_def start_def)
  from messages_convey_no_new_authority [OF demo_granted l] l show ?thesis by (auto simp: start_def)
qed



lemma demo_dropped:
  "irun world_init [Create 10 7, Call 20 0 (Some no_message) True, Try_Recv 10 0, Woken 20 20 (\<lambda>_. True) 5 5 3 False]
    (serving object_init Dropped 10 (\<lambda>_. None))"
  using irun.more [OF demo_taken taken_dropped] by simp

lemma destroy_own:
  assumes "ports (sys w) = (ports ipc_init)[0 := \<lparr>po_used = True, po_name = 7, po_owner = 10\<rparr>]"
  shows "\<exists>s. port_destroy 10 (int 0) (sys w) = (0, s)"
  using assms by (simp add: port_destroy_def port_destroy_locked_def valid_port_def ipc_init_def kMaxPorts_def Let_def case_prod_beta)

theorem dropped_slot_is_lost_witness:
  "\<exists>s. port_destroy 10 (int 0) (sys (serving object_init Dropped 10 (\<lambda>_. None))) = (0, s)
    \<and> rq_state (requests s ! 0) = Abandoned"
proof -
  let ?w = "serving object_init Dropped 10 (\<lambda>_. None)"
  have p: "rq_port (requests (sys ?w) ! 0) = 0" "rq_state (requests (sys ?w) ! 0) = Dropped" by (simp_all add: demo_slot)
  obtain s where s: "port_destroy 10 (int 0) (sys ?w) = (0, s)"
    using destroy_own [of ?w] by (auto simp: serving_def)
  then have "port_destroy 10 (int (rq_port (requests (sys ?w) ! 0))) (sys ?w) = (0, s)" using p by simp
  from dropped_slot_is_lost [OF demo_dropped _ p(2) this irun.none] s show ?thesis by (simp add: kMaxRequests_def)
qed

theorem ports_outlive_process_witness: "po_used (ports (abandon 11 10 (sys (opened object_init))) ! 0)"
  using ports_outlive_process [of 11 10 "sys (opened object_init)"] by (simp add: opened_def ipc_init_def kMaxPorts_def)

text \<open>Nine threads with a request each on port 0.\<close>

definition queued_by :: "nat \<Rightarrow> request" where
  "queued_by who = no_request\<lparr>rq_state := Queued, caller_pid := who\<rparr>"

definition crowd :: "nat \<Rightarrow> world" where
  "crowd n = \<lparr>sys = ipc_init\<lparr>ports := (ports ipc_init)[0 := \<lparr>po_used = True, po_name = 7, po_owner = 10\<rparr>],
       requests := map (\<lambda>i. queued_by (20 + i)) [0 ..< n] @ replicate (kMaxRequests - n) no_request,
       woken := replicate n (Port_Channel 0)\<rparr>,
     waits = (\<lambda>p. if 20 \<le> p \<and> p < 20 + n then Some (p - 20) else None)\<rparr>"

lemma crowd_grows:
  assumes "n < kMaxRequests"
  shows "istep (crowd n) (Call (20 + n) 0 (Some no_message) True) (crowd (Suc n))"
proof -
  have "first_index (\<lambda>r. rq_state r = Free) (requests (sys (crowd n))) = Some n"
    using assms by (auto simp: first_index_Some crowd_def nth_append queued_by_def no_request_def)
  moreover have "requests (sys (crowd n)) ! n = no_request" using assms by (simp add: crowd_def nth_append)
  moreover have "valid_port 0 (sys (crowd n))" by (simp add: valid_port_def crowd_def ipc_init_def kMaxPorts_def)
  moreover have "(map (\<lambda>i. queued_by (20 + i)) [0 ..< n] @ replicate (kMaxRequests - n) no_request)[n := queued_by (20 + n)]
    = map (\<lambda>i. queued_by (20 + i)) [0 ..< Suc n] @ replicate (kMaxRequests - Suc n) no_request"
    using assms by (simp add: list_update_append Cons_replicate_eq [THEN iffD2] Suc_diff_Suc [symmetric])
  ultimately have q: "call_queue (20 + n) 0 (Some no_message) True (sys (crowd n)) = (Inr n, sys (crowd (Suc n)))"
    by (simp add: call_queue_def upd_request_def wake_def) (simp add: crowd_def queued_by_def no_request_def replicate_append_same)
  have "waits (crowd n) (20 + n) = None" by (simp add: crowd_def)
  moreover have "\<lparr>sys = sys (crowd (Suc n)), waits = (waits (crowd n))(20 + n \<mapsto> n)\<rparr> = crowd (Suc n)"
    by (auto simp: crowd_def)
  ultimately show ?thesis using istep.call [OF _ q] by metis
qed

lemma crowd_run:
  "n \<le> kMaxRequests \<Longrightarrow> irun world_init (Create 10 7 # map (\<lambda>i. Call (20 + i) 0 (Some no_message) True) [0 ..< n]) (crowd n)"
proof (induction n)
  case 0
  have "crowd 0 = opened object_init" by (auto simp: crowd_def opened_def ipc_init_def)
  then show ?case using irun.more [OF start_init start_opened] by simp
next
  case (Suc n)
  then show ?case using irun.more [OF Suc.IH crowd_grows] by simp
qed

theorem ninth_caller_not_woken_witness:
  "\<exists>s. port_destroy 10 (int 0) (sys (crowd 9)) = (0, s)
    \<and> (\<exists>h < kMaxRequests. rq_state (requests s ! h) = Abandoned
        \<and> (\<exists>wakes. woken s = woken (sys (crowd 9)) @ wakes \<and> Request_Channel h \<notin> set wakes))"
proof -
  obtain s where s: "port_destroy 10 (int 0) (sys (crowd 9)) = (0, s)"
    using destroy_own [of "crowd 9"] by (auto simp: crowd_def)
  have "{h. h < kMaxRequests \<and> rq_port (requests (sys (crowd 9)) ! h) = 0 \<and> rq_state (requests (sys (crowd 9)) ! h) \<noteq> Free} = {0 ..< 9}"
    by (auto simp: crowd_def kMaxRequests_def nth_append queued_by_def no_request_def)
  then have c: "8 < card {h. h < kMaxRequests \<and> rq_port (requests (sys (crowd 9)) ! h) = 0 \<and> rq_state (requests (sys (crowd 9)) ! h) \<noteq> Free}"
    by simp
  have "9 \<le> kMaxRequests" by (simp add: kMaxRequests_def)
  from ninth_caller_not_woken [OF crowd_run [OF this] s c] s show ?thesis by blast
qed

end
