(* ===== verification/Kernel_Pty.thy ===== *)
theory Kernel_Pty
  imports Leah_Prelude
begin

text \<open>
  \<^verbatim>\<open>kernel/fs/pty.cpp\<close>: pseudo-terminals. A pair has a ring of bytes in each direction and, on the way
  from the keyboard, the line discipline. Everything runs under one lock; a read that finds nothing
  sleeps, which is an outcome here. What an operation asks the scheduler to wake or signal is part
  of its result.
\<close>

definition kIsig :: nat where "kIsig = 1"
definition kIcanon :: nat where "kIcanon = 2"
definition kEcho :: nat where "kEcho = 8"
definition kVIntr :: nat where "kVIntr = 0"
definition kVQuit :: nat where "kVQuit = 1"
definition kVErase :: nat where "kVErase = 2"
definition kVSusp :: nat where "kVSusp = 3"
definition kSigInt :: nat where "kSigInt = 2"
definition kSigQuit :: nat where "kSigQuit = 3"
definition kSigTstp :: nat where "kSigTstp = 20"
definition kRing :: nat where "kRing = 4096"
definition kLine :: nat where "kLine = 1024"
definition kMaxPtys :: nat where "kMaxPtys = 8"

section \<open>Rings\<close>

record ring =
  rdata :: bytes
  rhead :: nat
  rtail :: nat
  rcount :: nat

definition ring_put :: "byte \<Rightarrow> ring \<Rightarrow> ring" where
  "ring_put c r =
     (if rcount r = kRing then r
      else r\<lparr>rdata := (rdata r)[rtail r := c], rtail := (rtail r + 1) mod kRing, rcount := rcount r + 1\<rparr>)"

definition ring_get :: "ring \<Rightarrow> byte \<times> ring" where
  "ring_get r = (rdata r ! rhead r, r\<lparr>rhead := (rhead r + 1) mod kRing, rcount := rcount r - 1\<rparr>)"

definition empty_ring :: ring where
  "empty_ring = \<lparr>rdata = replicate kRing 0, rhead = 0, rtail = 0, rcount = 0\<rparr>"

section \<open>A pair\<close>

record pty =
  p_used :: bool
  to_slave :: ring
  to_master :: ring
  line :: bytes
  line_len :: nat
  lflag :: nat
  cc :: bytes
  fg_pgid :: int
  p_size :: nat
  masters :: nat
  slaves :: nat

text \<open>Three channels at most: the two directions and the one that poll waits on.\<close>

datatype wchan = Slave_Chan | Master_Chan | Poll_Chan

record wakes =
  w_chans :: "wchan list"
  w_pgid :: int
  w_signo :: nat

definition no_wakes :: wakes where
  "no_wakes = \<lparr>w_chans = [], w_pgid = 0, w_signo = 0\<rparr>"

definition add_wake :: "wchan \<Rightarrow> wakes \<Rightarrow> wakes" where
  "add_wake c w =
     (if c \<in> set (w_chans w) then w
      else if length (w_chans w) < 3 then w\<lparr>w_chans := w_chans w @ [c]\<rparr> else w)"

text \<open>The signal to send, if any, and the channels to wake.\<close>

definition flush_wakes :: "wakes \<Rightarrow> (int \<times> nat) option \<times> wchan list" where
  "flush_wakes w = (if w_pgid w > 0 \<and> w_signo w \<noteq> 0 then Some (w_pgid w, w_signo w) else None, w_chans w)"

definition flag :: "nat \<Rightarrow> pty \<Rightarrow> bool" where
  "flag b p \<longleftrightarrow> lflag p AND b \<noteq> 0"

definition echo :: "byte \<Rightarrow> pty \<Rightarrow> pty" where
  "echo c p = (if \<not> flag kEcho p then p else p\<lparr>to_master := ring_put c (to_master p)\<rparr>)"

definition echo_text :: "bytes \<Rightarrow> pty \<Rightarrow> pty" where
  "echo_text s p = fold echo s p"

definition commit_line :: "pty \<Rightarrow> pty" where
  "commit_line p =
     p\<lparr>to_slave := fold ring_put (map (\<lambda>i. line p ! i) [0 ..< line_len p]) (to_slave p), line_len := 0\<rparr>"

definition signal_of :: "byte \<Rightarrow> pty \<Rightarrow> nat" where
  "signal_of c p =
     (if c = cc p ! kVIntr then kSigInt
      else if c = cc p ! kVQuit then kSigQuit
      else if c = cc p ! kVSusp then kSigTstp else 0)"

definition add_to_line :: "byte \<Rightarrow> pty \<Rightarrow> pty" where
  "add_to_line c p = p\<lparr>line := (line p)[line_len p := c], line_len := line_len p + 1\<rparr>"

definition pty_key :: "byte \<Rightarrow> pty \<times> wakes \<Rightarrow> pty \<times> wakes" where
  "pty_key c = (\<lambda>(p, w).
     if flag kIsig p \<and> signal_of c p \<noteq> 0 then
       (echo_text [94, 67, 13, 10] (p\<lparr>line_len := 0\<rparr>),
        add_wake Master_Chan (add_wake Slave_Chan (w\<lparr>w_pgid := fg_pgid p, w_signo := signal_of c p\<rparr>)))
     else if \<not> flag kIcanon p then (echo c (p\<lparr>to_slave := ring_put c (to_slave p)\<rparr>), w)
     else if c = cc p ! kVErase \<or> c = 0x7F then
       (if line_len p > 0 then echo_text [8, 32, 8] (p\<lparr>line_len := line_len p - 1\<rparr>) else p, w)
     else if c = 13 \<or> c = 10 then
       (commit_line (echo_text [13, 10] (if line_len p < kLine then add_to_line 10 p else p)), w)
     else if line_len p < kLine then (echo c (add_to_line c p), w)
     else (p, w))"

section \<open>The table of pairs\<close>

text \<open>\<open>fd\<close> is what the table of open files answers when it is asked to hold the new end.\<close>

definition new_pty :: pty where
  "new_pty = \<lparr>p_used = True, to_slave = empty_ring, to_master = empty_ring, line = replicate kLine 0,
     line_len = 0, lflag = (kIsig OR kIcanon) OR kEcho, cc = [0x03, 0x1C, 0x08, 0x1A, 0, 0, 0, 0],
     fg_pgid = 0, p_size = push_bit 16 24 OR 80, masters = 1, slaves = 0\<rparr>"

fun free_pty :: "pty list \<Rightarrow> nat option" where
  "free_pty [] = None"
| "free_pty (p # ps) = (if p_used p then map_option Suc (free_pty ps) else Some 0)"

definition open_pair :: "int \<Rightarrow> pty list \<Rightarrow> int \<times> nat option \<times> pty list" where
  "open_pair fd ps =
     (case free_pty ps of
        None \<Rightarrow> (-1, None, ps)
      | Some i \<Rightarrow>
          if fd < 0 then (-1, None, ps[i := new_pty\<lparr>p_used := False\<rparr>])
          else (fd, Some i, ps[i := new_pty]))"

definition pty_exists :: "int \<Rightarrow> pty list \<Rightarrow> bool" where
  "pty_exists index ps \<longleftrightarrow> index \<ge> 0 \<and> index < int kMaxPtys \<and> p_used (ps ! nat index)"

definition open_slave :: "int \<Rightarrow> int \<Rightarrow> pty list \<Rightarrow> int \<times> pty list" where
  "open_slave fd index ps =
     (if index < 0 \<or> index \<ge> int kMaxPtys \<or> \<not> p_used (ps ! nat index) then (-1, ps)
      else if fd < 0 then (-1, ps)
      else (fd, ps[nat index := (ps ! nat index)\<lparr>slaves := slaves (ps ! nat index) + 1\<rparr>]))"

section \<open>Operations on a pair\<close>

text \<open>\<open>s32\<close> reads the low half of an argument as a signed number.\<close>

definition s32 :: "nat \<Rightarrow> int" where
  "s32 x = (let v = u32 x in if v \<ge> 2147483648 then int v - 4294967296 else int v)"

definition pty_control :: "nat \<Rightarrow> nat \<Rightarrow> pty \<Rightarrow> int \<times> pty \<times> wakes" where
  "pty_control op arg p =
     (if \<not> p_used p then (-1, p, no_wakes)
      else if op = 0 then (fg_pgid p, p, no_wakes)
      else if op = 1 then (0, p\<lparr>fg_pgid := s32 arg\<rparr>, no_wakes)
      else if op = 2 then (int (lflag p), p, no_wakes)
      else if op = 3 then
        let p = p\<lparr>lflag := u32 arg\<rparr> in
        if \<not> flag kIcanon p \<and> line_len p > 0 then (0, commit_line p, add_wake Slave_Chan no_wakes)
        else (0, p, no_wakes)
      else if op = 4 then (int (p_size p), p, no_wakes)
      else if op = 5 then (0, p\<lparr>p_size := u32 arg\<rparr>, no_wakes)
      else (-1, p, no_wakes))"

text \<open>The inner loop of a read: up to \<open>count\<close> bytes, to the end of a line when lines are read.\<close>

fun drain :: "bool \<Rightarrow> nat \<Rightarrow> ring \<Rightarrow> bytes \<times> ring" where
  "drain lines 0 r = ([], r)"
| "drain lines (Suc n) r =
     (if rcount r = 0 then ([], r)
      else let (c, r) = ring_get r in
        if lines \<and> c = 10 then ([c], r)
        else let (cs, r) = drain lines n r in (c # cs, r))"

datatype rd_result = Rd_Error | Rd_Bytes bytes | Rd_Eof | Rd_Sleep | Rd_Interrupted

text \<open>A turn of the loop in \<^verbatim>\<open>read\<close>, its entry, and what follows a wake-up.\<close>

definition pty_read_turn :: "bool \<Rightarrow> nat \<Rightarrow> pty \<Rightarrow> rd_result \<times> pty" where
  "pty_read_turn master count p =
     (let r = (if master then to_master p else to_slave p) in
      if rcount r > 0 then
        let (cs, r) = drain (\<not> master \<and> flag kIcanon p) count r in
        (Rd_Bytes cs, if master then p\<lparr>to_master := r\<rparr> else p\<lparr>to_slave := r\<rparr>)
      else if (if master then slaves p = 0 else masters p = 0) then (Rd_Eof, p)
      else (Rd_Sleep, p))"

definition pty_read :: "bool \<Rightarrow> nat \<Rightarrow> pty \<Rightarrow> rd_result \<times> pty" where
  "pty_read master count p =
     (if \<not> p_used p \<or> count = 0 then (Rd_Error, p) else pty_read_turn master count p)"

definition pty_read_woken :: "bool \<Rightarrow> bool \<Rightarrow> nat \<Rightarrow> pty \<Rightarrow> rd_result \<times> pty" where
  "pty_read_woken signal master count p =
     (if signal then (Rd_Interrupted, p) else pty_read_turn master count p)"

definition pty_write :: "bool \<Rightarrow> bytes \<Rightarrow> pty \<Rightarrow> int \<times> pty \<times> wakes" where
  "pty_write master bs p =
     (if \<not> p_used p then (-1, p, no_wakes)
      else if master then
        let (p, w) = fold pty_key bs (p, no_wakes) in
        (int (length bs), p, add_wake Poll_Chan (add_wake Master_Chan (add_wake Slave_Chan w)))
      else if masters p = 0 then (int (length bs), p, no_wakes)
      else (int (length bs), p\<lparr>to_master := fold ring_put bs (to_master p)\<rparr>,
            add_wake Poll_Chan (add_wake Master_Chan no_wakes)))"

definition pty_reopen :: "bool \<Rightarrow> pty \<Rightarrow> pty" where
  "pty_reopen master p =
     (if \<not> p_used p then p
      else if master then p\<lparr>masters := masters p + 1\<rparr> else p\<lparr>slaves := slaves p + 1\<rparr>)"

definition pty_close :: "bool \<Rightarrow> pty \<Rightarrow> pty \<times> wakes" where
  "pty_close master p =
     (if \<not> p_used p then (p, no_wakes)
      else
        let (p, w) = (if master
              then (p\<lparr>masters := masters p - 1\<rparr>, if masters p \<le> 1 then add_wake Slave_Chan no_wakes else no_wakes)
              else (p\<lparr>slaves := slaves p - 1\<rparr>, if slaves p \<le> 1 then add_wake Master_Chan no_wakes else no_wakes));
            p = (if masters p = 0 \<and> slaves p = 0 then p\<lparr>p_used := False\<rparr> else p)
        in (p, add_wake Poll_Chan w))"

definition pty_readable :: "bool \<Rightarrow> pty \<Rightarrow> bool" where
  "pty_readable master p \<longleftrightarrow>
     \<not> p_used p \<or> rcount (if master then to_master p else to_slave p) > 0
     \<or> (if master then slaves p = 0 else masters p = 0)"

end
