(* ===== verification/Kernel_Pty_Laws.thy ===== *)
theory Kernel_Pty_Laws
  imports Kernel_Pty
begin

text \<open>
  The rings are bounded queues (\<open>bounded_queue\<close>, interpreted on them as \<open>rq\<close>), and the terminal is the
  abstract one of \<open>terminal\<close>, in which the buffers are lists: typing through the line discipline
  commutes with the abstraction. On the abstract side a line typed with corrections is read back
  corrected.
\<close>

section \<open>Bounded queues\<close>

lemma take_take_append: "take n (take n xs @ ys) = take n (xs @ ys)"
  by (cases "length xs \<le> n") simp_all

locale bounded_queue =
  fixes enq :: "'a \<Rightarrow> 'q \<Rightarrow> 'q" and deq :: "'q \<Rightarrow> 'a \<times> 'q" and items :: "'q \<Rightarrow> 'a list"
    and ok :: "'q \<Rightarrow> bool" and room :: nat
  assumes ok_enq: "ok q \<Longrightarrow> ok (enq x q)"
    and ok_deq: "ok q \<Longrightarrow> items q \<noteq> [] \<Longrightarrow> ok (snd (deq q))"
    and items_enq: "ok q \<Longrightarrow> items (enq x q) = (if length (items q) < room then items q @ [x] else items q)"
    and fst_deq: "ok q \<Longrightarrow> items q \<noteq> [] \<Longrightarrow> fst (deq q) = hd (items q)"
    and items_deq: "ok q \<Longrightarrow> items q \<noteq> [] \<Longrightarrow> items (snd (deq q)) = tl (items q)"
    and bounded: "ok q \<Longrightarrow> length (items q) \<le> room"
begin

lemma items_enq_take: "ok q \<Longrightarrow> items (enq x q) = take room (items q @ [x])"
  using bounded by (auto simp: items_enq)

lemma enq_all: "ok q \<Longrightarrow> ok (fold enq xs q) \<and> items (fold enq xs q) = take room (items q @ xs)"
proof (induction xs arbitrary: q)
  case Nil
  then show ?case using bounded by simp
next
  case (Cons x xs)
  have "take room (take room (items q @ [x]) @ xs) = take room (items q @ x # xs)"
    unfolding take_take_append by simp
  then show ?case using Cons ok_enq [of q x] items_enq_take [of q x] by (simp del: take_append)
qed

lemma enq_all_fits:
  "ok q \<Longrightarrow> length (items q) + length xs \<le> room \<Longrightarrow> items (fold enq xs q) = items q @ xs"
  using enq_all by simp

end

section \<open>The ring is one\<close>

definition ring_items :: "ring \<Rightarrow> bytes" where
  "ring_items r = map (\<lambda>i. rdata r ! ((rhead r + i) mod kRing)) [0 ..< rcount r]"

definition ring_ok :: "ring \<Rightarrow> bool" where
  "ring_ok r \<longleftrightarrow> length (rdata r) = kRing \<and> rhead r < kRing \<and> rcount r \<le> kRing
     \<and> rtail r = (rhead r + rcount r) mod kRing"

lemma kRing_pos [simp]: "0 < kRing"
  by (simp add: kRing_def)

lemma length_ring_items [simp]: "length (ring_items r) = rcount r"
  by (simp add: ring_items_def)

lemma ring_items_empty: "ring_items r = [] \<longleftrightarrow> rcount r = 0"
  by (simp add: ring_items_def)

lemma mod_offset_neq:
  fixes h i m n :: nat
  assumes "i < n" "n < m"
  shows "(h + i) mod m \<noteq> (h + n) mod m"
proof
  assume "(h + i) mod m = (h + n) mod m"
  then have "m dvd (h + n) - (h + i)" using assms(1) by (metis mod_eq_dvd_iff_nat nat_add_left_cancel_le less_imp_le)
  then have "m dvd n - i" by simp
  then show False using assms by (simp add: nat_dvd_not_less)
qed

lemma ring_put_items:
  assumes "ring_ok r" "rcount r < kRing"
  shows "ring_items (ring_put c r) = ring_items r @ [c]"
proof -
  have "rdata (ring_put c r) ! ((rhead r + i) mod kRing) = (if i = rcount r then c else rdata r ! ((rhead r + i) mod kRing))"
    if "i \<le> rcount r" for i
    using assms that mod_offset_neq [of i "rcount r" kRing "rhead r"]
    by (auto simp: ring_put_def ring_ok_def)
  then show ?thesis using assms(2) by (simp add: ring_items_def ring_put_def)
qed

lemma ring_get_items:
  assumes "ring_ok r" "rcount r \<noteq> 0"
  shows "fst (ring_get r) = hd (ring_items r)" "ring_items (snd (ring_get r)) = tl (ring_items r)"
proof -
  obtain n where n: "rcount r = Suc n" using assms(2) not0_implies_Suc by blast
  have m: "[0 ..< Suc n] = 0 # map Suc [0 ..< n]" by (simp only: upt_conv_Cons map_Suc_upt)
  have "((rhead r + 1) mod kRing + i) mod kRing = (rhead r + Suc i) mod kRing" for i
    by (metis add.assoc mod_add_left_eq plus_1_eq_Suc)
  then show "fst (ring_get r) = hd (ring_items r)" "ring_items (snd (ring_get r)) = tl (ring_items r)"
    using assms(1) n m by (simp_all add: ring_get_def ring_items_def ring_ok_def)
qed

interpretation rq: bounded_queue ring_put ring_get ring_items ring_ok kRing
proof unfold_locales
  fix q :: ring and x :: byte
  assume ok: "ring_ok q"
  show "ring_ok (ring_put x q)"
    using ok by (auto simp: ring_ok_def ring_put_def mod_Suc_eq)
  show "ring_items (ring_put x q) = (if length (ring_items q) < kRing then ring_items q @ [x] else ring_items q)"
    using ok ring_put_items [OF ok] by (auto simp: ring_ok_def ring_put_def)
  show "length (ring_items q) \<le> kRing" using ok by (simp add: ring_ok_def)
  assume ne: "ring_items q \<noteq> []"
  then have "rcount q \<noteq> 0" by (simp add: ring_items_empty)
  from ring_get_items [OF ok this]
  show "fst (ring_get q) = hd (ring_items q)" "ring_items (snd (ring_get q)) = tl (ring_items q)" .
  obtain n where "rcount q = Suc n" using \<open>rcount q \<noteq> 0\<close> not0_implies_Suc by blast
  then show "ring_ok (snd (ring_get q))"
    using ok mod_add_left_eq [of "Suc (rhead q)" kRing n] by (simp add: ring_ok_def ring_get_def)
qed

lemmas ring_laws = rq.ok_enq rq.enq_all rq.items_enq_take

section \<open>The abstract terminal\<close>

text \<open>
  \<open>ready\<close> is what a program may read, \<open>shown\<close> what the window has yet to draw, \<open>pending\<close> the line being
  typed. The settings are those of the pair.
\<close>

record terminal =
  ready :: bytes
  shown :: bytes
  pending :: bytes
  echoes :: bool
  canonical :: bool
  interrupts :: bool
  control :: bytes

definition view :: "pty \<Rightarrow> terminal" where
  "view p = \<lparr>ready = ring_items (to_slave p), shown = ring_items (to_master p), pending = take (line_len p) (line p),
     echoes = flag kEcho p, canonical = flag kIcanon p, interrupts = flag kIsig p, control = cc p\<rparr>"

definition show_text :: "bytes \<Rightarrow> terminal \<Rightarrow> terminal" where
  "show_text s t = (if echoes t then t\<lparr>shown := take kRing (shown t @ s)\<rparr> else t)"

definition hand_over :: "bytes \<Rightarrow> terminal \<Rightarrow> terminal" where
  "hand_over s t = t\<lparr>ready := take kRing (ready t @ s)\<rparr>"

definition is_interrupt :: "byte \<Rightarrow> terminal \<Rightarrow> bool" where
  "is_interrupt c t \<longleftrightarrow> interrupts t \<and> (c = control t ! kVIntr \<or> c = control t ! kVQuit \<or> c = control t ! kVSusp)"

definition is_erase :: "byte \<Rightarrow> terminal \<Rightarrow> bool" where
  "is_erase c t \<longleftrightarrow> c = control t ! kVErase \<or> c = 0x7F"

text \<open>What one key does.\<close>

definition type_key :: "byte \<Rightarrow> terminal \<Rightarrow> terminal" where
  "type_key c t =
     (if is_interrupt c t then show_text [94, 67, 13, 10] (t\<lparr>pending := []\<rparr>)
      else if \<not> canonical t then show_text [c] (hand_over [c] t)
      else if is_erase c t then (if pending t = [] then t else show_text [8, 32, 8] (t\<lparr>pending := butlast (pending t)\<rparr>))
      else if c = 13 \<or> c = 10 then
        let l = take kLine (pending t @ [10]) in hand_over l (show_text [13, 10] (t\<lparr>pending := []\<rparr>))
      else if length (pending t) < kLine then show_text [c] (t\<lparr>pending := pending t @ [c]\<rparr>)
      else t)"

definition pty_ok :: "pty \<Rightarrow> bool" where
  "pty_ok p \<longleftrightarrow> ring_ok (to_slave p) \<and> ring_ok (to_master p) \<and> length (line p) = kLine \<and> line_len p \<le> kLine"

subsection \<open>Refinement\<close>

lemma flag_simps [simp]:
  "flag b (p\<lparr>to_slave := x\<rparr>) = flag b p" "flag b (p\<lparr>to_master := x\<rparr>) = flag b p"
  "flag b (p\<lparr>line := y\<rparr>) = flag b p" "flag b (p\<lparr>line_len := n\<rparr>) = flag b p"
  by (simp_all add: flag_def)

lemma echo_text_alt:
  "echo_text s p = (if flag kEcho p then p\<lparr>to_master := fold ring_put s (to_master p)\<rparr> else p)"
proof (induction s arbitrary: p)
  case (Cons c s)
  show ?case using Cons [of "echo c p"] by (simp add: echo_text_def echo_def)
qed (simp add: echo_text_def)

lemma echo_text_ok: "pty_ok p \<Longrightarrow> pty_ok (echo_text s p)"
  using rq.enq_all [of "to_master p" s] by (simp add: echo_text_alt pty_ok_def)

lemma view_echo_text: "pty_ok p \<Longrightarrow> view (echo_text s p) = show_text s (view p)"
  using rq.enq_all [of "to_master p" s] by (simp add: echo_text_alt show_text_def view_def pty_ok_def)

lemma echo_is_text: "echo c p = echo_text [c] p"
  by (simp add: echo_text_def)

lemma view_commit:
  assumes "pty_ok p"
  shows "view (commit_line p) = hand_over (pending (view p)) ((view p)\<lparr>pending := []\<rparr>)" "pty_ok (commit_line p)"
proof -
  have "map (\<lambda>i. line p ! i) [0 ..< line_len p] = take (line_len p) (line p)"
    using assms by (intro nth_equalityI) (auto simp: pty_ok_def)
  then show "view (commit_line p) = hand_over (pending (view p)) ((view p)\<lparr>pending := []\<rparr>)" "pty_ok (commit_line p)"
    using assms rq.enq_all [of "to_slave p" "take (line_len p) (line p)"]
    by (simp_all add: commit_line_def view_def hand_over_def pty_ok_def)
qed

lemma view_add_to_line:
  assumes "pty_ok p" "line_len p < kLine"
  shows "view (add_to_line c p) = (view p)\<lparr>pending := pending (view p) @ [c]\<rparr>" "pty_ok (add_to_line c p)"
  using assms by (simp_all add: add_to_line_def view_def pty_ok_def take_Suc_conv_app_nth)

lemma length_pending: "pty_ok p \<Longrightarrow> length (pending (view p)) = line_len p"
  by (simp add: view_def pty_ok_def)

lemma view_erase:
  "pty_ok p \<Longrightarrow> view (p\<lparr>line_len := line_len p - 1\<rparr>) = (view p)\<lparr>pending := butlast (pending (view p))\<rparr>"
  "pty_ok p \<Longrightarrow> pty_ok (p\<lparr>line_len := line_len p - 1\<rparr>)"
  by (auto simp: view_def pty_ok_def butlast_take)

lemma view_fields [simp]:
  "echoes (view p) = flag kEcho p" "canonical (view p) = flag kIcanon p" "interrupts (view p) = flag kIsig p" "control (view p) = cc p"
  by (simp_all add: view_def)

lemma hand_over_show: "hand_over l (show_text s t) = show_text s (hand_over l t)"
  by (simp add: hand_over_def show_text_def)

lemma signal_interrupt: "flag kIsig p \<and> signal_of c p \<noteq> 0 \<longleftrightarrow> is_interrupt c (view p)"
  by (simp add: signal_of_def is_interrupt_def kSigInt_def kSigQuit_def kSigTstp_def)

lemmas pty_key_cases = pty_key_def [unfolded signal_interrupt]

lemma pty_key_refines:
  assumes ok: "pty_ok p"
  shows "view (fst (pty_key c (p, w))) = type_key c (view p) \<and> pty_ok (fst (pty_key c (p, w)))"
proof -
  let ?t = "view p"
  have len: "length (pending ?t) = line_len p" by (rule length_pending [OF ok])
  have clear: "pty_ok (p\<lparr>line_len := 0\<rparr>)" "view (p\<lparr>line_len := 0\<rparr>) = ?t\<lparr>pending := []\<rparr>"
    using ok by (simp_all add: pty_ok_def view_def)
  consider (int) "is_interrupt c ?t" | (raw) "\<not> is_interrupt c ?t" "\<not> canonical ?t"
    | (erase) "\<not> is_interrupt c ?t" "canonical ?t" "is_erase c ?t"
    | (newline) "\<not> is_interrupt c ?t" "canonical ?t" "\<not> is_erase c ?t" "c = 13 \<or> c = 10"
    | (char) "\<not> is_interrupt c ?t" "canonical ?t" "\<not> is_erase c ?t" "\<not> (c = 13 \<or> c = 10)" by blast
  then show ?thesis
  proof cases
    case int
    then show ?thesis using view_echo_text [OF clear(1)] echo_text_ok [OF clear(1)] clear(2)
      by (simp add: pty_key_cases type_key_def)
  next
    case raw
    have "view (p\<lparr>to_slave := ring_put c (to_slave p)\<rparr>) = hand_over [c] ?t" "pty_ok (p\<lparr>to_slave := ring_put c (to_slave p)\<rparr>)"
      using ok rq.items_enq_take [of "to_slave p" c] rq.ok_enq [of "to_slave p" c]
      by (simp_all add: view_def hand_over_def pty_ok_def)
    then show ?thesis using raw view_echo_text echo_text_ok
      by (simp add: pty_key_cases type_key_def echo_is_text)
  next
    case erase
    then show ?thesis
      using ok len view_erase [OF ok] view_echo_text echo_text_ok
      by (auto simp: pty_key_cases type_key_def is_erase_def)
  next
    case newline
    let ?q = "if line_len p < kLine then add_to_line 10 p else p"
    have q: "pty_ok ?q" "pending (view ?q) = take kLine (pending ?t @ [10])"
      "(view ?q)\<lparr>pending := []\<rparr> = ?t\<lparr>pending := []\<rparr>"
      using ok view_add_to_line [OF ok] len by (auto simp: pty_ok_def)
    have s: "view (echo_text [13, 10] ?q) = show_text [13, 10] (view ?q)" "pty_ok (echo_text [13, 10] ?q)"
      using view_echo_text echo_text_ok q(1) by blast+
    have "pending (show_text [13, 10] (view ?q)) = pending (view ?q)"
      "(show_text [13, 10] (view ?q))\<lparr>pending := []\<rparr> = show_text [13, 10] ((view ?q)\<lparr>pending := []\<rparr>)"
      by (simp_all add: show_text_def)
    then have "view (commit_line (echo_text [13, 10] ?q)) = hand_over (take kLine (pending ?t @ [10])) (show_text [13, 10] (?t\<lparr>pending := []\<rparr>))"
      using view_commit(1) [OF s(2)] s(1) q(2,3) by simp
    moreover have "fst (pty_key c (p, w)) = commit_line (echo_text [13, 10] ?q)"
      using newline by (auto simp: pty_key_cases is_erase_def)
    moreover have "type_key c ?t = hand_over (take kLine (pending ?t @ [10])) (show_text [13, 10] (?t\<lparr>pending := []\<rparr>))"
      using newline by (auto simp: type_key_def Let_def)
    ultimately show ?thesis using view_commit(2) [OF s(2)] by simp
  next
    case char
    then show ?thesis
      using ok len view_add_to_line [OF ok] view_echo_text echo_text_ok
      by (auto simp: pty_key_cases type_key_def is_erase_def echo_is_text)
  qed
qed

lemma pty_keys_refine:
  "pty_ok p \<Longrightarrow> view (fst (fold pty_key ks (p, w))) = fold type_key ks (view p) \<and> pty_ok (fst (fold pty_key ks (p, w)))"
proof (induction ks arbitrary: p w)
  case (Cons c ks)
  obtain p' w' where k: "pty_key c (p, w) = (p', w')" by fastforce
  with pty_key_refines [OF Cons.prems, of c w] have "view p' = type_key c (view p)" "pty_ok p'" by simp_all
  then show ?case using Cons.IH [of p' w'] k by simp
qed simp

lemma echo_text_used [simp]: "p_used (echo_text s p) = p_used p"
  by (simp add: echo_text_alt)

lemma pty_key_used: "p_used (fst (pty_key c (p, w))) = p_used p"
  by (simp add: pty_key_def echo_is_text commit_line_def add_to_line_def)

lemma pty_keys_used: "p_used (fst (fold pty_key ks (p, w))) = p_used p"
proof (induction ks arbitrary: p w)
  case (Cons c ks)
  then show ?case using pty_key_used [of c p w] by (metis fold_simps(2) prod.collapse)
qed simp

lemma slave_output:
  assumes "pty_ok p"
  shows "view (p\<lparr>to_master := fold ring_put bs (to_master p)\<rparr>) = (view p)\<lparr>shown := take kRing (shown (view p) @ bs)\<rparr>"
    "pty_ok (p\<lparr>to_master := fold ring_put bs (to_master p)\<rparr>)"
  using assms rq.enq_all [of "to_master p" bs] by (simp_all add: view_def pty_ok_def)

subsection \<open>Reading\<close>

text \<open>What a read takes from the front: up to \<open>n\<close> bytes, and no further than a newline if lines are read.\<close>

fun front :: "bool \<Rightarrow> nat \<Rightarrow> bytes \<Rightarrow> bytes" where
  "front lines 0 xs = []"
| "front lines (Suc n) [] = []"
| "front lines (Suc n) (x # xs) = (if lines \<and> x = 10 then [x] else x # front lines n xs)"

lemma drain_front:
  assumes "ring_ok r"
  shows "fst (drain lines n r) = front lines n (ring_items r)
    \<and> ring_items (snd (drain lines n r)) = drop (length (front lines n (ring_items r))) (ring_items r)
    \<and> ring_ok (snd (drain lines n r))"
  using assms
proof (induction n arbitrary: r)
  case (Suc n)
  show ?case
  proof (cases "ring_items r")
    case Nil
    then have "rcount r = 0" using ring_items_empty by blast
    with Nil Suc.prems show ?thesis by simp
  next
    case (Cons x xs)
    then have ne: "ring_items r \<noteq> []" "rcount r \<noteq> 0" using ring_items_empty [of r] by auto
    obtain c r' where g: "ring_get r = (c, r')" by fastforce
    then have r': "c = x" "ring_items r' = xs" "ring_ok r'"
      using rq.fst_deq [OF Suc.prems ne(1)] rq.items_deq [OF Suc.prems ne(1)] rq.ok_deq [OF Suc.prems ne(1)] Cons by simp_all
    with Suc.IH [OF r'(3)] ne(2) g Cons show ?thesis by (simp add: case_prod_beta)
  qed
qed simp

definition taken :: "bool \<Rightarrow> nat \<Rightarrow> terminal \<Rightarrow> terminal" where
  "taken lines n t = t\<lparr>ready := drop (length (front lines n (ready t))) (ready t)\<rparr>"

lemma slave_read:
  assumes "pty_ok p" "p_used p" "0 < n" "ready (view p) \<noteq> []"
  shows "\<exists>p'. pty_read False n p = (Rd_Bytes (front (canonical (view p)) n (ready (view p))), p')
    \<and> view p' = taken (canonical (view p)) n (view p) \<and> pty_ok p'"
proof -
  have "rcount (to_slave p) > 0" using assms(4) by (simp add: view_def ring_items_empty)
  moreover obtain cs r where d: "drain (flag kIcanon p) n (to_slave p) = (cs, r)" by fastforce
  moreover have "ring_ok (to_slave p)" using assms(1) by (simp add: pty_ok_def)
  from drain_front [OF this, of "flag kIcanon p" n] d
  have "cs = front (flag kIcanon p) n (ring_items (to_slave p))"
    "ring_items r = drop (length (front (flag kIcanon p) n (ring_items (to_slave p)))) (ring_items (to_slave p))" "ring_ok r"
    by simp_all
  ultimately show ?thesis using assms
    by (simp add: pty_read_def pty_read_turn_def view_def taken_def pty_ok_def)
qed

section \<open>Typing\<close>

text \<open>
  C25. What is typed goes through the line discipline of the abstract terminal: writing keys into the
  master end is the sequence of their effects on lists of at most 4096 bytes with one pending line of
  at most 1024, and what a program prints is appended for the window as it is.
\<close>

theorem typing_refines:
  assumes "pty_ok p" "p_used p"
  shows "(\<exists>p' w. pty_write True ks p = (int (length ks), p', w) \<and> view p' = fold type_key ks (view p) \<and> pty_ok p')
    \<and> (0 < masters p \<longrightarrow> (\<exists>p' w. pty_write False ks p = (int (length ks), p', w)
        \<and> view p' = (view p)\<lparr>shown := take kRing (shown (view p) @ ks)\<rparr> \<and> pty_ok p'))"
proof -
  obtain p1 w1 where f: "fold pty_key ks (p, no_wakes) = (p1, w1)" by fastforce
  with pty_keys_refine [OF assms(1), of ks no_wakes] have "view p1 = fold type_key ks (view p)" "pty_ok p1" by simp_all
  then show ?thesis using assms f slave_output [OF assms(1), of ks] by (simp add: pty_write_def)
qed

text \<open>Keys that only edit the line, and the line they make.\<close>

definition edit :: "terminal \<Rightarrow> byte \<Rightarrow> bytes \<Rightarrow> bytes" where
  "edit t c l = (if is_erase c t then butlast l else l @ [c])"

definition plain :: "terminal \<Rightarrow> byte \<Rightarrow> bool" where
  "plain t c \<longleftrightarrow> \<not> is_interrupt c t \<and> c \<noteq> 13 \<and> c \<noteq> 10"

definition same_settings :: "terminal \<Rightarrow> terminal \<Rightarrow> bool" where
  "same_settings t u \<longleftrightarrow> echoes t = echoes u \<and> canonical t = canonical u \<and> interrupts t = interrupts u \<and> control t = control u"

lemma same_settingsD:
  assumes "same_settings t u"
  shows "is_erase c t = is_erase c u" "is_interrupt c t = is_interrupt c u" "plain t c = plain u c" "edit t c l = edit u c l"
  using assms by (simp_all add: same_settings_def is_erase_def is_interrupt_def plain_def edit_def)

lemma type_plain:
  assumes "canonical t" "plain t c" "length (pending t) < kLine"
  shows "pending (type_key c t) = edit t c (pending t)" "ready (type_key c t) = ready t" "same_settings (type_key c t) t"
  using assms by (auto simp: type_key_def plain_def edit_def same_settings_def show_text_def)

lemma edit_length: "length (edit t c l) \<le> Suc (length l)"
  by (auto simp: edit_def)

lemma type_line:
  assumes "canonical t" "\<forall>c \<in> set ks. plain t c" "length (pending t) + length ks \<le> kLine"
  shows "pending (fold type_key ks t) = fold (edit t) ks (pending t) \<and> ready (fold type_key ks t) = ready t
    \<and> same_settings (fold type_key ks t) t \<and> length (pending (fold type_key ks t)) \<le> length (pending t) + length ks"
  using assms
proof (induction ks arbitrary: t)
  case Nil
  then show ?case by (simp add: same_settings_def)
next
  case (Cons c ks)
  let ?u = "type_key c t"
  have u: "pending ?u = edit t c (pending t)" "ready ?u = ready t" "same_settings ?u t"
    using type_plain [of t c] Cons.prems by simp_all
  have "fold (edit ?u) ks l = fold (edit t) ks l" for l
    using same_settingsD(4) [OF u(3)] by (metis (no_types, lifting) fold_cong ext)
  moreover have "canonical ?u" "\<forall>c \<in> set ks. plain ?u c"
    using u(3) Cons.prems same_settingsD(3) [OF u(3)] by (simp_all add: same_settings_def)
  moreover have "length (pending ?u) + length ks \<le> kLine" "length (pending ?u) \<le> Suc (length (pending t))"
    using Cons.prems(3) edit_length [of t c "pending t"] u(1) by simp_all
  ultimately show ?case using Cons.IH [of ?u] u by (auto simp: same_settings_def)
qed

lemma front_line:
  "10 \<notin> set l \<Longrightarrow> length l < n \<Longrightarrow> front True n (l @ [10]) = l @ [10]"
proof (induction l arbitrary: n)
  case Nil
  then show ?case by (cases n) simp_all
next
  case (Cons x l)
  then show ?case by (cases n) auto
qed

lemma edited_no_newline:
  "\<forall>c \<in> set ks. plain t c \<Longrightarrow> 10 \<notin> set l \<Longrightarrow> 10 \<notin> set (fold (edit t) ks l)"
proof (induction ks arbitrary: l)
  case (Cons c ks)
  then have "10 \<notin> set (edit t c l)" by (auto simp: edit_def plain_def dest: in_set_butlastD)
  with Cons show ?case by simp
qed simp

text \<open>
  C26. A line is read as it was corrected. When lines are assembled and nothing is waiting, then after
  fewer than 1024 keys that are not interrupts and a return or newline, a read of the other end gives
  exactly the keys with each backspace taking back the one before it, and one newline; and nothing is
  left over.
\<close>

theorem corrected_line_is_read:
  assumes "pty_ok p" "p_used p" "canonical (view p)" "pending (view p) = []" "ready (view p) = []"
    "\<forall>c \<in> set ks. plain (view p) c" "length ks < kLine" "e \<in> {10, 13}" "\<not> is_interrupt e (view p)" "\<not> is_erase e (view p)"
    "pty_write True (ks @ [e]) p = (n, p', w)" "kLine \<le> count"
  shows "\<exists>p''. pty_read False count p' = (Rd_Bytes (fold (edit (view p)) ks [] @ [10]), p'')
    \<and> ready (view p'') = [] \<and> pending (view p'') = []"
proof -
  let ?t = "view p" and ?u = "fold type_key ks (view p)"
  let ?l = "fold (edit ?t) ks []"
  have p': "view p' = type_key e ?u" "pty_ok p'" "p_used p'"
    using pty_keys_refine [OF assms(1), of "ks @ [e]" no_wakes] pty_keys_used [of "ks @ [e]" p no_wakes] assms(2,11)
    by (auto simp: pty_write_def case_prod_beta)
  note line = type_line [OF assms(3,6)]
  have u: "pending ?u = ?l" "ready ?u = []" "same_settings ?u ?t" "length ?l < kLine"
    using line assms(4,5,7) by auto
  have "\<not> is_interrupt e ?u" "\<not> is_erase e ?u" "canonical ?u"
    using same_settingsD [OF u(3)] assms(3,9,10) u(3) by (simp_all add: same_settings_def)
  then have k: "type_key e ?u = hand_over (?l @ [10]) (show_text [13, 10] (?u\<lparr>pending := []\<rparr>))"
    using assms(8) u by (auto simp: type_key_def)
  have room: "length (?l @ [10]) \<le> kRing" using u(4) by (simp add: kLine_def kRing_def)
  have t': "ready (view p') = ?l @ [10]" "pending (view p') = []" "canonical (view p')"
    using p'(1) k u \<open>canonical ?u\<close> room by (simp_all add: hand_over_def show_text_def)
  have f: "front True count (?l @ [10]) = ?l @ [10]"
    using front_line [OF edited_no_newline [OF assms(6)]] u(4) assms(12) by simp
  have "0 < count" using assms(12) by (simp add: kLine_def)
  from slave_read [OF p'(2) p'(3) this] t' f show ?thesis by (auto simp: taken_def)
qed


text \<open>
  A line of 1024 characters loses its newline: the return that ends it finds no room for one, so the
  program is handed the characters without the end of the line, and a program that reads lines sees it
  run into the next.
\<close>

theorem full_line_loses_newline:
  assumes "pty_ok p" "p_used p" "canonical (view p)" "length (pending (view p)) = kLine" "e \<in> {10, 13}"
    "\<not> is_interrupt e (view p)" "\<not> is_erase e (view p)"
  shows "\<exists>p' w. pty_write True [e] p = (1, p', w) \<and> pending (view p') = []
    \<and> ready (view p') = take kRing (ready (view p) @ pending (view p))"
proof -
  obtain p' w' where k: "pty_key e (p, no_wakes) = (p', w')" by fastforce
  then have "view p' = type_key e (view p)" using pty_key_refines [OF assms(1), of e no_wakes] by simp
  then have "pending (view p') = []" "ready (view p') = take kRing (ready (view p) @ pending (view p))"
    using assms by (auto simp: type_key_def hand_over_def show_text_def)
  then show ?thesis using assms(2) k by (simp add: pty_write_def)
qed

section \<open>Every operation keeps the buffers in bounds\<close>

datatype pop = P_Write bool bytes | P_Read bool nat | P_Woken bool bool nat | P_Control nat nat | P_Reopen bool | P_Close bool

fun pexec :: "pop \<Rightarrow> pty \<Rightarrow> pty" where
  "pexec (P_Write master bs) p = fst (snd (pty_write master bs p))"
| "pexec (P_Read master n) p = snd (pty_read master n p)"
| "pexec (P_Woken signal master n) p = snd (pty_read_woken signal master n p)"
| "pexec (P_Control op arg) p = fst (snd (pty_control op arg p))"
| "pexec (P_Reopen master) p = pty_reopen master p"
| "pexec (P_Close master) p = fst (pty_close master p)"

lemma pty_read_turn_ok: "pty_ok p \<Longrightarrow> pty_ok (snd (pty_read_turn master n p))"
  using drain_front [of "to_slave p"] drain_front [of "to_master p"]
  by (simp add: pty_read_turn_def pty_ok_def Let_def case_prod_beta)

lemma pty_ok_settings [simp]:
  "pty_ok (q\<lparr>lflag := n\<rparr>) = pty_ok q" "pty_ok (q\<lparr>fg_pgid := i\<rparr>) = pty_ok q" "pty_ok (q\<lparr>p_size := n\<rparr>) = pty_ok q"
  "pty_ok (q\<lparr>masters := n\<rparr>) = pty_ok q" "pty_ok (q\<lparr>slaves := n\<rparr>) = pty_ok q" "pty_ok (q\<lparr>p_used := b\<rparr>) = pty_ok q"
  by (simp_all add: pty_ok_def)

lemma pexec_ok: "pty_ok p \<Longrightarrow> pty_ok (pexec op p)"
proof (cases op)
  case (P_Write master bs)
  assume "pty_ok p"
  then show ?thesis using P_Write pty_keys_refine [of p bs no_wakes] slave_output(2) [of p bs]
    by (simp add: pty_write_def case_prod_beta)
next
  case (P_Control op' arg)
  assume ok: "pty_ok p"
  show ?thesis using ok P_Control view_commit(2) [of "p\<lparr>lflag := u32 arg\<rparr>"] by (simp add: pty_control_def Let_def)
qed (auto simp: pty_read_def pty_read_woken_def pty_read_turn_ok pty_reopen_def pty_close_def Let_def)

lemma new_pty_ok: "pty_ok new_pty"
  by (simp add: new_pty_def pty_ok_def ring_ok_def empty_ring_def)

text \<open>
  C28. Whatever is written, read and set on a fresh pair, in any order, the rings stay rings - their heads,
  tails and counts inside the 4096 bytes and in step - and the line being typed inside its 1024.
\<close>

theorem pty_stays_in_bounds:
  "ring_ok (to_slave (fold pexec ops new_pty)) \<and> ring_ok (to_master (fold pexec ops new_pty))
    \<and> line_len (fold pexec ops new_pty) \<le> length (line (fold pexec ops new_pty))"
proof -
  have "pty_ok (fold pexec ops p)" if "pty_ok p" for p
    using that by (induction ops arbitrary: p) (simp_all add: pexec_ok)
  from this [OF new_pty_ok] show ?thesis by (simp add: pty_ok_def)
qed

text \<open>
  C29. Poll tells the truth: an open end is reported readable exactly when a read of it would not sleep.
\<close>

theorem readable_iff_read_returns:
  assumes "p_used p" "0 < n"
  shows "pty_readable master p \<longleftrightarrow> fst (pty_read master n p) \<noteq> Rd_Sleep"
  using assms by (auto simp: pty_readable_def pty_read_def pty_read_turn_def Let_def case_prod_beta)

section \<open>Concrete terminals\<close>

lemma new_pty_view:
  "view new_pty = \<lparr>ready = [], shown = [], pending = [], echoes = True, canonical = True, interrupts = True,
     control = [0x03, 0x1C, 0x08, 0x1A, 0, 0, 0, 0]\<rparr>"
  by (simp add: view_def new_pty_def ring_items_def empty_ring_def flag_def kIsig_def kIcanon_def kEcho_def)

lemmas demo_keys = is_interrupt_def is_erase_def plain_def kVIntr_def kVQuit_def kVErase_def kVSusp_def new_pty_view

theorem typing_refines_witness:
  "\<exists>p' w. pty_write True [108, 115, 13] new_pty = (3, p', w) \<and> ready (view p') = [108, 115, 10]"
  using typing_refines [OF new_pty_ok, of "[108, 115, 13]"]
  by (auto simp: new_pty_def [THEN arg_cong [of _ _ p_used]] type_key_def demo_keys show_text_def hand_over_def kLine_def kRing_def)

theorem corrected_line_is_read_witness:
  "\<exists>p' w p''. pty_write True ([108, 116, 8, 115] @ [13]) new_pty = (5, p', w)
    \<and> pty_read False 2000 p' = (Rd_Bytes [108, 115, 10], p'')"
proof -
  obtain n p' w where w: "pty_write True ([108, 116, 8, 115] @ [13]) new_pty = (n, p', w)" by (metis prod_cases3)
  have u: "p_used new_pty" by (simp add: new_pty_def)
  then have "n = 5" using w by (simp add: pty_write_def case_prod_beta)
  moreover have "\<exists>p''. pty_read False 2000 p' = (Rd_Bytes (fold (edit (view new_pty)) [108, 116, 8, 115] [] @ [10]), p'')"
    using corrected_line_is_read [OF new_pty_ok u _ _ _ _ _ _ _ _ w, of 2000] by (auto simp: demo_keys kLine_def)
  ultimately show ?thesis using w by (auto simp: edit_def demo_keys)
qed


theorem full_line_loses_newline_witness:
  "\<exists>p' w. pty_write True [13] (new_pty\<lparr>line := replicate kLine 65, line_len := kLine\<rparr>) = (1, p', w)
    \<and> ready (view p') = replicate kLine 65"
proof -
  let ?p = "new_pty\<lparr>line := replicate kLine 65, line_len := kLine\<rparr>"
  have v: "view ?p = (view new_pty)\<lparr>pending := replicate kLine 65\<rparr>" "pty_ok ?p" "p_used ?p"
    using new_pty_ok by (simp_all add: view_def pty_ok_def new_pty_def flag_def)
  have "kLine \<le> kRing" by (simp add: kLine_def kRing_def)
  then show ?thesis using full_line_loses_newline [OF v(2,3), of 13] v(1) by (auto simp: demo_keys)
qed

theorem readable_iff_read_returns_witness:
  "\<not> pty_readable False new_pty \<and> fst (pty_read False 80 new_pty) = Rd_Sleep"
proof -
  have "p_used new_pty" "(0 :: nat) < 80" by (simp_all add: new_pty_def)
  from readable_iff_read_returns [OF this, of False]
  have "pty_readable False new_pty \<longleftrightarrow> fst (pty_read False 80 new_pty) \<noteq> Rd_Sleep" .
  moreover have "\<not> pty_readable False new_pty" by (simp add: pty_readable_def new_pty_def empty_ring_def)
  ultimately show ?thesis by blast
qed

end
