(* ===== verification/Kernel_Heap.thy ===== *)
theory Kernel_Heap
  imports Leah_Prelude
begin

text \<open>
  \<^verbatim>\<open>kernel/mm/heap.cpp\<close>: the kernel's heap, a list of blocks in address order with a header in front
  of each. Memory is one map per field of a header, from the address of the header, so a stale header keeps its values until it is written again. Address 0
  is the null pointer. \<open>avail\<close> is the number of pages the frame allocator and the page tables will give
  before one of them refuses; \<open>None\<close> is a panic or a walk that does not end. Sizes a caller asks for wrap
  at 64 bits; addresses do not, since the region is 64 TiB long and backed by real frames.
\<close>

definition kHeapBase :: nat where "kHeapBase = 0xFFFFC00000000000"
definition kGrowthPages :: nat where "kGrowthPages = 16"
definition kMagic :: nat where "kMagic = 0x1EA4B10C"
definition kHeader :: nat where "kHeader = 32"

abbreviation page_size :: nat where "page_size \<equiv> 4096"

record heap =
  bsize :: "nat \<Rightarrow> nat"
  bprev :: "nat \<Rightarrow> nat"
  bnext :: "nat \<Rightarrow> nat"
  bflag :: "nat \<Rightarrow> nat"
  bmagic :: "nat \<Rightarrow> nat"
  g_first :: nat
  g_last :: nat
  g_break :: nat
  g_size :: nat
  g_used :: nat

abbreviation bfree :: "heap \<Rightarrow> nat \<Rightarrow> bool" where "bfree h b \<equiv> bflag h b \<noteq> 0"

definition align_up :: "nat \<Rightarrow> nat \<Rightarrow> nat" where
  "align_up value alignment = u64 (value + alignment - 1) div alignment * alignment"

definition set_size :: "nat \<Rightarrow> nat \<Rightarrow> heap \<Rightarrow> heap" where
  "set_size b n h = h\<lparr>bsize := (bsize h)(b := n)\<rparr>"
definition set_prev :: "nat \<Rightarrow> nat \<Rightarrow> heap \<Rightarrow> heap" where
  "set_prev b n h = h\<lparr>bprev := (bprev h)(b := n)\<rparr>"
definition set_next :: "nat \<Rightarrow> nat \<Rightarrow> heap \<Rightarrow> heap" where
  "set_next b n h = h\<lparr>bnext := (bnext h)(b := n)\<rparr>"
definition set_free :: "nat \<Rightarrow> bool \<Rightarrow> heap \<Rightarrow> heap" where
  "set_free b f h = h\<lparr>bflag := (bflag h)(b := of_bool f)\<rparr>"

text \<open>A header written in full.\<close>

definition new_block :: "nat \<Rightarrow> nat \<Rightarrow> nat \<Rightarrow> nat \<Rightarrow> heap \<Rightarrow> heap" where
  "new_block b len prev nxt h =
     h\<lparr>bsize := (bsize h)(b := len), bprev := (bprev h)(b := prev), bnext := (bnext h)(b := nxt),
       bflag := (bflag h)(b := 1), bmagic := (bmagic h)(b := kMagic)\<rparr>"

text \<open>The block that describes freshly mapped pages, at the end of the list.\<close>

definition append_block :: "nat \<Rightarrow> nat \<Rightarrow> heap \<Rightarrow> heap" where
  "append_block start added h =
     (let h = new_block start (added - kHeader) (g_last h) 0 (h\<lparr>g_size := g_size h + added\<rparr>);
          h = (if g_last h \<noteq> 0 then set_next (g_last h) start h else h\<lparr>g_first := start\<rparr>)
      in h\<lparr>g_last := start\<rparr>)"

definition join_last :: "nat \<Rightarrow> heap \<Rightarrow> heap" where
  "join_last b h =
     (let prev = bprev h b in
      if prev \<noteq> 0 \<and> bfree h prev
      then (set_next prev 0 (set_size prev (bsize h prev + (kHeader + bsize h b)) h))\<lparr>g_last := prev\<rparr>
      else h)"

text \<open>Pages that were mapped before a failure stay mapped, beyond the last block.\<close>

definition pages_for :: "nat \<Rightarrow> nat" where
  "pages_for bytes =
     (let pages = align_up (u64 (bytes + kHeader)) page_size div page_size
      in if pages < kGrowthPages then kGrowthPages else pages)"

definition heap_grow :: "nat \<Rightarrow> nat \<Rightarrow> heap \<Rightarrow> bool \<times> heap" where
  "heap_grow avail bytes h =
     (let count = pages_for bytes; start = g_break h in
      if avail < count then (False, h\<lparr>g_break := g_break h + avail * page_size\<rparr>)
      else (True, join_last start (append_block start (count * page_size)
                    (h\<lparr>g_break := g_break h + count * page_size\<rparr>))))"

definition split_block :: "nat \<Rightarrow> nat \<Rightarrow> heap \<Rightarrow> heap" where
  "split_block b wanted h =
     (if bsize h b < u64 (wanted + kHeader + 16) then h
      else
        let rest = b + kHeader + wanted;
            h = new_block rest (bsize h b - wanted - kHeader) b (bnext h b) h;
            h = (if bnext h b \<noteq> 0 then set_prev (bnext h b) rest h else h\<lparr>g_last := rest\<rparr>)
        in set_size b wanted (set_next b rest h))"

definition merge_next :: "nat \<Rightarrow> heap \<Rightarrow> heap" where
  "merge_next b h =
     (let n = bnext h b in
      if n \<noteq> 0 \<and> bfree h n then
        let h = set_next b (bnext h n) (set_size b (bsize h b + (kHeader + bsize h n)) h) in
        if bnext h n \<noteq> 0 then set_prev (bnext h n) b h else h\<lparr>g_last := b\<rparr>
      else h)"

definition merge_prev :: "nat \<Rightarrow> heap \<Rightarrow> heap" where
  "merge_prev b h =
     (let p = bprev h b in
      if p \<noteq> 0 \<and> bfree h p then
        let h = set_next p (bnext h b) (set_size p (bsize h p + (kHeader + bsize h b)) h) in
        if bnext h b \<noteq> 0 then set_prev (bnext h b) p h else h\<lparr>g_last := p\<rparr>
      else h)"

definition coalesce :: "nat \<Rightarrow> heap \<Rightarrow> heap" where
  "coalesce b h = merge_prev b (merge_next b h)"

text \<open>The walk of \<^verbatim>\<open>allocate\<close> along the list, to the first block that fits, or the null pointer.\<close>

partial_function (option) first_fit :: "heap \<Rightarrow> nat \<Rightarrow> nat \<Rightarrow> nat option" where
  "first_fit h wanted b =
     (if b = 0 then Some 0
      else if \<not> bfree h b \<or> bsize h b < wanted then first_fit h wanted (bnext h b)
      else Some b)"

declare first_fit.simps [code]

definition take_block :: "nat \<Rightarrow> nat \<Rightarrow> heap \<Rightarrow> heap" where
  "take_block b wanted h =
     (let h = set_free b False (split_block b wanted h) in h\<lparr>g_used := g_used h + bsize h b\<rparr>)"

definition allocate :: "nat \<Rightarrow> nat \<Rightarrow> heap \<Rightarrow> (nat \<times> heap) option" where
  "allocate avail bytes h =
     (if bytes = 0 then Some (0, h)
      else
        let wanted = align_up bytes 16 in
        (case first_fit h wanted (g_first h) of
           None \<Rightarrow> None
         | Some b \<Rightarrow>
             if b \<noteq> 0 then Some (b + kHeader, take_block b wanted h)
             else
               let (ok, h) = heap_grow avail wanted h in
               if \<not> ok then Some (0, h)
               else (case first_fit h wanted (g_first h) of
                       None \<Rightarrow> None
                     | Some b \<Rightarrow> if b \<noteq> 0 then Some (b + kHeader, take_block b wanted h) else Some (0, h))))"

text \<open>
  The 64-bit word just below an aligned pointer is where a header there would keep \<^verbatim>\<open>free\<close> and
  \<^verbatim>\<open>magic\<close>.
\<close>

definition set_slack :: "nat \<Rightarrow> nat \<Rightarrow> heap \<Rightarrow> heap" where
  "set_slack p n h = h\<lparr>bflag := (bflag h)(p - kHeader := n mod 4294967296),
     bmagic := (bmagic h)(p - kHeader := n div 4294967296)\<rparr>"

definition get_slack :: "nat \<Rightarrow> heap \<Rightarrow> nat" where
  "get_slack p h = bmagic h (p - kHeader) * 4294967296 + bflag h (p - kHeader)"

definition allocate_aligned :: "nat \<Rightarrow> nat \<Rightarrow> nat \<Rightarrow> heap \<Rightarrow> (nat \<times> heap) option" where
  "allocate_aligned avail bytes alignment h =
     (if alignment \<le> 16 then allocate avail bytes h
      else (case allocate avail (u64 (bytes + alignment + 8)) h of
          None \<Rightarrow> None
        | Some (raw, h) \<Rightarrow>
            if raw = 0 then Some (0, h)
            else let aligned = align_up (raw + 8) alignment
                 in Some (aligned, set_slack aligned (aligned - raw) h)))"

definition release_block :: "nat \<Rightarrow> heap \<Rightarrow> heap option" where
  "release_block b h =
     (if bfree h b then None
      else Some (coalesce b (set_free b True (h\<lparr>g_used := g_used h - bsize h b\<rparr>))))"

definition release :: "nat \<Rightarrow> heap \<Rightarrow> heap option" where
  "release p h =
     (if p = 0 then Some h
      else if bmagic h (p - kHeader) = kMagic then release_block (p - kHeader) h
      else
        let b = p - get_slack p h - kHeader in
        if bmagic h b = kMagic then release_block b h else None)"

text \<open>Before the first page is mapped, and the initial region.\<close>

definition no_heap :: "(nat \<Rightarrow> nat) \<Rightarrow> heap" where
  "no_heap junk = \<lparr>bsize = junk, bprev = junk, bnext = junk, bflag = junk, bmagic = junk,
     g_first = 0, g_last = 0, g_break = kHeapBase, g_size = 0, g_used = 0\<rparr>"

definition heap_init :: "nat \<Rightarrow> (nat \<Rightarrow> nat) \<Rightarrow> heap option" where
  "heap_init avail junk =
     (let (ok, h) = heap_grow avail (kGrowthPages * page_size) (no_heap junk) in if ok then Some h else None)"

end
