(* ===== verification/Kernel_Heap_Laws.thy ===== *)
theory Kernel_Heap_Laws
  imports Kernel_Heap
begin

text \<open>
  The linked headers represent a list of blocks in address order (\<open>rep\<close>). Splitting and merging are
  operations on that list, which stays spaced out, has no two free neighbours, and accounts for the
  bytes in use. On it an allocation is disjoint from every other, and a release gives back just what
  was allocated.
\<close>

section \<open>Doubly linked lists\<close>

text \<open>A block: where its header is, the bytes behind it, and whether it is free.\<close>

type_synonym block_info = "nat \<times> nat \<times> bool"

fun dll :: "heap \<Rightarrow> nat \<Rightarrow> nat \<Rightarrow> block_info list \<Rightarrow> nat \<Rightarrow> nat \<Rightarrow> bool" where
  "dll h p c [] l n \<longleftrightarrow> c = n \<and> l = p"
| "dll h p c ((a, s, f) # bs) l n \<longleftrightarrow> c = a \<and> a \<noteq> 0 \<and> bprev h a = p \<and> bsize h a = s \<and> bfree h a = f
     \<and> bmagic h a = kMagic \<and> dll h a (bnext h a) bs l n"

definition rep :: "heap \<Rightarrow> block_info list \<Rightarrow> bool" where
  "rep h bs \<longleftrightarrow> dll h 0 (g_first h) bs (g_last h) 0"

fun addrs :: "block_info list \<Rightarrow> nat set" where
  "addrs [] = {}"
| "addrs ((a, s, f) # bs) = insert a (addrs bs)"

fun separate :: "block_info list \<Rightarrow> bool" where
  "separate [] = True"
| "separate ((a, s, f) # bs) = (a \<notin> addrs bs \<and> separate bs)"

lemma addrs_append [simp]: "addrs (xs @ ys) = addrs xs \<union> addrs ys"
  by (induction xs rule: addrs.induct) auto

lemma separate_append [simp]: "separate (xs @ ys) \<longleftrightarrow> separate xs \<and> separate ys \<and> addrs xs \<inter> addrs ys = {}"
  by (induction xs rule: addrs.induct) auto

lemma addrs_mem: "(a, s, f) \<in> set bs \<Longrightarrow> a \<in> addrs bs"
  by (induction bs rule: addrs.induct) auto

lemma dll_append:
  "dll h p c (xs @ ys) l n \<longleftrightarrow> (\<exists>k m. dll h p c xs k m \<and> dll h k m ys l n)"
proof (induction xs arbitrary: p c)
  case (Cons x xs)
  then show ?case by (cases x) simp
qed simp

text \<open>A list does not see changes to headers that are not its own.\<close>

definition headers_agree :: "nat set \<Rightarrow> heap \<Rightarrow> heap \<Rightarrow> bool" where
  "headers_agree A h h' \<longleftrightarrow> (\<forall>a \<in> A. bsize h' a = bsize h a \<and> bprev h' a = bprev h a \<and> bnext h' a = bnext h a
     \<and> bflag h' a = bflag h a \<and> bmagic h' a = bmagic h a)"

lemma dll_agree: "headers_agree (addrs bs) h h' \<Longrightarrow> dll h' p c bs l n = dll h p c bs l n"
  by (induction bs arbitrary: p c rule: addrs.induct) (auto simp: headers_agree_def)

lemmas heap_fields = set_size_def set_prev_def set_next_def set_free_def new_block_def

lemma dll_addrs_pos: "dll h p c bs l n \<Longrightarrow> 0 \<notin> addrs bs"
  by (induction bs arbitrary: p c rule: addrs.induct) auto

text \<open>The block at a place in the list, with what surrounds it.\<close>

lemma rep_at:
  assumes "rep h (xs @ (b, s, f) # ys)"
  shows "dll h 0 (g_first h) xs (bprev h b) b" "dll h b (bnext h b) ys (g_last h) 0"
    "b \<noteq> 0" "bsize h b = s" "bfree h b = f" "bmagic h b = kMagic"
  using assms by (auto simp: rep_def dll_append)

lemma rep_atI:
  assumes "dll h 0 (g_first h) xs (bprev h b) b" "dll h b (bnext h b) ys (g_last h) 0"
    "b \<noteq> 0" "bsize h b = s" "bfree h b = f" "bmagic h b = kMagic"
  shows "rep h (xs @ (b, s, f) # ys)"
  using assms by (auto simp: rep_def dll_append)

lemma dll_first: "dll h p c bs l n \<Longrightarrow> c = (case bs of [] \<Rightarrow> n | (a, s, f) # _ \<Rightarrow> a)"
  by (cases bs) auto

lemma dll_last: "dll h p c bs l n \<Longrightarrow> l = (if bs = [] then p else fst (last bs))"
  by (induction bs arbitrary: p c) (auto split: if_splits)

text \<open>What follows a block is the null pointer or the next header.\<close>

lemma dll_head: "dll h p c bs l 0 \<Longrightarrow> c = 0 \<or> c \<in> addrs bs"
  by (cases bs) auto

lemma next_other:
  assumes "rep h (xs @ (b, s, f) # ys)" "separate (xs @ (b, s, f) # ys)"
  shows "bnext h b \<noteq> b" "bnext h b \<notin> addrs xs"
proof -
  note at = rep_at [OF assms(1)]
  have "bnext h b = 0 \<or> bnext h b \<in> addrs ys" using dll_head [OF at(2)] .
  moreover have "b \<notin> addrs ys" "addrs xs \<inter> addrs ys = {}" using assms(2) by auto
  ultimately show "bnext h b \<noteq> b" "bnext h b \<notin> addrs xs" using at(3) dll_addrs_pos [OF at(1)] by auto
qed

text \<open>Giving the first block of a tail another predecessor, or the list another last block.\<close>

definition relink :: "nat \<Rightarrow> nat \<Rightarrow> heap \<Rightarrow> heap" where
  "relink n b h = (if n \<noteq> 0 then set_prev n b h else h\<lparr>g_last := b\<rparr>)"

lemma relink_fields [simp]:
  "bsize (relink n b h) = bsize h" "bnext (relink n b h) = bnext h" "bflag (relink n b h) = bflag h"
  "bmagic (relink n b h) = bmagic h" "g_first (relink n b h) = g_first h" "g_break (relink n b h) = g_break h"
  "g_used (relink n b h) = g_used h" "g_size (relink n b h) = g_size h"
  "a \<noteq> n \<Longrightarrow> bprev (relink n b h) a = bprev h a"
  by (simp_all add: relink_def set_prev_def)

lemma relink_tail:
  assumes "dll h p n ys (g_last h) 0" "separate ys"
  shows "dll (relink n b h) b n ys (g_last (relink n b h)) 0"
proof (cases ys)
  case Nil
  then show ?thesis using assms by (simp add: relink_def)
next
  case (Cons y ys')
  obtain a s f where y: "y = (a, s, f)" by (cases y) auto
  then have n: "n = a" "a \<noteq> 0" using assms(1) Cons by auto
  have "headers_agree (addrs ys') h (relink n b h)" using assms(2) Cons y n by (auto simp: headers_agree_def relink_def set_prev_def)
  then show ?thesis using assms Cons y n by (auto simp: relink_def set_prev_def dest: dll_agree)
qed

section \<open>Splitting and merging\<close>

lemma agree_relink: "n \<notin> A \<Longrightarrow> headers_agree A h (relink n b h)"
  by (auto simp: headers_agree_def relink_def set_prev_def)

lemma headers_agree_trans: "headers_agree A h h' \<Longrightarrow> headers_agree A h' h'' \<Longrightarrow> headers_agree A h h''"
  by (auto simp: headers_agree_def)

lemma headers_agree_fields:
  "b \<notin> A \<Longrightarrow> headers_agree A h (set_size b x h)" "b \<notin> A \<Longrightarrow> headers_agree A h (set_next b x h)" "b \<notin> A \<Longrightarrow> headers_agree A h (set_free b y h)"
  "b \<notin> A \<Longrightarrow> headers_agree A h (new_block b x p q h)"
  "headers_agree A h (h\<lparr>g_used := x\<rparr>)" "headers_agree A h (h\<lparr>g_break := x\<rparr>)" "headers_agree A h (h\<lparr>g_size := x\<rparr>)" "headers_agree A h (h\<lparr>g_last := x\<rparr>)"
  by (auto simp: headers_agree_def heap_fields)

lemma split_rep:
  assumes "rep h (xs @ (b, s, f) # ys)" "separate (xs @ (b, s, f) # ys)"
    "rest \<notin> addrs (xs @ (b, s, f) # ys)" "rest \<noteq> 0" "rest = b + kHeader + w" "w + kHeader + 16 \<le> s" "s < 18446744073709551616"
  shows "rep (split_block b w h) (xs @ (b, w, f) # (rest, s - w - kHeader, True) # ys)"
proof -
  note at = rep_at [OF assms(1)]
  let ?n = "bnext h b"
  let ?h1 = "new_block rest (s - w - kHeader) b ?n h"
  let ?h2 = "relink ?n rest ?h1"
  let ?h3 = "set_size b w (set_next b rest ?h2)"
  have "?n = 0 \<or> ?n \<in> addrs ys" using dll_head [OF at(2)] .
  then have nb: "?n \<noteq> b" "?n \<noteq> rest" "?n \<notin> addrs xs"
    using next_other [OF assms(1,2)] assms(3,4) by auto
  have "rest \<noteq> b" using assms(5) by (simp add: kHeader_def)
  have "split_block b w h = ?h3"
    using assms(5,6,7) at(4) nb \<open>rest \<noteq> b\<close>
    by (simp add: split_block_def Let_def relink_def) (simp add: heap_fields)?
  moreover have t1: "dll ?h1 b ?n ys (g_last ?h1) 0"
    using dll_agree [of ys h ?h1] at(2) assms(3) headers_agree_fields(4) [of rest "addrs ys"] by (auto simp: new_block_def)
  from relink_tail [OF t1] have t2: "dll ?h2 rest ?n ys (g_last ?h2) 0" using assms(2) by simp
  moreover have "dll ?h3 rest ?n ys (g_last ?h3) 0"
    using t2 dll_agree [of ys ?h2 ?h3] assms(2) headers_agree_trans headers_agree_fields
    by (auto simp: set_size_def set_next_def headers_agree_def)
  moreover have "dll ?h3 0 (g_first ?h3) xs (bprev h b) b"
  proof -
    have "headers_agree (addrs xs) h ?h3"
      using assms(2,3) nb(3) by (auto simp: headers_agree_def heap_fields relink_def)
    then show ?thesis using dll_agree at(1) by (simp add: heap_fields relink_def)
  qed
  ultimately show ?thesis
    using at nb \<open>rest \<noteq> b\<close> assms(4) by (intro rep_atI) (auto simp: heap_fields relink_def)
qed

lemma merge_next_rep:
  assumes "rep h (xs @ (b, s, f) # (n, t, True) # ys)" "separate (xs @ (b, s, f) # (n, t, True) # ys)"
  shows "rep (merge_next b h) (xs @ (b, s + (kHeader + t), f) # ys)"
proof -
  note at = rep_at [OF assms(1)]
  have n: "bnext h b = n" "n \<noteq> 0" "bfree h n" "bsize h n = t" "dll h n (bnext h n) ys (g_last h) 0" using at(2) by auto
  let ?m = "bnext h n"
  let ?h1 = "set_next b ?m (set_size b (s + (kHeader + t)) h)"
  let ?h2 = "relink ?m b ?h1"
  have "?m = 0 \<or> ?m \<in> addrs ys" using dll_head [OF n(5)] .
  then have m: "?m \<noteq> b" "?m \<noteq> n" "?m \<notin> addrs xs"
    using assms(2) at(3) n(2) dll_addrs_pos [OF at(1)] by auto
  have "n \<noteq> b" using assms(2) by auto
  then have "merge_next b h = ?h2"
    using n at(4) by (simp add: merge_next_def Let_def relink_def heap_fields)
  moreover have "dll ?h1 n ?m ys (g_last ?h1) 0"
    using n(5) dll_agree [of ys h ?h1] assms(2) by (simp add: headers_agree_def set_size_def set_next_def)
  from relink_tail [OF this] have "dll ?h2 b ?m ys (g_last ?h2) 0" using assms(2) by simp
  moreover have "dll ?h2 0 (g_first ?h2) xs (bprev ?h2 b) b"
  proof -
    have "headers_agree (addrs xs) h ?h2" using assms(2) m(3) by (auto simp: headers_agree_def heap_fields relink_def)
    then show ?thesis using dll_agree at(1) m(1) by (simp add: heap_fields)
  qed
  ultimately show ?thesis using at m by (intro rep_atI) (simp_all add: heap_fields)
qed

lemma merge_prev_rep:
  assumes "rep h (xs @ (p, t, True) # (b, s, f) # ys)" "separate (xs @ (p, t, True) # (b, s, f) # ys)"
  shows "rep (merge_prev b h) (xs @ (p, t + (kHeader + s), True) # ys)"
proof -
  note at = rep_at [OF assms(1)]
  have b: "bnext h p = b" "b \<noteq> 0" "bprev h b = p" "bsize h b = s" "dll h b (bnext h b) ys (g_last h) 0" using at(2) by auto
  let ?m = "bnext h b"
  let ?h1 = "set_next p ?m (set_size p (t + (kHeader + s)) h)"
  let ?h2 = "relink ?m p ?h1"
  have "?m = 0 \<or> ?m \<in> addrs ys" using dll_head [OF b(5)] .
  then have m: "?m \<noteq> b" "?m \<noteq> p" "?m \<notin> addrs xs"
    using assms(2) at(3) b(2) dll_addrs_pos [OF at(1)] by auto
  have "p \<noteq> b" using assms(2) by auto
  then have "merge_prev b h = ?h2"
    using b at by (simp add: merge_prev_def Let_def relink_def heap_fields)
  moreover have "dll ?h1 b ?m ys (g_last ?h1) 0"
    using b(5) dll_agree [of ys h ?h1] assms(2) by (simp add: headers_agree_def set_size_def set_next_def)
  from relink_tail [OF this] have "dll ?h2 p ?m ys (g_last ?h2) 0" using assms(2) by simp
  moreover have "dll ?h2 0 (g_first ?h2) xs (bprev ?h2 p) p"
  proof -
    have "headers_agree (addrs xs) h ?h2" using assms(2) m(3) by (auto simp: headers_agree_def heap_fields relink_def)
    then show ?thesis using dll_agree at(1) m(2) by (simp add: heap_fields)
  qed
  ultimately show ?thesis using at m by (intro rep_atI) (simp_all add: heap_fields)
qed

text \<open>The whole of \<^verbatim>\<open>coalesce\<close>, on the list.\<close>

fun join_next :: "nat \<Rightarrow> nat \<Rightarrow> block_info list \<Rightarrow> block_info list" where
  "join_next b s ((n, t, True) # ys) = (b, s + (kHeader + t), True) # ys"
| "join_next b s ys = (b, s, True) # ys"

definition join :: "block_info list \<Rightarrow> nat \<Rightarrow> nat \<Rightarrow> block_info list \<Rightarrow> block_info list" where
  "join xs b s ys =
     (case join_next b s ys of
        (b, s, f) # zs \<Rightarrow>
          (if xs \<noteq> [] \<and> snd (snd (last xs))
           then butlast xs @ (fst (last xs), fst (snd (last xs)) + (kHeader + s), True) # zs
           else xs @ (b, s, f) # zs)
      | [] \<Rightarrow> [])"

lemma join_next_rep:
  assumes "rep h (xs @ (b, s, True) # ys)" "separate (xs @ (b, s, True) # ys)"
  shows "rep (merge_next b h) (xs @ join_next b s ys)"
proof (cases "\<exists>n t zs. ys = (n, t, True) # zs")
  case True
  then show ?thesis using merge_next_rep assms by auto
next
  case False
  have "merge_next b h = h"
  proof (cases ys)
    case Nil
    then show ?thesis using rep_at(2) [OF assms(1)] by (simp add: merge_next_def)
  next
    case (Cons y zs)
    then obtain n t where "y = (n, t, False)" using False by (cases y) auto
    then show ?thesis using rep_at(2) [OF assms(1)] Cons by (auto simp: merge_next_def)
  qed
  moreover have "join_next b s ys = (b, s, True) # ys" using False by (cases "(b, s, ys)" rule: join_next.cases) auto
  ultimately show ?thesis using assms(1) by simp
qed

lemma join_next_shape:
  obtains s' zs where "join_next b s ys = (b, s', True) # zs" "addrs zs \<subseteq> addrs ys" "separate ys \<Longrightarrow> separate zs"
    "b \<notin> addrs ys \<Longrightarrow> b \<notin> addrs zs"
  by (cases "(b, s, ys)" rule: join_next.cases) auto

lemma coalesce_rep:
  assumes "rep h (xs @ (b, s, True) # ys)" "separate (xs @ (b, s, True) # ys)"
  shows "rep (coalesce b h) (join xs b s ys)"
proof -
  obtain s' zs where j: "join_next b s ys = (b, s', True) # zs" "addrs zs \<subseteq> addrs ys" "separate zs" "b \<notin> addrs zs"
    using join_next_shape [of b s ys] assms(2) by auto
  have r: "rep (merge_next b h) (xs @ (b, s', True) # zs)" using join_next_rep [OF assms] j(1) by simp
  have sep: "separate (xs @ (b, s', True) # zs)" using assms(2) j by auto
  show ?thesis
  proof (cases "xs \<noteq> [] \<and> snd (snd (last xs))")
    case True
    then obtain xs' p t where x: "xs = xs' @ [(p, t, True)]" by (metis append_butlast_last_id prod.collapse)
    from merge_prev_rep [of "merge_next b h" xs' p t b s' True zs] r sep x
    show ?thesis by (simp add: coalesce_def join_def j(1))
  next
    case False
    have "merge_prev b (merge_next b h) = merge_next b h"
    proof (cases xs rule: rev_cases)
      case Nil
      then show ?thesis using rep_at(1) [OF r] by (simp add: merge_prev_def)
    next
      case (snoc xs' x)
      then obtain p t where x: "x = (p, t, False)" using False by (cases x) auto
      have "rep (merge_next b h) (xs' @ (p, t, False) # (b, s', True) # zs)" using r snoc x by simp
      from rep_at [OF this] show ?thesis by (auto simp: merge_prev_def)
    qed
    then show ?thesis using r False by (auto simp: coalesce_def join_def j(1))
  qed
qed

section \<open>Geometry\<close>

fun first_addr :: "block_info list \<Rightarrow> nat \<Rightarrow> nat" where
  "first_addr [] e = e"
| "first_addr ((a, s, f) # bs) e = a"

text \<open>Aligned, in address order, and clear of one another up to \<open>e\<close>.\<close>

fun spaced :: "block_info list \<Rightarrow> nat \<Rightarrow> bool" where
  "spaced [] e = True"
| "spaced ((a, s, f) # bs) e \<longleftrightarrow> 16 dvd a \<and> 16 dvd s \<and> a + kHeader + s \<le> first_addr bs e \<and> spaced bs e"

fun no_twins :: "block_info list \<Rightarrow> bool" where
  "no_twins ((a, s, f) # (b, t, g) # bs) \<longleftrightarrow> \<not> (f \<and> g) \<and> no_twins ((b, t, g) # bs)"
| "no_twins bs = True"

fun bytes_in_use :: "block_info list \<Rightarrow> nat" where
  "bytes_in_use [] = 0"
| "bytes_in_use ((a, s, f) # bs) = (if f then 0 else s) + bytes_in_use bs"

lemma first_addr_append: "first_addr (xs @ ys) e = first_addr xs (first_addr ys e)"
  by (cases xs) auto

lemma spaced_append: "spaced (xs @ ys) e \<longleftrightarrow> spaced xs (first_addr ys e) \<and> spaced ys e"
  by (induction xs rule: addrs.induct) (auto simp: first_addr_append)

lemma bytes_in_use_append: "bytes_in_use (xs @ ys) = bytes_in_use xs + bytes_in_use ys"
  by (induction xs rule: addrs.induct) auto

lemma spaced_lower: "spaced bs e \<Longrightarrow> a \<in> addrs bs \<Longrightarrow> first_addr bs e \<le> a"
proof (induction bs rule: addrs.induct)
  case (2 b s f bs)
  then show ?case by (cases "a = b") (auto dest!: 2(1))
qed simp

lemma spaced_separate: "spaced bs e \<Longrightarrow> separate bs"
proof (induction bs rule: addrs.induct)
  case (2 a s f bs)
  then show ?case using spaced_lower [of bs e a] by (auto simp: kHeader_def)
qed simp

lemma spaced_end: "spaced bs e \<Longrightarrow> (a, s, f) \<in> set bs \<Longrightarrow> a + kHeader + s \<le> e"
proof (induction bs rule: addrs.induct)
  case (2 b t g bs)
  have "first_addr bs e \<le> e" using 2(2) by (induction bs rule: addrs.induct) auto
  then show ?case using 2 by auto
qed simp

lemma start_le_end: "spaced bs e \<Longrightarrow> first_addr bs e \<le> e"
  by (induction bs rule: addrs.induct) auto

text \<open>Two blocks do not overlap.\<close>

lemma spaced_disjoint:
  "spaced bs e \<Longrightarrow> (a, s, f) \<in> set bs \<Longrightarrow> (b, t, g) \<in> set bs \<Longrightarrow> a \<noteq> b \<Longrightarrow>
    a + kHeader + s \<le> b \<or> b + kHeader + t \<le> a"
proof (induction bs rule: addrs.induct)
  case (2 c u k bs)
  show ?case
  proof (cases "(a, s, f) = (c, u, k) \<or> (b, t, g) = (c, u, k)")
    case True
    then show ?thesis using 2 addrs_mem spaced_lower [of bs e a] spaced_lower [of bs e b] by auto
  next
    case False
    then show ?thesis using 2 by auto
  qed
qed simp

text \<open>The whole invariant.\<close>

definition heap_ok :: "heap \<Rightarrow> block_info list \<Rightarrow> bool" where
  "heap_ok h bs \<longleftrightarrow> rep h bs \<and> spaced bs (g_break h) \<and> no_twins bs \<and> g_used h = bytes_in_use bs
     \<and> kHeapBase \<le> first_addr bs (g_break h) \<and> 16 dvd g_break h \<and> g_break h < 18446744073709551616"

text \<open>The allocations: where each begins, and how long it is.\<close>

definition live :: "block_info list \<Rightarrow> (nat \<times> nat) set" where
  "live bs = {(a + kHeader, s) | a s. (a, s, False) \<in> set bs}"

lemma live_simps [simp]:
  "live [] = {}" "live ((a, s, f) # bs) = (if f then live bs else insert (a + kHeader, s) (live bs))"
  "live (xs @ ys) = live xs \<union> live ys"
  by (auto simp: live_def)

section \<open>Finding and taking a block\<close>

lemma first_fit_rep:
  "dll h p c bs l 0 \<Longrightarrow> first_fit h w c = Some (case find (\<lambda>(a, s, f). f \<and> w \<le> s) bs of None \<Rightarrow> 0 | Some (a, s, f) \<Rightarrow> a)"
proof (induction bs arbitrary: p c rule: addrs.induct)
  case 1
  then show ?case by (simp add: first_fit.simps)
next
  case (2 a s f bs)
  then have "first_fit h w c = (if \<not> f \<or> s < w then first_fit h w (bnext h a) else Some a)"
    by (subst first_fit.simps) auto
  with 2 show ?case by auto
qed

lemma find_split:
  assumes "find P bs = Some x"
  obtains xs ys where "bs = xs @ x # ys" "P x"
  using assms by (metis find_Some_iff id_take_nth_drop)

lemma set_free_rep:
  assumes "rep h (xs @ (b, s, f) # ys)" "separate (xs @ (b, s, f) # ys)"
  shows "rep (set_free b g h) (xs @ (b, s, g) # ys)"
proof -
  note at = rep_at [OF assms(1)]
  have "headers_agree (addrs xs) h (set_free b g h)" "headers_agree (addrs ys) h (set_free b g h)"
    using assms(2) by (auto simp: headers_agree_def set_free_def)
  then show ?thesis using at dll_agree by (intro rep_atI) (auto simp: set_free_def)
qed

definition carve :: "nat \<Rightarrow> nat \<Rightarrow> nat \<Rightarrow> block_info list" where
  "carve b s w = (if s < w + kHeader + 16 then [(b, s, False)] else [(b, w, False), (b + kHeader + w, s - w - kHeader, True)])"

lemma spaced_upper: "spaced bs e \<Longrightarrow> a \<in> addrs bs \<Longrightarrow> a + kHeader \<le> e"
proof (induction bs rule: addrs.induct)
  case (2 b s f bs)
  then show ?case using start_le_end [of bs e] by (cases "a = b") auto
qed simp

lemma heap_okD:
  assumes "heap_ok h (xs @ (b, s, f) # ys)"
  shows "rep h (xs @ (b, s, f) # ys)" "separate (xs @ (b, s, f) # ys)" "spaced xs b" "16 dvd b" "16 dvd s"
    "b + kHeader + s \<le> first_addr ys (g_break h)" "spaced ys (g_break h)" "kHeapBase \<le> b" "s + kHeapBase + kHeader < 18446744073709551616"
    "first_addr ys (g_break h) \<le> g_break h"
proof -
  show "rep h (xs @ (b, s, f) # ys)" using assms by (simp add: heap_ok_def)
  have sp: "spaced (xs @ (b, s, f) # ys) (g_break h)" using assms by (simp add: heap_ok_def)
  then show "separate (xs @ (b, s, f) # ys)" by (rule spaced_separate)
  show "spaced xs b" "16 dvd b" "16 dvd s" "b + kHeader + s \<le> first_addr ys (g_break h)" and ys: "spaced ys (g_break h)"
    using sp by (simp_all add: spaced_append)
  show "kHeapBase \<le> b" using assms spaced_lower [OF sp, of b] by (simp add: heap_ok_def)
  show "first_addr ys (g_break h) \<le> g_break h" using start_le_end [OF ys] .
  then show "s + kHeapBase + kHeader < 18446744073709551616"
    using \<open>b + kHeader + s \<le> first_addr ys (g_break h)\<close> \<open>kHeapBase \<le> b\<close> assms by (simp add: heap_ok_def)
qed

lemma split_fields [simp]: "g_break (split_block b w h) = g_break h" "g_used (split_block b w h) = g_used h"
  by (auto simp: split_block_def Let_def heap_fields)

lemma take_rep:
  assumes "heap_ok h (xs @ (b, s, True) # ys)" "w \<le> s"
  shows "rep (take_block b w h) (xs @ carve b s w @ ys)"
    "g_break (take_block b w h) = g_break h" "g_used (take_block b w h) = g_used h + (if s < w + kHeader + 16 then s else w)"
proof -
  note ok = heap_okD [OF assms(1)]
  have u: "u64 (w + kHeader + 16) = w + kHeader + 16" using ok(9) assms(2) by (simp add: kHeapBase_def kHeader_def)
  have fin: "rep (take_block b w h) bs" if "rep (set_free b False (split_block b w h)) bs" for bs
    using that dll_agree [OF headers_agree_fields(5)] by (simp add: take_block_def Let_def rep_def)
  show "rep (take_block b w h) (xs @ carve b s w @ ys)"
  proof (cases "s < w + kHeader + 16")
    case True
    then have "split_block b w h = h" using u rep_at(4) [OF ok(1)] by (simp add: split_block_def)
    then show ?thesis using fin set_free_rep [OF ok(1,2), of False] True by (simp add: carve_def)
  next
    case False
    let ?rest = "b + kHeader + w"
    have "?rest \<notin> addrs ys" using spaced_lower [OF ok(7), of ?rest] ok(6) False by (auto simp: kHeader_def)
    moreover have "?rest \<notin> addrs xs" using spaced_upper [OF ok(3), of ?rest] by (auto simp: kHeader_def)
    ultimately have r: "?rest \<notin> addrs (xs @ (b, s, True) # ys)" by (simp add: kHeader_def)
    have "rep (split_block b w h) (xs @ (b, w, True) # (?rest, s - w - kHeader, True) # ys)"
      using split_rep [OF ok(1,2) r] False ok(9) rep_at(3) [OF ok(1)] by (simp add: kHeader_def)
    from set_free_rep [OF this, of False] fin ok(2) r False show ?thesis by (auto simp: carve_def)
  qed
  have "bsize (split_block b w h) b = (if s < w + kHeader + 16 then s else w)"
    using u rep_at(4) [OF ok(1)] by (simp add: split_block_def Let_def set_size_def)
  then show "g_break (take_block b w h) = g_break h" "g_used (take_block b w h) = g_used h + (if s < w + kHeader + 16 then s else w)"
    by (simp_all add: take_block_def Let_def set_free_def)
qed

lemma no_twins_append:
  "no_twins (xs @ ys) \<longleftrightarrow> no_twins xs \<and> no_twins ys \<and> \<not> (xs \<noteq> [] \<and> ys \<noteq> [] \<and> snd (snd (last xs)) \<and> snd (snd (hd ys)))"
proof (induction xs)
  case (Cons x xs)
  then show ?case by (cases x; cases "x # xs" rule: no_twins.cases; cases ys rule: no_twins.cases) auto
qed simp

lemma take_ok:
  assumes "heap_ok h (xs @ (b, s, True) # ys)" "w \<le> s" "16 dvd w"
  shows "heap_ok (take_block b w h) (xs @ carve b s w @ ys)"
proof -
  note ok = heap_okD [OF assms(1)] and t = take_rep [OF assms(1,2)]
  have nt: "no_twins xs" "no_twins ys" "\<not> (xs \<noteq> [] \<and> snd (snd (last xs)))" "\<not> (ys \<noteq> [] \<and> snd (snd (hd ys)))"
    using assms(1) no_twins_append [of "[(b, s, True)]" ys] by (auto simp: heap_ok_def no_twins_append)
  have "spaced (xs @ carve b s w @ ys) (g_break h)"
  proof (cases "s < w + kHeader + 16")
    case True
    then show ?thesis using ok by (simp add: carve_def spaced_append)
  next
    case False
    then have "16 dvd b + kHeader + w" "16 dvd s - w - kHeader"
      using ok(4,5) assms(3) by (simp_all add: kHeader_def dvd_diff_nat)
    then show ?thesis using ok False assms(3) by (simp add: carve_def spaced_append)
  qed
  moreover have "no_twins (xs @ carve b s w @ ys)" using nt by (auto simp: carve_def no_twins_append)
  moreover have "bytes_in_use (carve b s w) = (if s < w + kHeader + 16 then s else w)" by (simp add: carve_def)
  moreover have "first_addr (xs @ carve b s w @ ys) e = first_addr (xs @ (b, s, True) # ys) e" for e
    by (simp add: first_addr_append carve_def)
  ultimately show ?thesis using assms(1) t by (simp add: heap_ok_def bytes_in_use_append)
qed

section \<open>Growing\<close>

definition appended :: "block_info list \<Rightarrow> nat \<Rightarrow> nat \<Rightarrow> block_info list" where
  "appended bs start added =
     (if bs \<noteq> [] \<and> snd (snd (last bs))
      then butlast bs @ [(fst (last bs), fst (snd (last bs)) + (kHeader + (added - kHeader)), True)]
      else bs @ [(start, added - kHeader, True)])"

lemma grow_fails:
  assumes "heap_ok h bs" "heap_grow avail bytes h = (False, h')" "g_break h + avail * page_size < 18446744073709551616"
  shows "heap_ok h' bs" "avail < pages_for bytes"
proof -
  have h': "h' = h\<lparr>g_break := g_break h + avail * page_size\<rparr>" "avail < pages_for bytes"
    using assms(2) by (simp_all add: heap_grow_def Let_def split: if_split_asm)
  then show "avail < pages_for bytes" by simp
  have "spaced bs (e + k)" if "spaced bs e" for e k :: nat
    using that
  proof (induction bs rule: addrs.induct)
    case (2 a s f bs)
    then show ?case by (cases bs) auto
  qed simp
  moreover have "first_addr bs (e + k) \<ge> first_addr bs e" for e k :: nat by (cases bs rule: addrs.cases) auto
  ultimately show "heap_ok h' bs"
    using assms(1,3) h'(1) dll_agree [OF headers_agree_fields(6)]
    by (auto simp: heap_ok_def rep_def intro: le_trans dvd_add)
qed

lemma append_block_rep:
  assumes "rep h bs" "separate bs" "start \<notin> addrs bs" "start \<noteq> 0"
  shows "rep (append_block start added h) (bs @ [(start, added - kHeader, True)])"
    "bnext (append_block start added h) start = 0"
proof -
  let ?h = "append_block start added h"
  have last: "g_last h = (if bs = [] then 0 else fst (last bs))" using dll_last assms(1) by (simp add: rep_def)
  have l: "g_last h \<noteq> start" using last assms(3,4) by (cases bs rule: rev_cases) auto
  have f: "bsize ?h start = added - kHeader" "bfree ?h start" "bmagic ?h start = kMagic" "bnext ?h start = 0"
    "bprev ?h start = g_last h" "g_last ?h = start"
    using l by (simp_all add: append_block_def Let_def heap_fields)
  then show "bnext ?h start = 0" by simp
  have "dll ?h 0 (g_first ?h) bs (g_last h) start"
  proof (cases bs rule: rev_cases)
    case Nil
    then show ?thesis using last assms(1) by (simp add: append_block_def Let_def heap_fields)
  next
    case (snoc xs x)
    obtain p t g where x: "x = (p, t, g)" by (cases x) auto
    have r: "rep h (xs @ (p, t, g) # [])" using assms(1) snoc x by simp
    note at = rep_at [OF r]
    have lp: "g_last h = p" "p \<noteq> 0" using last snoc x at(3) by simp_all
    have h: "?h = (set_next p start (new_block start (added - kHeader) p 0 (h\<lparr>g_size := g_size h + added\<rparr>)))\<lparr>g_last := start\<rparr>"
      using lp by (simp add: append_block_def Let_def new_block_def)
    have "p \<notin> addrs xs" "start \<notin> addrs xs" "start \<noteq> p" using assms(2,3) snoc x by auto
    then have "headers_agree (addrs xs) h ?h" unfolding h by (auto simp: headers_agree_def heap_fields)
    then have "dll ?h 0 (g_first ?h) xs (bprev h p) p" using dll_agree at(1) h by (simp add: heap_fields)
    then show ?thesis using snoc x at \<open>start \<noteq> p\<close> lp unfolding h by (auto simp: dll_append heap_fields)
  qed
  then show "rep ?h (bs @ [(start, added - kHeader, True)])" using f assms(4) by (auto simp: rep_def dll_append)
qed

lemma join_last_is_merge:
  assumes "bnext h b = 0" "bprev h b \<noteq> b"
  shows "join_last b h = merge_prev b h"
  using assms by (simp add: join_last_def merge_prev_def Let_def set_next_def set_size_def)

lemma join_last_rep:
  assumes "rep h (bs @ [(b, s, True)])" "separate (bs @ [(b, s, True)])" "bnext h b = 0"
  shows "rep (join_last b h) (if bs \<noteq> [] \<and> snd (snd (last bs))
    then butlast bs @ [(fst (last bs), fst (snd (last bs)) + (kHeader + s), True)] else bs @ [(b, s, True)])"
proof (cases bs rule: rev_cases)
  case Nil
  then show ?thesis using assms(1) rep_at(1) [of h "[]" b s True "[]"] by (simp add: join_last_def)
next
  case (snoc xs x)
  obtain p t f where x: "x = (p, t, f)" by (cases x) auto
  then have r: "rep h (xs @ (p, t, f) # (b, s, True) # [])" using assms(1) snoc by simp
  then have pb: "bprev h b = p" "bfree h p = f" "p \<noteq> b" using rep_at [OF r] assms(2) snoc x by auto
  show ?thesis
  proof (cases f)
    case True
    then show ?thesis
      using merge_prev_rep [of h xs p t b s True "[]"] r assms(2) snoc x join_last_is_merge [OF assms(3)] pb by simp
  next
    case False
    then show ?thesis using assms(1) snoc x pb by (simp add: join_last_def)
  qed
qed

lemma heap_fields_keep:
  "g_break (append_block b n h) = g_break h" "g_used (append_block b n h) = g_used h"
  "g_break (join_last b h) = g_break h" "g_used (join_last b h) = g_used h"
  by (simp_all add: append_block_def join_last_def Let_def heap_fields)

lemma appended_cases:
  obtains (joined) xs a s where "bs = xs @ [(a, s, True)]" "appended bs start added = xs @ [(a, s + (kHeader + (added - kHeader)), True)]"
  | (new) "bs = [] \<or> \<not> snd (snd (last bs))" "appended bs start added = bs @ [(start, added - kHeader, True)]"
proof (cases "bs \<noteq> [] \<and> snd (snd (last bs))")
  case True
  then obtain xs a s where "bs = xs @ [(a, s, True)]" by (metis append_butlast_last_id prod.collapse)
  then show ?thesis using joined by (simp add: appended_def)
next
  case False
  then show ?thesis using new by (auto simp: appended_def)
qed

lemma pages_for_pos: "kGrowthPages \<le> pages_for bytes"
  by (simp add: pages_for_def Let_def)

lemma grow_ok:
  assumes "heap_ok h bs" "heap_grow avail bytes h = (True, h')" "g_break h + avail * page_size < 18446744073709551616"
  shows "heap_ok h' (appended bs (g_break h) (pages_for bytes * page_size))" "pages_for bytes \<le> avail"
    "g_break h' = g_break h + pages_for bytes * page_size"
proof -
  let ?added = "pages_for bytes * page_size" and ?b = "g_break h"
  let ?h1 = "append_block ?b ?added (h\<lparr>g_break := ?b + ?added\<rparr>)"
  have h': "h' = join_last ?b ?h1" and le: "pages_for bytes \<le> avail"
    using assms(2) by (simp_all add: heap_grow_def Let_def split: if_split_asm)
  show "pages_for bytes \<le> avail" by (rule le)
  show br: "g_break h' = ?b + ?added" using h' by (simp add: heap_fields_keep)
  have sp: "spaced bs ?b" using assms(1) by (simp add: heap_ok_def)
  have base: "kHeapBase \<le> ?b" using assms(1) start_le_end [OF sp] by (simp add: heap_ok_def)
  have "?b \<notin> addrs bs" using spaced_upper [OF sp, of ?b] by (auto simp: kHeader_def)
  moreover have "?b \<noteq> 0" using base by (simp add: kHeapBase_def)
  moreover have "rep (h\<lparr>g_break := ?b + ?added\<rparr>) bs" using assms(1) dll_agree [OF headers_agree_fields(6)] by (simp add: heap_ok_def rep_def)
  ultimately have r: "rep ?h1 (bs @ [(?b, ?added - kHeader, True)])" "bnext ?h1 ?b = 0"
    and sep: "separate (bs @ [(?b, ?added - kHeader, True)])"
    using append_block_rep [of "h\<lparr>g_break := ?b + ?added\<rparr>" bs ?b ?added] spaced_separate [OF sp] by auto
  from join_last_rep [OF r(1) sep r(2)] have rep: "rep h' (appended bs ?b ?added)" by (simp add: h' appended_def)
  have added: "kHeader \<le> ?added" "16 dvd ?added" using pages_for_pos [of bytes] by (simp_all add: kHeader_def kGrowthPages_def)
  have b16: "16 dvd ?b" using assms(1) by (simp add: heap_ok_def)
  have d: "16 dvd ?added - kHeader" using added by (simp add: kHeader_def dvd_diff_nat)
  have "spaced (appended bs ?b ?added) (?b + ?added) \<and> no_twins (appended bs ?b ?added)
    \<and> bytes_in_use (appended bs ?b ?added) = bytes_in_use bs \<and> kHeapBase \<le> first_addr (appended bs ?b ?added) (?b + ?added)"
  proof (cases bs ?b ?added rule: appended_cases)
    case (joined xs a s)
    then have o: "heap_ok h (xs @ (a, s, True) # [])" using assms(1) by simp
    note ok = heap_okD [OF o]
    have "no_twins xs" "\<not> (xs \<noteq> [] \<and> snd (snd (last xs)))" "bytes_in_use bs = bytes_in_use xs" "kHeapBase \<le> first_addr xs a"
      using assms(1) joined(1) by (auto simp: heap_ok_def no_twins_append bytes_in_use_append first_addr_append)
    then show ?thesis using joined ok added d by (auto simp: spaced_append no_twins_append bytes_in_use_append first_addr_append)
  next
    case new
    then show ?thesis using assms(1) sp added d b16 base
      by (auto simp: heap_ok_def spaced_append no_twins_append bytes_in_use_append first_addr_append)
  qed
  then show "heap_ok h' (appended bs ?b ?added)"
    using rep br assms(1,3) le b16 added h' by (auto simp: heap_ok_def heap_fields_keep)
qed

lemma pages_enough:
  assumes "w + kHeader + page_size \<le> 18446744073709551616"
  shows "w + kHeader \<le> pages_for w * page_size" "pages_for w \<le> max kGrowthPages ((w + kHeader + page_size) div page_size)"
proof -
  let ?n = "w + kHeader"
  have "align_up (u64 ?n) page_size div page_size = (?n + 4095) div 4096"
    using assms by (simp add: align_up_def kHeader_def)
  moreover have "?n \<le> (?n + 4095) div 4096 * 4096"
    using div_mult_mod_eq [of "?n + 4095" 4096] mod_less_divisor [of 4096 "?n + 4095"] by linarith
  moreover have "(?n + 4095) div 4096 \<le> (?n + 4096) div 4096" by (rule div_le_mono) simp
  ultimately show "?n \<le> pages_for w * page_size" "pages_for w \<le> max kGrowthPages ((?n + page_size) div page_size)"
    by (auto simp: pages_for_def Let_def)
qed

lemma align16:
  assumes "bytes + 15 < 18446744073709551616"
  shows "bytes \<le> align_up bytes 16" "align_up bytes 16 < bytes + 16" "16 dvd align_up bytes 16"
  using assms div_mult_mod_eq [of "bytes + 15" 16] mod_less_divisor [of 16 "bytes + 15"]
  by (simp_all add: align_up_def)

section \<open>Allocating and releasing\<close>

definition clear_of :: "nat \<Rightarrow> nat \<Rightarrow> (nat \<times> nat) set \<Rightarrow> bool" where
  "clear_of p n L \<longleftrightarrow> (\<forall>(q, t) \<in> L. p + n \<le> q \<or> q + t \<le> p)"

lemma liveE:
  assumes "(p, s) \<in> live bs"
  obtains xs ys where "bs = xs @ (p - kHeader, s, False) # ys" "kHeader \<le> p"
proof -
  from assms obtain a where "p = a + kHeader" "(a, s, False) \<in> set bs" by (auto simp: live_def)
  then show ?thesis using that by (metis split_list diff_add_inverse2 le_add2)
qed

lemma live_clear:
  assumes "spaced bs e" "bs = xs @ (b, s, False) # ys"
  shows "clear_of (b + kHeader) s (live (xs @ ys))" "(b + kHeader, s) \<notin> live (xs @ ys)"
proof -
  have ne: "a \<noteq> b" if "(a, t, f) \<in> set (xs @ ys)" for a t f
    using spaced_separate [OF assms(1)] addrs_mem [OF that] assms(2) by auto
  have "b + kHeader + s \<le> q \<or> q + t \<le> b + kHeader" if l: "(q, t) \<in> live (xs @ ys)" for q t
  proof -
    obtain a where a: "q = a + kHeader" "(a, t, False) \<in> set (xs @ ys)" using l unfolding live_def by auto
    then show ?thesis
      using spaced_disjoint [OF assms(1), of b s False a t False] ne [OF a(2)] assms(2) by auto
  qed
  then show "clear_of (b + kHeader) s (live (xs @ ys))" unfolding clear_of_def by blast
  show "(b + kHeader, s) \<notin> live (xs @ ys)" using ne unfolding live_def by auto
qed

text \<open>What a successful search hands out.\<close>

definition handed_out :: "nat \<Rightarrow> nat \<Rightarrow> block_info list \<Rightarrow> heap \<Rightarrow> block_info list \<Rightarrow> bool" where
  "handed_out p bytes bs h' bs' \<longleftrightarrow> heap_ok h' bs' \<and> 16 dvd p \<and> kHeapBase \<le> p
     \<and> (\<exists>s \<ge> bytes. live bs' = insert (p, s) (live bs) \<and> (p, s) \<notin> live bs \<and> clear_of p s (live bs))"

lemma take_handed_out:
  assumes "heap_ok h (xs @ (b, s, True) # ys)" "w \<le> s" "16 dvd w" "bytes \<le> w"
  shows "handed_out (b + kHeader) bytes (xs @ (b, s, True) # ys) (take_block b w h) (xs @ carve b s w @ ys)"
proof -
  let ?s = "if s < w + kHeader + 16 then s else w"
  obtain zs where c: "carve b s w = (b, ?s, False) # zs" "live zs = {}"
    by (cases "s < w + kHeader + 16") (simp_all add: carve_def)
  note t = take_ok [OF assms(1-3)] and ok = heap_okD [OF assms(1)]
  have sp: "spaced (xs @ (b, ?s, False) # zs @ ys) (g_break h)"
    using t c(1) take_rep(2) [OF assms(1,2)] by (simp add: heap_ok_def)
  have "live (xs @ zs @ ys) = live (xs @ (b, s, True) # ys)" using c(2) by simp
  then show ?thesis
    unfolding handed_out_def
    using live_clear [OF sp refl] t ok(4,8) c assms(2,4)
    by (intro conjI exI [of _ ?s]) (auto simp: kHeader_def)
qed

lemma search:
  assumes "heap_ok h bs" "16 dvd w" "bytes \<le> w"
  obtains (hit) b bs' where "first_fit h w (g_first h) = Some b" "b \<noteq> 0" "handed_out (b + kHeader) bytes bs (take_block b w h) bs'"
  | (miss) "first_fit h w (g_first h) = Some 0" "\<forall>(a, s, f) \<in> set bs. f \<longrightarrow> s < w"
proof -
  have "dll h 0 (g_first h) bs (g_last h) 0" using assms(1) by (simp add: heap_ok_def rep_def)
  note ff = first_fit_rep [OF this, of w]
  show ?thesis
  proof (cases "find (\<lambda>(a, s, f). f \<and> w \<le> s) bs")
    case None
    then have "\<forall>(a, s, f) \<in> set bs. f \<longrightarrow> s < w" by (auto simp: find_None_iff not_le)
    then show ?thesis using miss ff None by simp
  next
    case (Some x)
    then obtain b s xs ys where x: "x = (b, s, True)" "w \<le> s" "bs = xs @ (b, s, True) # ys"
      by (cases x) (auto elim: find_split)
    note o = assms(1) [unfolded x(3)]
    have "b \<noteq> 0" using rep_at(3) [OF heap_okD(1) [OF o]] .
    then show ?thesis using hit ff Some x take_handed_out [OF o x(2) assms(2,3)] by simp
  qed
qed

lemma out_of_room:
  assumes "heap_ok h bs" "bytes + 15 < 18446744073709551616" "g_break h + avail * page_size < 18446744073709551616"
    "w = align_up bytes 16" "avail < pages_for w \<or> pages_for w * page_size < w + kHeader"
  shows "avail < kGrowthPages \<or> avail * page_size < bytes + 2 * page_size"
proof (cases "w + kHeader + page_size \<le> 18446744073709551616")
  case True
  note e = pages_enough [OF True]
  have "avail < pages_for w" using assms(5) e(1) by linarith
  then have "avail < kGrowthPages \<or> avail < (w + kHeader + page_size) div page_size" using e(2) by linarith
  moreover have "(w + kHeader + page_size) div page_size * page_size \<le> w + kHeader + page_size" by simp
  ultimately show ?thesis using align16(2) [OF assms(2)] assms(4) unfolding kHeader_def by linarith
next
  case False
  have "kHeapBase \<le> g_break h" using assms(1) start_le_end [of bs "g_break h"] by (simp add: heap_ok_def)
  then show ?thesis using False assms(3) align16(2) [OF assms(2)] assms(4) by (simp add: kHeapBase_def kHeader_def)
qed

lemma appended_live: "live (appended bs start added) = live bs"
  by (cases bs start added rule: appended_cases) auto

lemma appended_room: "\<exists>a s. (a, s, True) \<in> set (appended bs start added) \<and> added - kHeader \<le> s"
proof (cases bs start added rule: appended_cases)
  case (joined xs a s)
  then show ?thesis by (intro exI [of _ a] exI [of _ "s + (kHeader + (added - kHeader))"]) simp
next
  case new
  then show ?thesis by (intro exI [of _ start] exI [of _ "added - kHeader"]) simp
qed

lemma allocate_ok:
  assumes "heap_ok h bs" "bytes + 15 < 18446744073709551616" "g_break h + avail * page_size < 18446744073709551616"
  shows "\<exists>p h' bs'. allocate avail bytes h = Some (p, h') \<and>
    (if p = 0 then heap_ok h' bs' \<and> live bs' = live bs
       \<and> (bytes = 0 \<or> avail < kGrowthPages \<or> avail * page_size < bytes + 2 * page_size)
     else handed_out p bytes bs h' bs')"
proof (cases "bytes = 0")
  case True
  then show ?thesis using assms(1) by (auto simp: allocate_def)
next
  case False
  let ?w = "align_up bytes 16"
  let ?bs = "appended bs (g_break h) (pages_for ?w * page_size)"
  note w = align16 [OF assms(2)] and room = out_of_room [OF assms refl]
  from assms(1) w(3,1) show ?thesis
  proof (cases rule: search)
    case (hit b bs')
    then show ?thesis using False
      by (intro exI [of _ "b + kHeader"] exI [of _ "take_block b ?w h"] exI [of _ bs']) (simp add: allocate_def Let_def)
  next
    case miss
    note ff = miss(1)
    consider (short) h1 where "heap_grow avail ?w h = (False, h1)" | (grown) h1 where "heap_grow avail ?w h = (True, h1)"
      by (cases "heap_grow avail ?w h") auto
    then show ?thesis
    proof cases
      case short
      then show ?thesis using grow_fails [OF assms(1) short assms(3)] room ff False
        by (intro exI [of _ 0] exI [of _ h1] exI [of _ bs]) (simp add: allocate_def Let_def)
    next
      case grown
      note ok = grow_ok [OF assms(1) grown assms(3)]
      from ok(1) w(3,1) show ?thesis
      proof (cases rule: search)
        case (hit b bs')
        then have "handed_out (b + kHeader) bytes bs (take_block b ?w h1) bs'" by (simp add: handed_out_def appended_live)
        then show ?thesis using hit grown ff False
          by (intro exI [of _ "b + kHeader"] exI [of _ "take_block b ?w h1"] exI [of _ bs']) (simp add: allocate_def Let_def)
      next
        case miss
        have "pages_for ?w * page_size < ?w + kHeader"
          using appended_room [of bs "g_break h" "pages_for ?w * page_size"] miss(2) by fastforce
        then show ?thesis using miss(1) grown ff False room ok(1)
          by (intro exI [of _ 0] exI [of _ h1] exI [of _ ?bs]) (simp add: allocate_def Let_def appended_live)
      qed
    qed
  qed
qed

text \<open>
  C30. An allocation always returns. What it returns is 16-byte aligned memory of at least the size asked
  for, clear of everything allocated before, which stays allocated; or nothing, and then only because
  nothing was asked for or the pages ran out. Either way the heap stays well formed.
\<close>

theorem allocations_are_disjoint:
  assumes "heap_ok h bs" "bytes + 15 < 18446744073709551616" "g_break h + avail * page_size < 18446744073709551616"
  shows "\<exists>p h' bs'. allocate avail bytes h = Some (p, h') \<and>
    (if p = 0 then heap_ok h' bs' \<and> live bs' = live bs
       \<and> (bytes = 0 \<or> avail < kGrowthPages \<or> avail * page_size < bytes + 2 * page_size)
     else handed_out p bytes bs h' bs')"
  using allocate_ok [OF assms] .

lemma join_next_ok:
  assumes "spaced ((b, s, True) # ys) e" "no_twins ys"
  obtains s' zs where "join_next b s ys = (b, s', True) # zs" "spaced ((b, s', True) # zs) e" "no_twins zs"
    "\<not> (zs \<noteq> [] \<and> snd (snd (hd zs)))" "bytes_in_use zs = bytes_in_use ys" "live zs = live ys"
proof (cases "\<exists>n t zs. ys = (n, t, True) # zs")
  case True
  then obtain n t zs where y: "ys = (n, t, True) # zs" by auto
  have "no_twins zs" "\<not> (zs \<noteq> [] \<and> snd (snd (hd zs)))"
    using assms(2) y no_twins_append [of "[(n, t, True)]" zs] by auto
  then show ?thesis using that [of "s + (kHeader + t)" zs] assms(1) y by (simp add: kHeader_def)
next
  case False
  then have "join_next b s ys = (b, s, True) # ys" "\<not> (ys \<noteq> [] \<and> snd (snd (hd ys)))"
    by (cases "(b, s, ys)" rule: join_next.cases; auto)+
  then show ?thesis using that [of s ys] assms by simp
qed

lemma join_ok:
  assumes "spaced (xs @ (b, s, False) # ys) e" "no_twins (xs @ (b, s, False) # ys)"
  shows "spaced (join xs b s ys) e" "no_twins (join xs b s ys)" "bytes_in_use (join xs b s ys) + s = bytes_in_use (xs @ (b, s, False) # ys)"
    "first_addr (join xs b s ys) e = first_addr (xs @ (b, s, False) # ys) e" "live (join xs b s ys) = live (xs @ ys)"
proof -
  have ys: "spaced ((b, s, True) # ys) e" "no_twins ys" and xs: "spaced xs b" "no_twins xs"
    using assms no_twins_append [of "[(b, s, False)]" ys] by (auto simp: spaced_append no_twins_append)
  obtain s' zs where j: "join_next b s ys = (b, s', True) # zs" "spaced ((b, s', True) # zs) e" "no_twins zs"
    "\<not> (zs \<noteq> [] \<and> snd (snd (hd zs)))" "bytes_in_use zs = bytes_in_use ys" "live zs = live ys"
    using join_next_ok [OF ys] by blast
  have "spaced (join xs b s ys) e \<and> no_twins (join xs b s ys) \<and> bytes_in_use (join xs b s ys) + s = bytes_in_use (xs @ (b, s, False) # ys)
    \<and> first_addr (join xs b s ys) e = first_addr (xs @ (b, s, False) # ys) e \<and> live (join xs b s ys) = live (xs @ ys)"
  proof (cases "xs \<noteq> [] \<and> snd (snd (last xs))")
    case True
    then obtain us p t where x: "xs = us @ [(p, t, True)]" by (metis append_butlast_last_id prod.collapse)
    have "16 dvd t + (kHeader + s')" using xs(1) j(2) x by (simp add: spaced_append kHeader_def)
    then show ?thesis using x xs j no_twins_append [of "[(p, t + (kHeader + s'), True)]" zs]
      by (auto simp: join_def spaced_append no_twins_append bytes_in_use_append first_addr_append)
  next
    case False
    then show ?thesis using xs j no_twins_append [of "[(b, s', True)]" zs]
      by (auto simp: join_def spaced_append no_twins_append bytes_in_use_append first_addr_append)
  qed
  then show "spaced (join xs b s ys) e" "no_twins (join xs b s ys)" "bytes_in_use (join xs b s ys) + s = bytes_in_use (xs @ (b, s, False) # ys)"
    "first_addr (join xs b s ys) e = first_addr (xs @ (b, s, False) # ys) e" "live (join xs b s ys) = live (xs @ ys)" by simp_all
qed

lemma coalesce_fields [simp]:
  "g_break (coalesce b h) = g_break h" "g_used (coalesce b h) = g_used h" "bflag (coalesce b h) = bflag h"
  "bmagic (coalesce b h) = bmagic h"
  by (simp_all add: coalesce_def merge_next_def merge_prev_def Let_def heap_fields)

lemma release_block_ok:
  assumes "heap_ok h (xs @ (b, s, False) # ys)"
  shows "\<exists>h'. release_block b h = Some h' \<and> heap_ok h' (join xs b s ys) \<and> g_used h' = g_used h - s"
proof -
  let ?h = "set_free b True (h\<lparr>g_used := g_used h - s\<rparr>)"
  note ok = heap_okD [OF assms] and at = rep_at [OF heap_okD(1) [OF assms]]
  have "rep (h\<lparr>g_used := g_used h - s\<rparr>) (xs @ (b, s, False) # ys)"
    using ok(1) dll_agree [OF headers_agree_fields(5)] by (simp add: rep_def)
  from set_free_rep [OF this ok(2), of True] have "rep ?h (xs @ (b, s, True) # ys)" .
  from coalesce_rep [OF this] ok(2) have r: "rep (coalesce b ?h) (join xs b s ys)" by simp
  have rb: "release_block b h = Some (coalesce b ?h)" using at by (simp add: release_block_def)
  have o: "spaced (xs @ (b, s, False) # ys) (g_break h)" "no_twins (xs @ (b, s, False) # ys)"
    and u: "g_used h = bytes_in_use (xs @ (b, s, False) # ys)" using assms by (simp_all add: heap_ok_def)
  have "heap_ok (coalesce b ?h) (join xs b s ys)"
    using r join_ok [OF o] assms u by (simp add: heap_ok_def set_free_def)
  with rb show ?thesis by (simp add: set_free_def)
qed

lemma release_live:
  assumes "heap_ok h bs" "(p, s) \<in> live bs"
  shows "kHeader \<le> p" "bmagic h (p - kHeader) = kMagic" "p + s \<le> g_break h"
    "\<exists>h' bs'. release_block (p - kHeader) h = Some h' \<and> heap_ok h' bs' \<and> live bs' = live bs - {(p, s)} \<and> g_used h' = g_used h - s"
proof -
  obtain xs ys where b: "bs = xs @ (p - kHeader, s, False) # ys" "kHeader \<le> p" using assms(2) by (rule liveE)
  note o = assms(1) [unfolded b(1)]
  have sp: "spaced bs (g_break h)" "no_twins bs" using assms(1) by (simp_all add: heap_ok_def)
  have "(p, s) \<notin> live (xs @ ys)" using live_clear(2) [OF sp(1) b(1)] b(2) by simp
  then have "live (join xs (p - kHeader) s ys) = live bs - {(p, s)}"
    using join_ok(5) [OF sp [unfolded b(1)]] b by auto
  then show "\<exists>h' bs'. release_block (p - kHeader) h = Some h' \<and> heap_ok h' bs' \<and> live bs' = live bs - {(p, s)} \<and> g_used h' = g_used h - s"
    using release_block_ok [OF o] by auto
  show "kHeader \<le> p" "bmagic h (p - kHeader) = kMagic" using b(2) rep_at(6) [OF heap_okD(1) [OF o]] by simp_all
  show "p + s \<le> g_break h" using spaced_end [OF sp(1), of "p - kHeader" s False] b by simp
qed

text \<open>
  C31. Releasing an allocation gives back just that one: it succeeds, everything else stays allocated,
  and the heap stays well formed, with no two free blocks side by side.
\<close>

theorem release_gives_back:
  assumes "heap_ok h bs" "(p, s) \<in> live bs"
  shows "\<exists>h' bs'. release p h = Some h' \<and> heap_ok h' bs' \<and> live bs' = live bs - {(p, s)} \<and> g_used h' = g_used h - s"
  using release_live [OF assms] by (auto simp: release_def kHeader_def)

text \<open>
  C33. Releasing the same pointer twice in a row is caught: whatever the first release merged, the second
  panics.
\<close>

theorem double_release_panics:
  assumes "release p h = Some h'" "p \<noteq> 0"
  shows "release p h' = None"
proof -
  let ?b = "if bmagic h (p - kHeader) = kMagic then p - kHeader else p - get_slack p h - kHeader"
  have r: "release_block ?b h = Some h'" and m: "bmagic h ?b = kMagic"
    using assms by (auto simp: release_def Let_def split: if_splits)
  then have f: "bflag h' = (bflag h)(?b := 1)" "bmagic h' = bmagic h"
    by (auto simp: release_block_def set_free_def split: if_splits)
  show ?thesis
  proof (cases "bmagic h (p - kHeader) = kMagic")
    case True
    then show ?thesis using assms(2) f by (simp add: release_def release_block_def)
  next
    case False
    then have "p - kHeader \<noteq> ?b" using m by auto
    then have "get_slack p h' = get_slack p h" using f by (simp add: get_slack_def)
    then show ?thesis using assms(2) f False by (simp add: release_def release_block_def Let_def)
  qed
qed

section \<open>Aligned allocations\<close>




text \<open>
  A request within 15 bytes of the top of the address range wraps to nothing when it is rounded up:
  as long as any block is free, it succeeds, with a block far smaller than what was asked for.
\<close>

theorem huge_request_succeeds:
  assumes "heap_ok h bs" "(a, s, True) \<in> set bs" "18446744073709551600 < bytes" "bytes < 18446744073709551616"
  shows "\<exists>p h' bs'. allocate avail bytes h = Some (p, h') \<and> p \<noteq> 0 \<and> handed_out p 0 bs h' bs'
    \<and> (\<forall>n. (p, n) \<in> live bs' \<longrightarrow> n < bytes)"
proof -
  have "u64 (bytes + 16 - 1) = bytes + 15 - 18446744073709551616"
    using assms(3,4) by (simp add: le_mod_geq)
  then have w: "align_up bytes 16 = 0" using assms(4) by (simp add: align_up_def)
  have "16 dvd (0 :: nat)" by simp
  from assms(1) this order_refl show ?thesis
  proof (cases rule: search)
    case (hit b bs')
    have "n < bytes" if "(b + kHeader, n) \<in> live bs'" for n
    proof -
      have ok: "heap_ok (take_block b 0 h) bs'" "kHeapBase \<le> b + kHeader" using hit(3) by (simp_all add: handed_out_def)
      then have "g_break (take_block b 0 h) < 18446744073709551616" by (simp add: heap_ok_def)
      then show ?thesis using release_live(3) [OF ok(1) that] ok(2) assms(3) by (simp add: kHeapBase_def)
    qed
    then show ?thesis using hit w assms(3)
      by (intro exI [of _ "b + kHeader"] exI [of _ "take_block b 0 h"] exI [of _ bs']) (simp add: allocate_def Let_def)
  next
    case miss
    then show ?thesis using assms(2) by fastforce
  qed
qed

section \<open>From the first page\<close>

definition first_heap :: heap where
  "first_heap = (case heap_init 64 (\<lambda>_. 0) of Some h \<Rightarrow> h | None \<Rightarrow> no_heap (\<lambda>_. 0))"

lemma no_heap_ok: "heap_ok (no_heap junk) []"
  by (simp add: heap_ok_def no_heap_def rep_def kHeapBase_def)

lemma heap_init_ok:
  assumes "17 \<le> avail" "avail < 17179869184"
  shows "\<exists>h. heap_init avail junk = Some h \<and> heap_ok h [(kHeapBase, 69600, True)] \<and> g_break h = kHeapBase + 69632"
proof -
  have n: "pages_for (kGrowthPages * page_size) = 17"
    by (simp add: pages_for_def kGrowthPages_def kHeader_def align_up_def)
  obtain h where g: "heap_grow avail (kGrowthPages * page_size) (no_heap junk) = (True, h)"
    using assms(1) by (simp add: heap_grow_def n Let_def)
  have "heap_ok h (appended [] kHeapBase 69632) \<and> g_break h = kHeapBase + 69632"
    using grow_ok [OF no_heap_ok g] assms(2) by (simp add: n no_heap_def kHeapBase_def)
  then show ?thesis using g by (simp add: heap_init_def appended_def kHeader_def)
qed

lemma first_heap_ok: "heap_ok first_heap [(kHeapBase, 69600, True)]" "g_break first_heap = kHeapBase + 69632"
  using heap_init_ok [of 64 "\<lambda>_. 0"] by (auto simp: first_heap_def)

definition second_heap :: heap where
  "second_heap = take_block kHeapBase 112 first_heap"

lemma second_heap_ok:
  "heap_ok second_heap [(kHeapBase, 112, False), (kHeapBase + 144, 69456, True)]" "g_break second_heap = kHeapBase + 69632"
  using take_ok [of first_heap "[]" kHeapBase 69600 "[]" 112] take_rep(2) [of first_heap "[]" kHeapBase 69600 "[]" 112] first_heap_ok
  by (simp_all add: second_heap_def carve_def kHeader_def add.commute [of 144])

theorem allocations_are_disjoint_witness:
  "\<exists>p h' bs'. allocate 64 100 second_heap = Some (p, h') \<and> p \<noteq> 0
     \<and> handed_out p 100 [(kHeapBase, 112, False), (kHeapBase + 144, 69456, True)] h' bs'"
proof -
  have "g_break second_heap + 64 * page_size < 18446744073709551616" by (simp add: second_heap_ok kHeapBase_def)
  from allocations_are_disjoint [OF second_heap_ok(1) _ this, of 100] show ?thesis
    by (auto simp: kGrowthPages_def split: if_splits)
qed

theorem release_gives_back_witness:
  "\<exists>h' bs'. release (kHeapBase + 32) second_heap = Some h' \<and> heap_ok h' bs' \<and> live bs' = {}
     \<and> g_used h' = g_used second_heap - 112"
  using release_gives_back [OF second_heap_ok(1), of "kHeapBase + 32" 112] by (simp add: kHeader_def)

definition third_heap :: heap where
  "third_heap = (case release (kHeapBase + 32) second_heap of Some h \<Rightarrow> h | None \<Rightarrow> second_heap)"

theorem double_release_panics_witness:
  "release (kHeapBase + 32) second_heap = Some third_heap \<and> release (kHeapBase + 32) third_heap = None"
proof -
  have "(kHeapBase + 32, 112) \<in> live [(kHeapBase, 112, False), (kHeapBase + 144, 69456, True)]" by (simp add: kHeader_def)
  from release_live [OF second_heap_ok(1) this]
  have "release (kHeapBase + 32) second_heap = Some third_heap"
    by (auto simp: third_heap_def release_def kHeader_def)
  then show ?thesis using double_release_panics [of "kHeapBase + 32"] by simp
qed



theorem huge_request_succeeds_witness:
  "\<exists>p h' bs'. allocate 0 18446744073709551608 second_heap = Some (p, h') \<and> p \<noteq> 0
     \<and> handed_out p 0 [(kHeapBase, 112, False), (kHeapBase + 144, 69456, True)] h' bs'
     \<and> (\<forall>n. (p, n) \<in> live bs' \<longrightarrow> n < 18446744073709551608)"
  using huge_request_succeeds [OF second_heap_ok(1), of "kHeapBase + 144" 69456 18446744073709551608 0] by simp

end
