(* ===== verification/Kernel_Lock.thy ===== *)
theory Kernel_Lock
  imports Leah_Prelude
begin

text \<open>
  \<^verbatim>\<open>kernel/sched/lock.cpp\<close>, \<^verbatim>\<open>kernel/sched/bkl.cpp\<close> and \<^verbatim>\<open>kernel/include/leah/lock.hpp\<close>: spin locks with
  a rank, and the big kernel lock. Taking a lock is split at the spin: what runs before the first try
  (\<open>ranked_check\<close>, \<open>bkl_enter\<close>), and one try with what follows when it succeeds (\<open>ranked_try\<close>,
  \<open>bkl_take\<close>). \<open>None\<close> is a panic. Processors run those parts one at a time in any order (\<open>lstep\<close>).
\<close>

section \<open>Ranks\<close>

datatype rank = No_Rank | Kernel_Rank | Files_Rank | Pty_Rank | Ipc_Rank | Device_Rank | Scheduler_Rank
  | Handles_Rank | Image_Rank | Shm_Rank | Heap_Rank | Vmm_Rank | Pmm_Rank | Console_Rank

fun rank_value :: "rank \<Rightarrow> nat" where
  "rank_value No_Rank = 0"
| "rank_value Kernel_Rank = 5"
| "rank_value Files_Rank = 10"
| "rank_value Pty_Rank = 12"
| "rank_value Ipc_Rank = 15"
| "rank_value Device_Rank = 18"
| "rank_value Scheduler_Rank = 20"
| "rank_value Handles_Rank = 30"
| "rank_value Image_Rank = 34"
| "rank_value Shm_Rank = 38"
| "rank_value Heap_Rank = 49"
| "rank_value Vmm_Rank = 50"
| "rank_value Pmm_Rank = 60"
| "rank_value Console_Rank = 70"

lemma rank_value_inj: "rank_value a = rank_value b \<Longrightarrow> a = b"
  by (cases a; cases b) simp_all

instantiation rank :: linorder
begin

definition less_eq_rank :: "rank \<Rightarrow> rank \<Rightarrow> bool" where
  "less_eq_rank a b \<longleftrightarrow> rank_value a \<le> rank_value b"

definition less_rank :: "rank \<Rightarrow> rank \<Rightarrow> bool" where
  "less_rank a b \<longleftrightarrow> rank_value a < rank_value b"

instance
  by standard (auto simp: less_eq_rank_def less_rank_def rank_value_inj)

end

text \<open>The locks of the kernel that have one.\<close>

datatype ranked_lock = Files_Lock | Pty_Lock | Ipc_Lock | Keyboard_Lock | Mouse_Lock | Handles_Lock
  | Image_Lock | Shm_Lock | Heap_Lock | Vmm_Lock | Pmm_Lock

fun m_rank :: "ranked_lock \<Rightarrow> rank" where
  "m_rank Files_Lock = Files_Rank"
| "m_rank Pty_Lock = Pty_Rank"
| "m_rank Ipc_Lock = Ipc_Rank"
| "m_rank Keyboard_Lock = Device_Rank"
| "m_rank Mouse_Lock = Device_Rank"
| "m_rank Handles_Lock = Handles_Rank"
| "m_rank Image_Lock = Image_Rank"
| "m_rank Shm_Lock = Shm_Rank"
| "m_rank Heap_Lock = Heap_Rank"
| "m_rank Vmm_Lock = Vmm_Rank"
| "m_rank Pmm_Lock = Pmm_Rank"

section \<open>The state\<close>

definition kMaxCpus :: nat where "kMaxCpus = 32"
definition kMaxDepth :: nat where "kMaxDepth = 8"
definition kNoOwner :: nat where "kNoOwner = 0xFFFFFFFF"

text \<open>\<open>g_held\<close> keeps for each slot the ranks that are held there, the last one taken first.\<close>

record locks =
  m_locked :: "ranked_lock \<Rightarrow> bool"
  g_held :: "nat \<Rightarrow> rank list"
  bkl_locked :: bool
  g_owner :: nat
  lock_depth :: "nat \<Rightarrow> nat"

definition mine :: "nat \<Rightarrow> nat" where
  "mine cpu = (if cpu < kMaxCpus then cpu else 0)"

definition locks_init :: locks where
  "locks_init = \<lparr>m_locked = (\<lambda>_. False), g_held = (\<lambda>_. []), bkl_locked = False, g_owner = kNoOwner, lock_depth = (\<lambda>_. 0)\<rparr>"

section \<open>Ranked locks\<close>

definition in_order :: "rank \<Rightarrow> rank list \<Rightarrow> bool" where
  "in_order r held \<longleftrightarrow> (held = [] \<or> hd held < r) \<and> length held < kMaxDepth"

definition push_held :: "nat \<Rightarrow> rank \<Rightarrow> locks \<Rightarrow> locks" where
  "push_held cpu r m = m\<lparr>g_held := (g_held m)(mine cpu := r # g_held m (mine cpu))\<rparr>"

definition pop_held :: "nat \<Rightarrow> locks \<Rightarrow> locks" where
  "pop_held cpu m = m\<lparr>g_held := (g_held m)(mine cpu := tl (g_held m (mine cpu)))\<rparr>"

definition ranked_check :: "nat \<Rightarrow> ranked_lock \<Rightarrow> locks \<Rightarrow> unit option" where
  "ranked_check cpu l m = (if in_order (m_rank l) (g_held m (mine cpu)) then Some () else None)"

definition ranked_try :: "nat \<Rightarrow> ranked_lock \<Rightarrow> locks \<Rightarrow> bool \<times> locks" where
  "ranked_try cpu l m =
     (if m_locked m l then (False, m)
      else (True, push_held cpu (m_rank l) (m\<lparr>m_locked := (m_locked m)(l := True)\<rparr>)))"

definition ranked_release :: "nat \<Rightarrow> ranked_lock \<Rightarrow> locks \<Rightarrow> locks option" where
  "ranked_release cpu l m =
     (if g_held m (mine cpu) = [] \<or> hd (g_held m (mine cpu)) \<noteq> m_rank l then None
      else Some ((pop_held cpu m)\<lparr>m_locked := (m_locked m)(l := False)\<rparr>))"

definition note_acquire :: "nat \<Rightarrow> rank \<Rightarrow> locks \<Rightarrow> locks option" where
  "note_acquire cpu r m = (if in_order r (g_held m (mine cpu)) then Some (push_held cpu r m) else None)"

definition note_release :: "nat \<Rightarrow> rank \<Rightarrow> locks \<Rightarrow> locks" where
  "note_release cpu r m =
     (if g_held m (mine cpu) \<noteq> [] \<and> hd (g_held m (mine cpu)) = r then pop_held cpu m else m)"

definition held_count :: "nat \<Rightarrow> locks \<Rightarrow> nat" where
  "held_count cpu m = length (g_held m (mine cpu))"

definition assert_none_held :: "nat \<Rightarrow> locks \<Rightarrow> unit option" where
  "assert_none_held cpu m =
     (let held = g_held m (mine cpu) in if held = [] \<or> held = [Kernel_Rank] then Some () else None)"

definition assert_below :: "nat \<Rightarrow> rank \<Rightarrow> locks \<Rightarrow> unit option" where
  "assert_below cpu limit m =
     (let held = g_held m (mine cpu) in if held = [] \<or> hd held < limit then Some () else None)"

definition holding :: "nat \<Rightarrow> rank \<Rightarrow> locks \<Rightarrow> bool" where
  "holding cpu r m \<longleftrightarrow> r \<in> set (g_held m (mine cpu))"

section \<open>The big kernel lock\<close>

definition set_depth :: "nat \<Rightarrow> nat \<Rightarrow> locks \<Rightarrow> locks" where
  "set_depth cpu n m = m\<lparr>lock_depth := (lock_depth m)(cpu := n)\<rparr>"

text \<open>Up to the loop: a nested entry is done at once, any other has to spin.\<close>

definition bkl_enter :: "nat \<Rightarrow> locks \<Rightarrow> (bool \<times> locks) option" where
  "bkl_enter cpu m =
     (if g_owner m = cpu then Some (True, set_depth cpu (u32 (lock_depth m cpu + 1)) m)
      else map_option (\<lambda>_. (False, m)) (assert_below cpu Scheduler_Rank m))"

definition bkl_take :: "nat \<Rightarrow> nat \<Rightarrow> locks \<Rightarrow> bool \<times> locks" where
  "bkl_take cpu n m =
     (if bkl_locked m then (False, m) else (True, set_depth cpu n (m\<lparr>bkl_locked := True, g_owner := cpu\<rparr>)))"

definition bkl_drop :: "locks \<Rightarrow> locks" where
  "bkl_drop m = m\<lparr>g_owner := kNoOwner, bkl_locked := False\<rparr>"

definition bkl_release :: "nat \<Rightarrow> locks \<Rightarrow> locks" where
  "bkl_release cpu m =
     (if lock_depth m cpu = 0 then m
      else let m = set_depth cpu (lock_depth m cpu - 1) m in if lock_depth m cpu = 0 then bkl_drop m else m)"

definition bkl_release_all :: "nat \<Rightarrow> locks \<Rightarrow> nat \<times> locks" where
  "bkl_release_all cpu m =
     (lock_depth m cpu, if lock_depth m cpu > 0 then bkl_drop (set_depth cpu 0 m) else m)"

text \<open>Handing over at a context switch: done at once, or a try to take the lock at the depth of the next task.\<close>

definition bkl_handoff :: "nat \<Rightarrow> nat \<Rightarrow> locks \<Rightarrow> bool \<times> locks" where
  "bkl_handoff cpu target m =
     (let hold = (g_owner m = cpu) in
      if target = 0 then (True, if hold then bkl_drop (set_depth cpu 0 m) else m)
      else if hold then (True, set_depth cpu target m)
      else bkl_take cpu target m)"

definition bkl_reacquire :: "nat \<Rightarrow> nat \<Rightarrow> locks \<Rightarrow> bool \<times> locks" where
  "bkl_reacquire cpu previous m = (if previous = 0 then (True, m) else bkl_take cpu previous m)"

section \<open>Processors\<close>

text \<open>
  What a processor is spinning for, and (not in the code) which one took a ranked lock. A processor that
  spins does nothing else, since the kernel masks interrupts around these locks; a guard releases the
  lock it took.
\<close>

datatype wish = For ranked_lock | For_Big nat

record procs =
  lks :: locks
  wants :: "nat \<Rightarrow> wish option"
  taken_by :: "ranked_lock \<Rightarrow> nat option"

definition all_idle :: procs where
  "all_idle = \<lparr>lks = locks_init, wants = (\<lambda>_. None), taken_by = (\<lambda>_. None)\<rparr>"

datatype lop = Take ranked_lock | Spin | Give ranked_lock | Big_Take | Big_Give | Big_Drop | Switch nat

inductive lstep :: "nat \<Rightarrow> procs \<Rightarrow> nat \<times> lop \<Rightarrow> procs \<Rightarrow> bool" for cpus where
  take: "cpu < cpus \<Longrightarrow> wants s cpu = None \<Longrightarrow> ranked_check cpu l (lks s) = Some () \<Longrightarrow>
    lstep cpus s (cpu, Take l) (s\<lparr>wants := (wants s)(cpu := Some (For l))\<rparr>)"
| spin_again: "cpu < cpus \<Longrightarrow> wants s cpu = Some (For l) \<Longrightarrow> ranked_try cpu l (lks s) = (False, m) \<Longrightarrow>
    lstep cpus s (cpu, Spin) (s\<lparr>lks := m\<rparr>)"
| spin_got: "cpu < cpus \<Longrightarrow> wants s cpu = Some (For l) \<Longrightarrow> ranked_try cpu l (lks s) = (True, m) \<Longrightarrow>
    lstep cpus s (cpu, Spin) \<lparr>lks = m, wants = (wants s)(cpu := None), taken_by = (taken_by s)(l := Some cpu)\<rparr>"
| give: "cpu < cpus \<Longrightarrow> wants s cpu = None \<Longrightarrow> taken_by s l = Some cpu \<Longrightarrow> ranked_release cpu l (lks s) = Some m \<Longrightarrow>
    lstep cpus s (cpu, Give l) (s\<lparr>lks := m, taken_by := (taken_by s)(l := None)\<rparr>)"
| big_nested: "cpu < cpus \<Longrightarrow> wants s cpu = None \<Longrightarrow> bkl_enter cpu (lks s) = Some (True, m) \<Longrightarrow>
    lstep cpus s (cpu, Big_Take) (s\<lparr>lks := m\<rparr>)"
| big_take: "cpu < cpus \<Longrightarrow> wants s cpu = None \<Longrightarrow> bkl_enter cpu (lks s) = Some (False, m) \<Longrightarrow>
    lstep cpus s (cpu, Big_Take) (s\<lparr>lks := m, wants := (wants s)(cpu := Some (For_Big 1))\<rparr>)"
| big_again: "cpu < cpus \<Longrightarrow> wants s cpu = Some (For_Big n) \<Longrightarrow> bkl_take cpu n (lks s) = (False, m) \<Longrightarrow>
    lstep cpus s (cpu, Spin) (s\<lparr>lks := m\<rparr>)"
| big_got: "cpu < cpus \<Longrightarrow> wants s cpu = Some (For_Big n) \<Longrightarrow> bkl_take cpu n (lks s) = (True, m) \<Longrightarrow>
    lstep cpus s (cpu, Spin) (s\<lparr>lks := m, wants := (wants s)(cpu := None)\<rparr>)"
| big_give: "cpu < cpus \<Longrightarrow> wants s cpu = None \<Longrightarrow>
    lstep cpus s (cpu, Big_Give) (s\<lparr>lks := bkl_release cpu (lks s)\<rparr>)"
| switch: "cpu < cpus \<Longrightarrow> wants s cpu = None \<Longrightarrow> assert_none_held cpu (lks s) = Some () \<Longrightarrow>
    bkl_handoff cpu depth (lks s) = (True, m) \<Longrightarrow>
    lstep cpus s (cpu, Switch depth) (s\<lparr>lks := m\<rparr>)"
| switch_wait: "cpu < cpus \<Longrightarrow> wants s cpu = None \<Longrightarrow> assert_none_held cpu (lks s) = Some () \<Longrightarrow>
    bkl_handoff cpu depth (lks s) = (False, m) \<Longrightarrow>
    lstep cpus s (cpu, Switch depth) (s\<lparr>lks := m, wants := (wants s)(cpu := Some (For_Big depth))\<rparr>)"
| big_drop: "cpu < cpus \<Longrightarrow> wants s cpu = None \<Longrightarrow>
    lstep cpus s (cpu, Big_Drop) (s\<lparr>lks := snd (bkl_release_all cpu (lks s))\<rparr>)"

inductive lrun :: "nat \<Rightarrow> procs \<Rightarrow> (nat \<times> lop) list \<Rightarrow> procs \<Rightarrow> bool" for cpus where
  lrun_nil: "lrun cpus s [] s"
| lrun_step: "lstep cpus s e t \<Longrightarrow> lrun cpus t es u \<Longrightarrow> lrun cpus s (e # es) u"

inductive_cases lrunE: "lrun cpus s es t"
inductive_simps lrun_simps: "lrun cpus s [] t" "lrun cpus s (e # es) t"

text \<open>Who waits for whom.\<close>

fun awaits :: "procs \<Rightarrow> nat \<Rightarrow> nat \<Rightarrow> bool" where
  "awaits s c d \<longleftrightarrow> (case wants s c of None \<Rightarrow> False | Some (For l) \<Rightarrow> taken_by s l = Some d
     | Some (For_Big n) \<Rightarrow> bkl_locked (lks s) \<and> g_owner (lks s) = d)"

definition awaits_ranked :: "procs \<Rightarrow> nat \<Rightarrow> nat \<Rightarrow> bool" where
  "awaits_ranked s c d \<longleftrightarrow> (\<exists>l. wants s c = Some (For l) \<and> taken_by s l = Some d)"

end
