(* ===== verification/Kernel_Lock_Laws.thy ===== *)
theory Kernel_Lock_Laws
  imports Kernel_Lock
begin

text \<open>
  What the order of the ranks gives: processors never wait for one another in a circle through ranked
  locks. The big lock is outside that order, and with it they can.
\<close>

section \<open>The ranks held\<close>

text \<open>What a processor holds it took in increasing order, and it only spins for a higher rank.\<close>

definition order_ok :: "procs \<Rightarrow> bool" where
  "order_ok s \<longleftrightarrow>
     (\<forall>c. sorted_wrt (>) (g_held (lks s) c)) \<and>
     (\<forall>l c. taken_by s l = Some c \<longrightarrow> c < kMaxCpus \<and> m_rank l \<in> set (g_held (lks s) c)) \<and>
     (\<forall>l k c. taken_by s l = Some c \<longrightarrow> taken_by s k = Some c \<longrightarrow> m_rank l = m_rank k \<longrightarrow> l = k) \<and>
     (\<forall>c l. wants s c = Some (For l) \<longrightarrow> c < kMaxCpus \<and> (\<forall>r \<in> set (g_held (lks s) c). r < m_rank l)) \<and>
     (\<forall>l. m_locked (lks s) l \<longleftrightarrow> taken_by s l \<noteq> None)"

lemma order_okD:
  assumes "order_ok s"
  shows "sorted_wrt (>) (g_held (lks s) c)"
    "taken_by s l = Some c \<Longrightarrow> c < kMaxCpus" "taken_by s l = Some c \<Longrightarrow> m_rank l \<in> set (g_held (lks s) c)"
    "taken_by s l = Some c \<Longrightarrow> taken_by s k = Some c \<Longrightarrow> m_rank l = m_rank k \<Longrightarrow> l = k"
    "wants s c = Some (For l) \<Longrightarrow> c < kMaxCpus" "wants s c = Some (For l) \<Longrightarrow> \<forall>r \<in> set (g_held (lks s) c). r < m_rank l"
    "m_locked (lks s) l \<longleftrightarrow> taken_by s l \<noteq> None"
  using assms unfolding order_ok_def by blast+

lemma order_okI:
  assumes "\<And>c. sorted_wrt (>) (g_held (lks s) c)"
    "\<And>l c. taken_by s l = Some c \<Longrightarrow> c < kMaxCpus \<and> m_rank l \<in> set (g_held (lks s) c)"
    "\<And>l k c. taken_by s l = Some c \<Longrightarrow> taken_by s k = Some c \<Longrightarrow> m_rank l = m_rank k \<Longrightarrow> l = k"
    "\<And>c l. wants s c = Some (For l) \<Longrightarrow> c < kMaxCpus \<and> (\<forall>r \<in> set (g_held (lks s) c). r < m_rank l)"
    "\<And>l. m_locked (lks s) l \<longleftrightarrow> taken_by s l \<noteq> None"
  shows "order_ok s"
  using assms unfolding order_ok_def by blast

lemma in_order_above: "sorted_wrt (>) held \<Longrightarrow> in_order r held \<Longrightarrow> \<forall>q \<in> set held. q < r"
  by (cases held) (auto simp: in_order_def)

lemma mine_less [simp]: "c < kMaxCpus \<Longrightarrow> mine c = c"
  by (simp add: mine_def)

lemma bkl_fields [simp]:
  "g_held (bkl_release c m) = g_held m" "m_locked (bkl_release c m) = m_locked m"
  "g_held (snd (bkl_release_all c m)) = g_held m" "m_locked (snd (bkl_release_all c m)) = m_locked m"
  "g_held (snd (bkl_take c n m)) = g_held m" "m_locked (snd (bkl_take c n m)) = m_locked m"
  "g_held (snd (bkl_handoff c n m)) = g_held m" "m_locked (snd (bkl_handoff c n m)) = m_locked m"
  "g_held (set_depth c n m) = g_held m" "m_locked (set_depth c n m) = m_locked m"
  by (simp_all add: bkl_release_def bkl_release_all_def bkl_take_def bkl_handoff_def set_depth_def bkl_drop_def Let_def)

text \<open>Steps around the big lock leave all this alone.\<close>

lemma order_ok_same:
  assumes "order_ok s" "g_held m = g_held (lks s)" "m_locked m = m_locked (lks s)"
    "\<And>c l. w c = Some (For l) \<Longrightarrow> wants s c = Some (For l)"
  shows "order_ok (s\<lparr>lks := m, wants := w\<rparr>)"
proof -
  note ok = order_okD [OF assms(1)]
  have w: "c < kMaxCpus \<and> (\<forall>r \<in> set (g_held (lks s) c). r < m_rank l)" if "w c = Some (For l)" for c l
    using ok(5,6) assms(4) [OF that] by blast
  show ?thesis
  proof (rule order_okI)
    fix l k c
    assume "taken_by (s\<lparr>lks := m, wants := w\<rparr>) l = Some c" "taken_by (s\<lparr>lks := m, wants := w\<rparr>) k = Some c" "m_rank l = m_rank k"
    then show "l = k" using ok(4) by simp
  qed (use ok(1,2,3,7) w assms(2,3) in simp_all)
qed

lemma order_ok_lks:
  assumes "order_ok s" "g_held m = g_held (lks s)" "m_locked m = m_locked (lks s)"
  shows "order_ok (s\<lparr>lks := m\<rparr>)"
proof -
  have "s\<lparr>lks := m\<rparr> = s\<lparr>lks := m, wants := wants s\<rparr>" by (cases s) simp
  moreover have "order_ok (s\<lparr>lks := m, wants := wants s\<rparr>)" by (rule order_ok_same [OF assms])
  ultimately show ?thesis by (simp only:)
qed

lemma order_ok_got:
  assumes "order_ok s" "wants s c = Some (For l)" "ranked_try c l (lks s) = (True, m)"
  shows "order_ok \<lparr>lks = m, wants = (wants s)(c := None), taken_by = (taken_by s)(l := Some c)\<rparr>"
proof -
  note ok = order_okD [OF assms(1)]
  have c: "c < kMaxCpus" "\<forall>r \<in> set (g_held (lks s) c). r < m_rank l" using ok(5,6) assms(2) by auto
  have m: "taken_by s l = None" "g_held m = (g_held (lks s))(c := m_rank l # g_held (lks s) c)"
    "m_locked m = (m_locked (lks s))(l := True)"
    using assms(3) c(1) ok(7) [of l] by (auto simp: ranked_try_def push_held_def split: if_splits)
  have ne: "m_rank k \<noteq> m_rank l" if "taken_by s k = Some c" for k
    using ok(3) [OF that] c(2) by auto
  show ?thesis
  proof (intro order_okI)
    fix k k' d
    assume "taken_by \<lparr>lks = m, wants = (wants s)(c := None), taken_by = (taken_by s)(l := Some c)\<rparr> k = Some d"
      "taken_by \<lparr>lks = m, wants = (wants s)(c := None), taken_by = (taken_by s)(l := Some c)\<rparr> k' = Some d" "m_rank k = m_rank k'"
    then show "k = k'" using ne ok(4) by (auto split: if_splits)
  qed (use ok c m in \<open>auto split: if_splits\<close>)
qed

lemma order_ok_give:
  assumes "order_ok s" "taken_by s l = Some c" "ranked_release c l (lks s) = Some m" "wants s c = None"
  shows "order_ok (s\<lparr>lks := m, taken_by := (taken_by s)(l := None)\<rparr>)"
proof -
  note ok = order_okD [OF assms(1)]
  have c: "c < kMaxCpus" using ok(2) assms(2) .
  obtain rs where h: "g_held (lks s) c = m_rank l # rs"
    using assms(3) c by (cases "g_held (lks s) c") (auto simp: ranked_release_def split: if_splits)
  have m: "g_held m = (g_held (lks s))(c := rs)" "m_locked m = (m_locked (lks s))(l := False)"
    using assms(3) c h by (auto simp: ranked_release_def pop_held_def split: if_splits)
  have rest: "m_rank k \<in> set rs" if "taken_by s k = Some c" "k \<noteq> l" for k
    using ok(3) [OF that(1)] ok(4) [OF that(1) assms(2)] that(2) h by auto
  have "sorted_wrt (>) rs" using ok(1) [of c] h by simp
  then show ?thesis using ok m rest assms(4) c by (intro order_okI) (auto split: if_splits)
qed

lemma lstep_order:
  assumes "lstep cpus s e t" "cpus \<le> kMaxCpus" "order_ok s"
  shows "order_ok t"
  using assms(1)
proof (cases rule: lstep.cases)
  case (take cpu l)
  then have c: "cpu < kMaxCpus" using assms(2) by simp
  have "\<forall>q \<in> set (g_held (lks s) cpu). q < m_rank l"
    using in_order_above order_okD(1) [OF assms(3)] take c by (auto simp: ranked_check_def split: if_splits)
  then show ?thesis using order_okD [OF assms(3)] c unfolding take(2) by (intro order_okI) (auto split: if_splits)
next
  case (spin_again cpu l m)
  then show ?thesis using order_ok_lks [OF assms(3), of m] by (simp add: ranked_try_def split: if_splits)
next
  case (spin_got cpu l m)
  then show ?thesis using order_ok_got [OF assms(3)] by simp
next
  case (give cpu l m)
  then show ?thesis using order_ok_give [OF assms(3)] by simp
next
  case (big_nested cpu m)
  then show ?thesis using order_ok_lks [OF assms(3), of m] by (auto simp: bkl_enter_def split: if_splits)
next
  case (big_take cpu m)
  show ?thesis unfolding big_take(2)
    by (rule order_ok_same [OF assms(3)]) (use big_take in \<open>auto simp: bkl_enter_def split: if_splits\<close>)
next
  case (big_again cpu n m)
  then show ?thesis using order_ok_lks [OF assms(3), of m] bkl_fields(5,6) [of cpu n "lks s"] by simp
next
  case (big_got cpu n m)
  show ?thesis unfolding big_got(2)
    by (rule order_ok_same [OF assms(3)]) (use big_got bkl_fields(5,6) [of cpu n "lks s"] in \<open>auto split: if_splits\<close>)
next
  case (big_give cpu)
  then show ?thesis using order_ok_lks [OF assms(3)] by simp
next
  case (switch cpu depth m)
  then show ?thesis using order_ok_lks [OF assms(3), of m] bkl_fields(7,8) [of cpu depth "lks s"] by simp
next
  case (switch_wait cpu depth m)
  show ?thesis unfolding switch_wait(2)
    by (rule order_ok_same [OF assms(3)]) (use switch_wait bkl_fields(7,8) [of cpu depth "lks s"] in \<open>auto split: if_splits\<close>)
next
  case (big_drop cpu)
  then show ?thesis using order_ok_lks [OF assms(3)] by simp
qed

lemma idle_order: "order_ok all_idle"
  by (intro order_okI) (simp_all add: all_idle_def locks_init_def)

lemma lrun_order: "lrun cpus s es t \<Longrightarrow> cpus \<le> kMaxCpus \<Longrightarrow> order_ok s \<Longrightarrow> order_ok t"
  by (induction rule: lrun.induct) (auto dest: lstep_order)

section \<open>No circle\<close>

definition wanted_rank :: "procs \<Rightarrow> nat \<Rightarrow> nat" where
  "wanted_rank s c = (case wants s c of Some (For l) \<Rightarrow> rank_value (m_rank l) | _ \<Rightarrow> 0)"

lemma awaits_rises:
  assumes "order_ok s" "awaits_ranked s c d" "awaits_ranked s d e"
  shows "wanted_rank s c < wanted_rank s d"
proof -
  obtain l k where l: "wants s c = Some (For l)" "taken_by s l = Some d" "wants s d = Some (For k)"
    using assms(2,3) by (auto simp: awaits_ranked_def)
  then have "m_rank l < m_rank k" using order_okD(3,6) [OF assms(1)] by blast
  then show ?thesis using l by (simp add: wanted_rank_def less_rank_def)
qed

lemma chain_rises:
  assumes "(awaits_ranked s)\<^sup>+\<^sup>+ c d" "order_ok s" "awaits_ranked s d e"
  shows "wanted_rank s c < wanted_rank s d"
  using assms
proof (induction arbitrary: e rule: tranclp.induct)
  case (r_into_trancl a b)
  then show ?case using awaits_rises by blast
next
  case (trancl_into_trancl a b c)
  then show ?case using awaits_rises less_trans by blast
qed

text \<open>
  C34. However the processors interleave their acquisitions and releases, at no moment do some of them
  wait in a circle for ranked locks the others hold; in particular none waits for a lock of its own.
\<close>

theorem no_circle_of_ranked_locks:
  assumes "lrun cpus all_idle es s" "cpus \<le> kMaxCpus"
  shows "\<not> (awaits_ranked s)\<^sup>+\<^sup>+ c c"
proof
  assume r: "(awaits_ranked s)\<^sup>+\<^sup>+ c c"
  have ok: "order_ok s" using lrun_order [OF assms idle_order] .
  from r obtain e where "awaits_ranked s c e" by (meson tranclpD)
  then show False using chain_rises [OF r ok] by blast
qed

section \<open>The big lock\<close>

text \<open>Two processors that hold what the other spins for stay that way.\<close>

definition crossed :: "nat \<Rightarrow> nat \<Rightarrow> procs \<Rightarrow> bool" where
  "crossed a b s \<longleftrightarrow> wants s a = Some (For Pty_Lock) \<and> taken_by s Pty_Lock = Some b \<and> m_locked (lks s) Pty_Lock
     \<and> wants s b = Some (For_Big 1) \<and> bkl_locked (lks s) \<and> g_owner (lks s) = a \<and> (\<forall>c. c \<noteq> a \<longrightarrow> lock_depth (lks s) c = 0)"

lemma crossed_step:
  assumes "lstep cpus s e t" "crossed a b s"
  shows "crossed a b t"
proof -
  have ne: "c \<noteq> a" "c \<noteq> b" "a \<noteq> c" "b \<noteq> c" if "wants s c = None" for c using assms(2) that by (auto simp: crossed_def)
  have z: "lock_depth (lks s) c = 0" if "wants s c = None" for c using assms(2) ne(1) [OF that] by (simp add: crossed_def)
  show ?thesis
    using assms(1)
  proof (cases rule: lstep.cases)
    case (take cpu l)
    then show ?thesis using assms(2) ne [OF take(4)] by (simp add: crossed_def)
  next
    case (spin_got cpu l m)
    then have "l \<noteq> Pty_Lock" using assms(2) by (auto simp: crossed_def ranked_try_def)
    then show ?thesis using spin_got assms(2)
      by (auto simp: crossed_def ranked_try_def push_held_def split: if_splits)
  next
    case (give cpu l m)
    then have "l \<noteq> Pty_Lock" using assms(2) ne(2) by (auto simp: crossed_def)
    then show ?thesis using give assms(2) by (auto simp: crossed_def ranked_release_def pop_held_def split: if_splits)
  next
    case (big_got cpu n m)
    then show ?thesis using assms(2) by (simp add: crossed_def bkl_take_def)
  next
    case (big_give cpu)
    then show ?thesis using assms(2) z by (simp add: crossed_def bkl_release_def)
  next
    case (big_drop cpu)
    then show ?thesis using assms(2) z by (simp add: crossed_def bkl_release_all_def)
  qed (use assms(2) ne in \<open>auto simp: crossed_def ranked_try_def bkl_enter_def bkl_take_def
    bkl_handoff_def set_depth_def Let_def split: if_splits\<close>)
qed

lemma crossed_run: "lrun cpus s es t \<Longrightarrow> crossed a b s \<Longrightarrow> crossed a b t"
  by (induction rule: lrun.induct) (auto dest: crossed_step)

text \<open>Exiting takes the terminal's lock under the big one; reading a terminal takes them the other way round.\<close>

definition crossing :: "(nat \<times> lop) list" where
  "crossing = [(0, Big_Take), (0, Spin), (1, Take Pty_Lock), (1, Spin), (0, Take Pty_Lock), (1, Big_Take)]"

definition crossed_procs :: procs where
  "crossed_procs = \<lparr>lks = \<lparr>m_locked = (\<lambda>_. False)(Pty_Lock := True), g_held = (\<lambda>_. [])(1 := [Pty_Rank]),
       bkl_locked = True, g_owner = 0, lock_depth = (\<lambda>_. 0)(0 := 1)\<rparr>,
     wants = (\<lambda>_. None)(0 := Some (For Pty_Lock), 1 := Some (For_Big 1)), taken_by = (\<lambda>_. None)(Pty_Lock := Some 1)\<rparr>"

lemmas crossing_simps = all_idle_def locks_init_def crossed_procs_def ranked_check_def in_order_def kMaxDepth_def
  kMaxCpus_def mine_def kNoOwner_def bkl_enter_def assert_below_def bkl_take_def set_depth_def ranked_try_def push_held_def
  less_rank_def Let_def

lemma crossing_run:
  assumes "2 \<le> cpus"
  shows "lrun cpus all_idle crossing crossed_procs"
proof -
  have c: "0 < cpus" "1 < cpus" using assms by simp_all
  let ?m1 = "locks_init\<lparr>bkl_locked := True, g_owner := 0, lock_depth := (\<lambda>_. 0)(0 := 1)\<rparr>"
  let ?m2 = "?m1\<lparr>m_locked := (\<lambda>_. False)(Pty_Lock := True), g_held := (\<lambda>_. [])(1 := [Pty_Rank])\<rparr>"
  let ?s1 = "all_idle\<lparr>lks := locks_init, wants := (\<lambda>_. None)(0 := Some (For_Big 1))\<rparr>"
  let ?s2 = "all_idle\<lparr>lks := ?m1, wants := \<lambda>_. None\<rparr>"
  let ?s3 = "?s2\<lparr>wants := (\<lambda>_. None)(1 := Some (For Pty_Lock))\<rparr>"
  let ?s4 = "\<lparr>lks = ?m2, wants = \<lambda>_. None, taken_by = (\<lambda>_. None)(Pty_Lock := Some 1)\<rparr>"
  let ?s5 = "?s4\<lparr>wants := (\<lambda>_. None)(0 := Some (For Pty_Lock))\<rparr>"
  have "lstep cpus all_idle (0, Big_Take) ?s1"
    using lstep.big_take [OF c(1), of all_idle locks_init] by (simp add: crossing_simps)
  moreover have "lstep cpus ?s1 (0, Spin) ?s2"
    using lstep.big_got [OF c(1), of ?s1 1 ?m1] by (simp add: crossing_simps)
  moreover have "lstep cpus ?s2 (1, Take Pty_Lock) ?s3"
    using lstep.take [OF c(2), of ?s2 Pty_Lock] by (simp add: crossing_simps)
  moreover have "lstep cpus ?s3 (1, Spin) ?s4"
    using lstep.spin_got [OF c(2), of ?s3 Pty_Lock ?m2] by (simp add: crossing_simps)
  moreover have "lstep cpus ?s4 (0, Take Pty_Lock) ?s5"
    using lstep.take [OF c(1), of ?s4 Pty_Lock] by (simp add: crossing_simps)
  moreover have "lstep cpus ?s5 (1, Big_Take) crossed_procs"
    using lstep.big_take [OF c(2), of ?s5 ?m2] by (simp add: crossing_simps)
  ultimately show ?thesis unfolding crossing_def by (meson lrun_step lrun_nil)
qed

text \<open>
  C36. The big lock is outside the order of the ranks. Two processors can come to wait for one another,
  one holding the big lock and spinning for the terminals' lock (as an exit does), the other holding that
  one and spinning for the big lock (as a read of a terminal does), past every check; and whatever the
  other processors do, they wait for ever.
\<close>

theorem big_lock_deadlocks:
  assumes "2 \<le> cpus"
  shows "\<exists>s. lrun cpus all_idle crossing s \<and> (\<forall>es t. lrun cpus s es t \<longrightarrow> awaits t 0 1 \<and> awaits t 1 0)"
proof (intro exI conjI allI impI)
  show "lrun cpus all_idle crossing crossed_procs" by (rule crossing_run [OF assms])
  fix es t
  assume r: "lrun cpus crossed_procs es t"
  have "crossed 0 1 crossed_procs" by (simp add: crossed_def crossed_procs_def)
  from crossed_run [OF r this] show "awaits t 0 1" "awaits t 1 0" by (auto simp: crossed_def)
qed

section \<open>Exclusion\<close>







section \<open>Concrete runs\<close>

theorem no_circle_of_ranked_locks_witness: "\<not> (awaits_ranked crossed_procs)\<^sup>+\<^sup>+ 0 0"
  using no_circle_of_ranked_locks [OF crossing_run, of 8 0] by (simp add: kMaxCpus_def)

theorem big_lock_deadlocks_witness:
  "\<exists>s. lrun 8 all_idle crossing s \<and> awaits s 0 1 \<and> awaits s 1 0"
proof -
  obtain s where "lrun 8 all_idle crossing s" "\<forall>es t. lrun 8 s es t \<longrightarrow> awaits t 0 1 \<and> awaits t 1 0"
    using big_lock_deadlocks [of 8] by auto
  then show ?thesis using lrun_nil by blast
qed


end
