(* ===== verification/Spec2Isabelle.thy ===== *)
theory Spec2Isabelle
  imports Vfs_Dir_Runs Vfs_Server Libc_Image_Laws Libc_Time_Laws Kernel_Pmm_Laws Kernel_Ipc_Runs Kernel_Pty_Laws Kernel_Heap_Laws Kernel_Lock_Laws
begin

text \<open>
  A verification of parts of leahOS: a microkernel written in C++ (\<^verbatim>\<open>src/kernel\<close>) with servers, a C
  library and programs in C (\<^verbatim>\<open>src/user\<close>). Kernel and servers meet in messages: a program that opens a
  file asks its C library, which sends a message through the kernel's ports to the file server
  \<^verbatim>\<open>user/vfsd.c\<close>, which sends messages to the disk drivers. What a process may do is what its handles
  name. Frames of memory come from the frame allocator, kernel objects from the heap above it.

  \<^bold>\<open>Conventions.\<close> The model is a shallow embedding: records for structures, datatypes for enumerations,
  one definition per function, with the state passed explicitly. A function that can fault, panic or
  fail to return answers in the option type, where \<open>None\<close> is that it does; an error the code returns
  is a value. Unsigned arithmetic that can wrap says so (\<open>u32\<close>, \<open>u64\<close>, \<open>sub32\<close>, \<open>sub64\<close>); bytes are
  8-bit words. A call that sleeps is cut at the sleep: the part before it, and the part after the
  wake-up. What other code answers (drivers, system calls, whether memory is left) is an argument.
  \<open>Leah_Prelude\<close> holds the vocabulary, the buffers and the lemmas on them (\<open>buf_simps\<close>, \<open>frame_simps\<close>).

  \<^bold>\<open>The file server\<close>, \<^verbatim>\<open>user/vfsd.c\<close>, in the order of the file:
  \<^item> \<open>Vfs_Bytes\<close>: the accessors of on-disk fields, and that reading gives back what was written.
  \<^item> \<open>Vfs_Disk\<close>: the server's state (\<open>vfs\<close>, \<open>fs\<close>, \<open>inode\<close>), messages to the drivers, the block cache
    (\<open>cache_put\<close>, \<open>cache_get\<close>), reads and writes of blocks; the cache stays coherent with the disk.
  \<^item> \<open>Vfs_Extent\<close>: \<open>map_block\<close>, a walk through on-disk extent trees, at most as deep as the code goes.
  \<^item> \<open>Vfs_Journal\<close>: transactions, commits (\<open>txn_flush\<close>) and recovery (\<open>journal_replay\<close>).
    \<open>Vfs_Journal_Laws\<close>, \<open>Vfs_Crash\<close> and \<open>Vfs_Recovery\<close> show that a commit is durable and, at whichever
    sector the power fails, also during a recovery, all or nothing; \<open>Vfs_Demo\<close> is a concrete disk. The
    disk is assumed to write single sectors whole and in the order they are sent.
  \<^item> \<open>Vfs_Alloc\<close>, \<open>Vfs_Dir\<close>, \<open>Vfs_Path\<close>, \<open>Vfs_Mount\<close>, \<open>Vfs_Proc\<close>, \<open>Vfs_Fsck\<close>, \<open>Vfs_Server\<close>: allocation and
    inodes, directories, paths and links, mounts, \<^verbatim>\<open>/proc\<close>, the consistency check, and every request
    of the protocol (\<open>dispatch\<close>, \<open>serve\<close>). Walks through pointers read from the disk are partial
    functions, since a damaged disk can make them circular.
  \<^item> \<open>Vfs_Dir_Laws\<close>: a directory block is a map from names to inodes (the locale \<open>name_store\<close>, interpreted
    on the block operations); \<open>Vfs_Dir_Runs\<close>: so is a directory on the journalled disk, through the cache, the
    batch of the open transaction and the commits in between.

  \<^bold>\<open>The C library.\<close>
  \<^item> \<open>Libc_Inflate\<close>, \<open>Libc_Inflate_Laws\<close>: \<^verbatim>\<open>libc/inflate.c\<close>. The decompressor ends on every input, stays
    inside its arrays, decodes canonical codes, and its lookup table agrees with the walk of the code;
    the table-driven checksum is the division of polynomials.
  \<^item> \<open>Libc_Image\<close>, \<open>Libc_Image_Laws\<close>: \<^verbatim>\<open>libc/image.c\<close>. What the PNG writer writes, the reader reads.
  \<^item> \<open>Libc_Time\<close>, \<open>Libc_Time_Laws\<close>: \<^verbatim>\<open>libc/time.c\<close>. Dates follow the calendar and convert back; the
    search in a time zone finds the offset in force; a formatted date fits its buffer or says so.

  \<^bold>\<open>The kernel.\<close>
  \<^item> \<open>Kernel_Pmm\<close>, \<open>Kernel_Pmm_Laws\<close>: \<^verbatim>\<open>mm/pmm.cpp\<close>, the frame allocator. Frames handed out were free,
    counters agree with the bitmap, shared frames are freed by their last user, writes after a free are
    found.
  \<^item> \<open>Kernel_Heap\<close>, \<open>Kernel_Heap_Laws\<close>: \<^verbatim>\<open>mm/heap.cpp\<close>. The headers in memory represent a list of blocks;
    allocations are disjoint, releases give back what was allocated.
  \<^item> \<open>Kernel_Lock\<close>, \<open>Kernel_Lock_Laws\<close>: \<^verbatim>\<open>sched/lock.cpp\<close>, \<^verbatim>\<open>sched/bkl.cpp\<close>. Processors interleave one
    attempt at a time (\<open>lstep\<close>); ranked locks admit no circle, with the big lock there can be one.
  \<^item> \<open>Kernel_Object\<close>, \<open>Kernel_Object_Laws\<close>: \<^verbatim>\<open>proc/object.cpp\<close>, handles. No operation conveys a right that
    was not given; the tables implement a map from handles to capabilities.
  \<^item> \<open>Kernel_Ipc\<close>, \<open>Kernel_Ipc_Laws\<close>, \<open>Kernel_Ipc_Runs\<close>: \<^verbatim>\<open>proc/ipc.cpp\<close>, message passing as threads that
    interleave (\<open>istep\<close>): the invariant of the request slots, that answers arrive, that messages move
    capabilities without adding to them, and the runs in which a slot or a caller is lost.
  \<^item> \<open>Kernel_Pty\<close>, \<open>Kernel_Pty_Laws\<close>: \<^verbatim>\<open>fs/pty.cpp\<close>. The rings are bounded queues (the locale
    \<open>bounded_queue\<close>, interpreted on them), and the terminal refines an abstract one.

  \<^bold>\<open>Bounds and fuel.\<close> No definition takes fuel of its own: the only counters are the code's (the depth of an extent tree
  is cut at 8). Loops over data in memory are structural or have a
  measure; those that follow links which nothing bounds (the heap's list, blocks of a damaged disk) are
  partial functions, and the theorems that claim a result prove that it is there. Numeric hypotheses are
  the limits of the code's types: 64-bit addresses that do not wrap, 2^21 uses of one handle slot, dates
  within a billion years.

  \<^bold>\<open>Not modelled\<close>, and why: the boot loader, interrupt entry, the device drivers and the dispatcher of
  system calls are processor state and port I/O; the page tables, the scheduler's context switch and the
  loader of programs act on processor registers and raw memory; the window server, the desktop and its
  programs are drawing and event loops; the shell, the terminal editors and most command-line tools are
  sequences of system calls; the network stack is driven by its card and by clocks; \<^verbatim>\<open>stdio.c\<close> rests on
  variadic formatting, \<^verbatim>\<open>math.c\<close> on floating point. \<^verbatim>\<open>fs/files.cpp\<close> and \<^verbatim>\<open>mm/shm.cpp\<close> act through the
  scheduler and the address spaces. Pure code that could be modelled in the same way and is not: of the
  C library \<^verbatim>\<open>regex.c\<close>, \<^verbatim>\<open>sha256.c\<close>, \<^verbatim>\<open>string.c\<close>, \<^verbatim>\<open>stdlib.c\<close>, \<^verbatim>\<open>env.c\<close>, \<^verbatim>\<open>paths.c\<close>, \<^verbatim>\<open>testexpr.c\<close>,
  \<^verbatim>\<open>textedit.c\<close>, \<^verbatim>\<open>archive.c\<close>, and the server \<^verbatim>\<open>authd.c\<close>. Of the file server, the theorems on
  directories do not cover a directory that has to grow by a block, and allocation, paths, mounts, the
  consistency check and the requests are modelled without theorems about them.
\<close>

end
